(* ===== verification/Prelude.thy ===== *)
theory Prelude
  imports Main "HOL-Library.Word"
begin

text \<open>
  Shared vocabulary of the development: the machine integer types of the C sources,
  the collections of rewrite rules the component theories extend, and generic lemmas on
  words, lists and function updates that more than one component needs.
\<close>

unbundle bit_operations_syntax

section \<open>Machine integers\<close>

type_synonym u8 = "8 word"
type_synonym u16 = "16 word"
type_synonym u32 = "32 word"
type_synonym u64 = "64 word"

named_theorems list_op_simps \<open>unfolding rules for the intrusive list primitives\<close>
named_theorems sched_simps \<open>field equations of the scheduler operations\<close>

section \<open>Rounding down to 16\<close>

lemma and_not_15: "unat ((x :: 'a::len word) AND NOT 15) = 16 * (unat x div 16)"
proof -
  have d: "(x AND 15) + (x AND NOT 15) = x"
    by (subst disjunctive_add_eq_or) (auto intro!: bit_word_eqI simp: bit_simps)
  have m: "x AND 15 = take_bit 4 x" by (simp add: take_bit_eq_mask mask_eq_exp_minus_1)
  have u: "unat (x AND 15) = unat x mod 16" unfolding m unsigned_take_bit_eq by (simp add: take_bit_eq_mod)
  have "x AND 15 \<le> x" by (rule word_and_le2)
  then have "unat (x - (x AND 15)) = unat x - unat x mod 16" by (simp add: unat_sub u)
  moreover have "x AND NOT 15 = x - (x AND 15)" using d by (metis add_diff_cancel_left')
  ultimately show ?thesis by (simp add: minus_mod_eq_mult_div)
qed

section \<open>Loops over array indices\<close>

text \<open>
  \<open>first_index p n\<close> is the loop \<^verbatim>\<open>for (i = 0; i < n; i++) if (p(i)) return i;\<close>, with
  \<open>None\<close> for falling off the end.
\<close>

fun first_index_from :: "(nat \<Rightarrow> bool) \<Rightarrow> nat \<Rightarrow> nat \<Rightarrow> nat option" where
  "first_index_from p i 0 = None"
| "first_index_from p i (Suc k) = (if p i then Some i else first_index_from p (Suc i) k)"

definition first_index :: "(nat \<Rightarrow> bool) \<Rightarrow> nat \<Rightarrow> nat option" where
  "first_index p n = first_index_from p 0 n"

lemma first_index_from_None:
  "first_index_from p i k = None \<longleftrightarrow> (\<forall>j. i \<le> j \<and> j < i + k \<longrightarrow> \<not> p j)"
proof (induction k arbitrary: i)
  case (Suc k)
  show ?case
  proof (cases "p i")
    case False
    then have "(\<forall>j. i \<le> j \<and> j < i + Suc k \<longrightarrow> \<not> p j) \<longleftrightarrow>
        (\<forall>j. Suc i \<le> j \<and> j < Suc i + k \<longrightarrow> \<not> p j)"
      by (metis Suc_leD Suc_leI add_Suc_shift le_neq_implies_less)
    with False Suc.IH show ?thesis by simp
  qed auto
qed auto

lemma first_index_from_Some:
  "first_index_from p i k = Some j \<longleftrightarrow>
     i \<le> j \<and> j < i + k \<and> p j \<and> (\<forall>l. i \<le> l \<and> l < j \<longrightarrow> \<not> p l)"
proof (induction k arbitrary: i)
  case (Suc k)
  show ?case
  proof (cases "p i")
    case True
    then show ?thesis by (auto simp: order_le_less)
  next
    case False
    then have "first_index_from p i (Suc k) = Some j \<longleftrightarrow>
        Suc i \<le> j \<and> j < Suc i + k \<and> p j \<and> (\<forall>l. Suc i \<le> l \<and> l < j \<longrightarrow> \<not> p l)"
      using Suc.IH by simp
    with False show ?thesis
      by (metis Suc_leD Suc_leI add_Suc_shift le_neq_implies_less)
  qed
qed auto

lemma first_index_None: "first_index p n = None \<longleftrightarrow> (\<forall>j<n. \<not> p j)"
  by (simp add: first_index_def first_index_from_None)

lemma first_index_Some:
  "first_index p n = Some j \<longleftrightarrow> j < n \<and> p j \<and> (\<forall>l<j. \<not> p l)"
  by (simp add: first_index_def first_index_from_Some)

section \<open>Little-endian words in byte memory\<close>

definition store_le :: "nat \<Rightarrow> nat \<Rightarrow> 'a::len word \<Rightarrow> (nat \<Rightarrow> u8) \<Rightarrow> nat \<Rightarrow> u8" where
  "store_le n off w f =
     (\<lambda>i. if off \<le> i \<and> i < off + n then ucast (drop_bit (8 * (i - off)) w) else f i)"

definition load_le :: "nat \<Rightarrow> nat \<Rightarrow> (nat \<Rightarrow> u8) \<Rightarrow> 'a::len word" where
  "load_le n off f = fold (\<lambda>k acc. acc OR push_bit (8 * k) (ucast (f (off + k)))) [0..<n] 0"

lemma load_le_cong: "(\<And>k. k < n \<Longrightarrow> f (off + k) = g (off + k)) \<Longrightarrow> load_le n off f = load_le n off g"
  unfolding load_le_def by (intro fold_cong) auto

lemma fold_or_bit:
  fixes acc :: "'a::len word"
  shows "bit (fold (\<lambda>k acc. acc OR g k) ks acc) n \<longleftrightarrow> bit acc n \<or> (\<exists>k\<in>set ks. bit (g k) n)"
  by (induction ks arbitrary: acc) (auto simp: bit_or_iff)

lemma bit_push_byte:
  fixes x :: u8
  assumes "n < LENGTH('a::len)"
  shows "bit (push_bit (8 * k) (ucast x :: 'a word)) n \<longleftrightarrow> k = n div 8 \<and> bit x (n mod 8)"
proof (cases "8 * k \<le> n")
  case True
  then obtain r where r: "n = 8 * k + r" using le_Suc_ex by blast
  show ?thesis
  proof (cases "r < 8")
    case True
    then have "n div 8 = k" "n mod 8 = r" using r by simp_all
    with assms r show ?thesis by (simp add: bit_push_bit_iff bit_ucast_iff)
  next
    case False
    then have "n div 8 \<noteq> k" "\<not> bit x r" using r by (auto dest: bit_imp_le_length)
    with assms r show ?thesis by (simp add: bit_push_bit_iff bit_ucast_iff)
  qed
next
  case False
  then have "n div 8 \<noteq> k" by auto
  with False show ?thesis by (simp add: bit_push_bit_iff)
qed

lemma bit_load_le:
  assumes "n < LENGTH('a::len)" "n < 8 * b"
  shows "bit (load_le b off f :: 'a word) n = bit (f (off + n div 8)) (n mod 8)"
proof -
  have "n div 8 < b" using assms(2) by simp
  then show ?thesis unfolding load_le_def fold_or_bit bit_push_byte [OF assms(1)] by auto
qed

lemma load_store_le:
  assumes "LENGTH('a::len) \<le> 8 * b"
  shows "load_le b off (store_le b off (w :: 'a word) f) = w"
proof (rule bit_word_eqI)
  fix n assume n: "n < LENGTH('a)"
  then have n': "n < 8 * b" using assms by simp
  then have "store_le b off w f (off + n div 8) = ucast (drop_bit (8 * (n div 8)) w)"
    by (simp add: store_le_def less_mult_imp_div_less mult.commute)
  then show "bit (load_le b off (store_le b off w f) :: 'a word) n = bit w n"
    using n by (simp add: bit_load_le [OF n n'] bit_ucast_iff bit_drop_bit_eq)
qed

lemma load_store_le_other:
  "off + n \<le> off' \<or> off' + m \<le> off \<Longrightarrow> load_le n off (store_le m off' w f) = load_le n off f"
  by (intro load_le_cong) (auto simp: store_le_def)

definition store64 :: "nat \<Rightarrow> u64 \<Rightarrow> (nat \<Rightarrow> u8) \<Rightarrow> nat \<Rightarrow> u8" where "store64 = store_le 8"
definition load64 :: "nat \<Rightarrow> (nat \<Rightarrow> u8) \<Rightarrow> u64" where "load64 = load_le 8"
definition store32 :: "nat \<Rightarrow> u32 \<Rightarrow> (nat \<Rightarrow> u8) \<Rightarrow> nat \<Rightarrow> u8" where "store32 = store_le 4"
definition load32 :: "nat \<Rightarrow> (nat \<Rightarrow> u8) \<Rightarrow> u32" where "load32 = load_le 4"

lemma load64_store64 [simp]: "load64 off (store64 off w f) = w"
  by (simp add: load64_def store64_def load_store_le)

lemma load32_store32 [simp]: "load32 off (store32 off w f) = w"
  by (simp add: load32_def store32_def load_store_le)

lemma load64_store64_other:
  "off + 8 \<le> off' \<or> off' + 8 \<le> off \<Longrightarrow> load64 off (store64 off' w f) = load64 off f"
  by (simp add: load64_def store64_def load_store_le_other)

lemma load32_store32_other:
  "off + 4 \<le> off' \<or> off' + 4 \<le> off \<Longrightarrow> load32 off (store32 off' w f) = load32 off f"
  by (simp add: load32_def store32_def load_store_le_other)

lemma load32_cong: "(\<And>k. k < 4 \<Longrightarrow> f (off + k) = g (off + k)) \<Longrightarrow> load32 off f = load32 off g"
  unfolding load32_def by (rule load_le_cong)

lemma store32_apply: "store32 off w f i = f i" if "i < off \<or> off + 4 \<le> i"
  using that by (auto simp: store32_def store_le_def)

end
