(* ===== verification/Task_List.thy ===== *)
theory Task_List
  imports Prelude
begin

text \<open>
  The intrusive circular doubly-linked lists of \<^verbatim>\<open>kernel/exec/task.c\<close> (lines 130-164).
  Every queue of the scheduler (256 ready queues and one wait queue) is such a list, threaded
  through the \<open>ln_Succ\<close>/\<open>ln_Pred\<close> fields of the task control blocks.  The links are an
  explicit store: two functions from nodes to nodes.  \<open>ring l h xs\<close> says that head \<open>h\<close>
  is the sentinel of a well-formed list whose members are \<open>xs\<close>, in order; the lemmas show
  that each primitive implements the list operation it is named after and leaves every
  disjoint ring alone.
\<close>

section \<open>The primitives\<close>

record 'n links =
  ln_Succ :: "'n \<Rightarrow> 'n"
  ln_Pred :: "'n \<Rightarrow> 'n"

definition list_init :: "'n \<Rightarrow> 'n links \<Rightarrow> 'n links" where
  "list_init node l =
     (let l = l\<lparr>ln_Succ := (ln_Succ l)(node := node)\<rparr>
      in l\<lparr>ln_Pred := (ln_Pred l)(node := node)\<rparr>)"

definition list_empty :: "'n \<Rightarrow> 'n links \<Rightarrow> bool" where
  "list_empty node l \<longleftrightarrow> ln_Succ l node = node"

definition list_remove :: "'n \<Rightarrow> 'n links \<Rightarrow> 'n links" where
  "list_remove node l =
     (let l = l\<lparr>ln_Succ := (ln_Succ l)(ln_Pred l node := ln_Succ l node)\<rparr>;
          l = l\<lparr>ln_Pred := (ln_Pred l)(ln_Succ l node := ln_Pred l node)\<rparr>;
          l = l\<lparr>ln_Pred := (ln_Pred l)(node := node)\<rparr>
      in l\<lparr>ln_Succ := (ln_Succ l)(node := node)\<rparr>)"

definition list_append :: "'n \<Rightarrow> 'n \<Rightarrow> 'n links \<Rightarrow> 'n links" where
  "list_append head node l =
     (let l = l\<lparr>ln_Pred := (ln_Pred l)(node := ln_Pred l head)\<rparr>;
          l = l\<lparr>ln_Succ := (ln_Succ l)(node := head)\<rparr>;
          l = l\<lparr>ln_Succ := (ln_Succ l)(ln_Pred l head := node)\<rparr>
      in l\<lparr>ln_Pred := (ln_Pred l)(head := node)\<rparr>)"

definition list_remove_head :: "'n \<Rightarrow> 'n links \<Rightarrow> 'n option \<times> 'n links" where
  "list_remove_head head l =
     (let out = ln_Succ l head
      in if out \<noteq> head then (Some out, list_remove out l) else (None, l))"

lemmas list_op_defs [list_op_simps] =
  list_init_def list_empty_def list_remove_def list_append_def list_remove_head_def Let_def

section \<open>Well-formed rings\<close>

fun path :: "'n links \<Rightarrow> 'n \<Rightarrow> 'n list \<Rightarrow> 'n \<Rightarrow> bool" where
  "path l a [] b \<longleftrightarrow> ln_Succ l a = b \<and> ln_Pred l b = a"
| "path l a (x # xs) b \<longleftrightarrow> ln_Succ l a = x \<and> ln_Pred l x = a \<and> path l x xs b"

definition ring :: "'n links \<Rightarrow> 'n \<Rightarrow> 'n list \<Rightarrow> bool" where
  "ring l h xs \<longleftrightarrow> distinct (h # xs) \<and> path l h xs h"

lemma path_mid: "path l a (xs @ x # ys) b \<longleftrightarrow> path l a xs x \<and> path l x ys b"
  by (induction xs arbitrary: a) auto

lemma path_cong:
  assumes "\<And>n. n \<in> insert a (set xs) \<Longrightarrow> ln_Succ l' n = ln_Succ l n"
    and "\<And>n. n \<in> insert b (set xs) \<Longrightarrow> ln_Pred l' n = ln_Pred l n"
  shows "path l' a xs b = path l a xs b"
  using assms by (induction xs arbitrary: a) auto

lemma ring_distinct: "ring l h xs \<Longrightarrow> distinct (h # xs)"
  by (simp add: ring_def)

lemma ring_cong:
  assumes "\<And>n. n \<in> insert h (set xs) \<Longrightarrow> ln_Succ l' n = ln_Succ l n"
    and "\<And>n. n \<in> insert h (set xs) \<Longrightarrow> ln_Pred l' n = ln_Pred l n"
  shows "ring l' h xs = ring l h xs"
  unfolding ring_def using path_cong [where a = h and b = h, OF assms] by simp

lemma path_pred_last: "path l a xs b \<Longrightarrow> ln_Pred l b = last (a # xs)"
  by (induction xs arbitrary: a) auto

lemma path_succ_hd: "path l a xs b \<Longrightarrow> ln_Succ l a = hd (xs @ [b])"
  by (cases xs) auto

lemma ring_pred_head: "ring l h xs \<Longrightarrow> ln_Pred l h = last (h # xs)"
  unfolding ring_def by (blast intro: path_pred_last)

lemma ring_succ_head: "ring l h xs \<Longrightarrow> ln_Succ l h = hd (xs @ [h])"
  unfolding ring_def by (blast intro: path_succ_hd)

lemma ring_empty_iff: "ring l h xs \<Longrightarrow> list_empty h l \<longleftrightarrow> xs = []"
  by (cases xs) (auto simp: ring_succ_head list_empty_def dest: ring_distinct)

text \<open>A ring determines its members.\<close>

lemma path_unique:
  assumes "path l a xs h" and "path l a ys h" and "h \<notin> set xs" and "h \<notin> set ys"
  shows "xs = ys"
  using assms
proof (induction xs arbitrary: a ys)
  case Nil
  then show ?case by (cases ys) auto
next
  case (Cons x xs)
  then show ?case by (cases ys) auto
qed

lemma ring_unique: "ring l h xs \<Longrightarrow> ring l h ys \<Longrightarrow> xs = ys"
  unfolding ring_def by (auto intro: path_unique)

lemma path_members_linked:
  assumes "path l h xs b" and "x \<in> set xs" and "distinct (h # xs)"
  shows "ln_Pred l x \<noteq> x \<and> ln_Pred l x \<in> insert h (set xs)"
  using assms
proof (induction xs arbitrary: h)
  case (Cons y ys)
  then show ?case by (cases "x = y") (auto 4 3)
qed simp

section \<open>Each primitive implements its list operation\<close>

lemma list_init_ring: "ring (list_init h l) h []"
  by (simp add: ring_def list_op_simps)

lemma list_append_ring:
  assumes r: "ring l h xs" and n: "n \<notin> insert h (set xs)"
  shows "ring (list_append h n l) h (xs @ [n])"
proof (cases xs rule: rev_cases)
  case Nil
  with r n show ?thesis by (auto simp: ring_def list_op_simps)
next
  case (snoc ys y)
  let ?l' = "list_append h n l"
  have d: "distinct (h # ys @ [y])" and p: "path l h ys y" and y: "ln_Pred l h = y"
    using r snoc by (auto simp: ring_def path_mid)
  have "path ?l' h ys y = path l h ys y"
    using d n snoc y by (intro path_cong) (auto simp: list_op_simps)
  moreover have "path ?l' y [n] h"
    using d n snoc y by (auto simp: list_op_simps)
  ultimately show ?thesis
    using d n p snoc by (auto simp: ring_def path_mid)
qed

lemma list_append_frame:
  assumes "ring l h xs" and "m \<notin> insert n (insert h (set xs))"
  shows "ln_Succ (list_append h n l) m = ln_Succ l m"
    and "ln_Pred (list_append h n l) m = ln_Pred l m"
proof -
  have "ln_Pred l h \<in> insert h (set xs)"
    using ring_pred_head [OF assms(1)] by (metis last_in_set list.discI list.simps(15))
  with assms(2) show "ln_Succ (list_append h n l) m = ln_Succ l m"
    and "ln_Pred (list_append h n l) m = ln_Pred l m"
    by (auto simp: list_op_simps)
qed

lemma list_remove_neighbours:
  assumes "ring l h (xs @ n # ys)"
  shows "ln_Pred l n = last (h # xs)" and "ln_Succ l n = hd (ys @ [h])"
  using assms by (auto simp: ring_def path_mid dest: path_pred_last path_succ_hd)

lemma list_remove_ring:
  assumes r: "ring l h (xs @ n # ys)"
  shows "ring (list_remove n l) h (xs @ ys)"
proof -
  let ?l' = "list_remove n l"
  have d: "distinct (h # xs @ n # ys)" and p: "path l h xs n" and q: "path l n ys h"
    using r by (auto simp: ring_def path_mid)
  note nb = list_remove_neighbours [OF r]
  have "path ?l' h (xs @ ys) h"
  proof (cases xs rule: rev_cases)
    case Nil
    show ?thesis
    proof (cases ys)
      case Nil
      with \<open>xs = []\<close> nb show ?thesis by (auto simp: list_op_simps)
    next
      case (Cons b zs)
      have "path ?l' b zs h = path l b zs h"
        using d nb Cons Nil by (intro path_cong) (auto simp: list_op_simps)
      with q d nb Cons Nil show ?thesis by (auto simp: list_op_simps)
    qed
  next
    case (snoc us a)
    have pa: "path ?l' h us a = path l h us a"
      using d nb snoc by (intro path_cong) (auto simp: list_op_simps hd_append split: if_splits)
    show ?thesis
    proof (cases ys)
      case Nil
      have "path ?l' a [] h" using d nb snoc Nil by (auto simp: list_op_simps)
      with pa p snoc Nil show ?thesis by (auto simp: path_mid)
    next
      case (Cons b zs)
      have "path ?l' b zs h = path l b zs h"
        using d nb Cons snoc by (intro path_cong) (auto simp: list_op_simps)
      moreover have "ln_Succ ?l' a = b" and "ln_Pred ?l' b = a"
        using d nb Cons snoc by (auto simp: list_op_simps)
      ultimately show ?thesis using pa p q snoc Cons by (auto simp: path_mid)
    qed
  qed
  with d show ?thesis by (auto simp: ring_def)
qed

lemma list_remove_self [simp]:
  "ln_Succ (list_remove n l) n = n" "ln_Pred (list_remove n l) n = n"
  by (simp_all add: list_op_simps)

lemma list_remove_frame:
  assumes "ring l h (xs @ n # ys)" and "m \<notin> insert h (set (xs @ n # ys))"
  shows "ln_Succ (list_remove n l) m = ln_Succ l m"
    and "ln_Pred (list_remove n l) m = ln_Pred l m"
proof -
  have "ln_Pred l n \<in> insert h (set xs)" and "ln_Succ l n \<in> insert h (set ys)"
    using list_remove_neighbours [OF assms(1)] last_in_set [of "h # xs"] hd_in_set [of "ys @ [h]"]
    by auto
  with assms(2) have "m \<noteq> ln_Pred l n" and "m \<noteq> ln_Succ l n" and "m \<noteq> n"
    by auto
  then show "ln_Succ (list_remove n l) m = ln_Succ l m"
    and "ln_Pred (list_remove n l) m = ln_Pred l m"
    by (simp_all add: list_op_simps)
qed

lemma list_remove_unlinked: "ln_Succ l n = n \<Longrightarrow> ln_Pred l n = n \<Longrightarrow> list_remove n l = l"
  by (cases l) (simp add: list_op_simps fun_upd_idem)

lemma list_remove_head_Nil: "ring l h [] \<Longrightarrow> list_remove_head h l = (None, l)"
  using ring_succ_head [of l h "[]"] by (simp add: list_remove_head_def)

lemma list_remove_head_Cons:
  "ring l h (x # xs) \<Longrightarrow> list_remove_head h l = (Some x, list_remove x l)"
  using ring_succ_head [of l h "x # xs"] by (auto simp: list_remove_head_def dest: ring_distinct)

text \<open>Disjoint rings are not disturbed.\<close>

lemma list_append_other_ring:
  assumes "ring l h xs" and "ring l h' ys"
    and "insert h' (set ys) \<inter> insert n (insert h (set xs)) = {}"
  shows "ring (list_append h n l) h' ys"
proof -
  have "ring (list_append h n l) h' ys = ring l h' ys"
  proof (rule ring_cong)
    fix m assume "m \<in> insert h' (set ys)"
    with assms(3) have m: "m \<notin> insert n (insert h (set xs))" by blast
    show "ln_Succ (list_append h n l) m = ln_Succ l m"
      by (rule list_append_frame(1) [OF assms(1) m])
    show "ln_Pred (list_append h n l) m = ln_Pred l m"
      by (rule list_append_frame(2) [OF assms(1) m])
  qed
  with assms(2) show ?thesis by simp
qed

lemma list_remove_other_ring:
  assumes "ring l h (xs @ n # zs)" and "ring l h' ys"
    and "insert h' (set ys) \<inter> insert h (set (xs @ n # zs)) = {}"
  shows "ring (list_remove n l) h' ys"
proof -
  have "ring (list_remove n l) h' ys = ring l h' ys"
  proof (rule ring_cong)
    fix m assume "m \<in> insert h' (set ys)"
    with assms(3) have m: "m \<notin> insert h (set (xs @ n # zs))" by blast
    show "ln_Succ (list_remove n l) m = ln_Succ l m"
      by (rule list_remove_frame(1) [OF assms(1) m])
    show "ln_Pred (list_remove n l) m = ln_Pred l m"
      by (rule list_remove_frame(2) [OF assms(1) m])
  qed
  with assms(2) show ?thesis by simp
qed

text \<open>Initialising or relinking a node outside a ring.\<close>

lemma list_init_other_ring:
  assumes "ring l h xs" and "n \<notin> insert h (set xs)"
  shows "ring (list_init n l) h xs"
proof -
  have "ring (list_init n l) h xs = ring l h xs"
    using assms(2) by (intro ring_cong) (auto simp: list_op_simps)
  with assms(1) show ?thesis by simp
qed

lemma ring_member_linked: "ring l h xs \<Longrightarrow> n \<in> set xs \<Longrightarrow> ln_Pred l n \<noteq> n"
  unfolding ring_def using path_members_linked by metis

lemma ring_member_succ: "ring l h xs \<Longrightarrow> n \<in> set xs \<Longrightarrow> ln_Succ l n \<in> insert h (set xs) - {n}"
proof -
  assume r: "ring l h xs" and "n \<in> set xs"
  then obtain ys zs where xs: "xs = ys @ n # zs" by (meson split_list)
  from r have "distinct (h # ys @ n # zs)" by (auto simp: xs ring_def)
  moreover have "ln_Succ l n = hd (zs @ [h])"
    using list_remove_neighbours(2) r unfolding xs by metis
  ultimately show ?thesis by (cases zs) (auto simp: xs)
qed

end
