(* ===== verification/Task_Defs.thy ===== *)
theory Task_Defs
  imports Task_List
begin

text \<open>
  The scheduler state and operations of \<^verbatim>\<open>kernel/exec/task.c\<close>, with \<open>SetTaskPri\<close> of
  \<^verbatim>\<open>exec_task.c\<close>, \<open>stub_RemTask\<close> of \<^verbatim>\<open>thunk_handler.c\<close> and the two interrupt epilogues of
  \<^verbatim>\<open>kernel/irq/idt_stubs.asm\<close>.  A \<open>UaosTask *\<close> is the index of its slot in \<open>g_tasks\<close>
  (\<open>None\<close> for NULL).  A call is one state change, which is what the code guarantees for the
  operations it brackets with \<open>irq_save\<close>/\<open>irq_restore\<close>; theory Task_System lists the calls
  where it is an assumption.  The return path of a system call runs with interrupts enabled and
  is one step per instruction (\<open>syscall_epilogue\<close>).  Log output
  (\<open>kprint\<close>, \<open>Etrace_Emit\<close>) is left out.  The Musashi CPU core is not part of the
  repository: its context is a type parameter and \<open>m68k_end_timeslice\<close> an argument.
\<close>

section \<open>State\<close>

datatype task_state = TASK_WAITING | TASK_READY | TASK_RUNNING | TASK_REMOVED

datatype task_type = TASK_TYPE_NATIVE | TASK_TYPE_M68K | TASK_TYPE_X64

text \<open>List nodes: NULL, the TCBs and the sentinels of the queues.\<close>

datatype node = Null | Task nat | ReadyHead nat | WaitHead

record 'c tcb =
  ln_Type :: u8
  ln_Pri :: u8
  ln_Name :: "string option"
  tc_State :: task_state
  tc_IDNestCnt :: u8
  tc_TDNestCnt :: u8
  tc_SigAlloc :: u32
  tc_SigWait :: u32
  tc_SigRecvd :: u32
  tc_SPUpper :: u64
  tc_SPLower :: u64
  ttype :: task_type
  native_rsp :: u64
  native_rip :: u64
  native_stack_base :: u64
  native_stack_size :: u32
  native_entry :: u64
  native_arg :: u64
  native_initial_rsp :: u64
  m68k_task_struct :: u32
  m68k_context_buf :: "'c option"
  m68k_ram :: u64
  m68k_initial_cycles :: u32
  m68k_remaining_cycles :: u32
  m68k_vblank_sig :: u8
  parent :: "nat option"
  bg_job :: u32
  tc_wake_tick :: u64
  task_cwd :: string
  native_print_fn :: u64
  native_print_ctx :: u64
  cpu_ticks :: u64
  ctx_switches :: u32
  switch_while_crit :: u32
  stack_overflowed :: bool

record 'c m68k =
  m68k_ctx :: 'c
  m68ki_initial_cycles :: u32
  m68ki_remaining_cycles :: u32

text \<open>The position in the return path of \<open>uaos_syscall_isr\<close> (\<^verbatim>\<open>kernel/irq/idt_stubs.asm\<close>), by the next
  store: \<open>SC_Entry\<close> outside it, \<open>SC_Load\<close> with the incoming task in \<open>rax\<close>.\<close>

datatype syscall_pos = SC_Entry | SC_Load nat | SC_Pending | SC_Next

record 'c sched =
  lk :: "node links"
  g_tasks :: "nat \<Rightarrow> 'c tcb"
  g_task_count :: nat
  g_task_bg_job :: u32
  g_current :: "nat option"
  Task_SwitchNext :: "nat option"
  Task_SwitchPrev :: "nat option"
  g_ctx_switches :: u64
  g_acct_last_tick :: u64
  g_need_resched :: bool
  g_sched_switch_pending :: bool
  g_eventpump_task :: "nat option"
  g_ready_map :: "nat \<Rightarrow> u64"
  g_wait_count :: int
  g_strand_votes :: "nat \<Rightarrow> u8"
  g_wait_tof_task :: "nat option"
  g_pit_ticks :: u64
  g_irq_depth :: int
  g_ram :: u64
  g_shared_ram :: u64
  musashi :: "'c m68k"
  task_stacks :: "nat \<Rightarrow> nat \<Rightarrow> u8"
  cpu_rsp :: u64
  cpu_if :: bool
  cpu_sc :: syscall_pos

definition MAX_TASKS :: nat where "MAX_TASKS = 64"
definition TASK_STACK_SIZE :: nat where "TASK_STACK_SIZE = 32768"

definition upd :: "nat \<Rightarrow> ('c tcb \<Rightarrow> 'c tcb) \<Rightarrow> 'c sched \<Rightarrow> 'c sched" where
  "upd i f s = s\<lparr>g_tasks := (g_tasks s)(i := f (g_tasks s i))\<rparr>"

definition set_state :: "nat \<Rightarrow> task_state \<Rightarrow> 'c sched \<Rightarrow> 'c sched" where
  "set_state i st = upd i (\<lambda>t. t\<lparr>tc_State := st\<rparr>)"

section \<open>Ready queues\<close>

definition pri_to_idx :: "u8 \<Rightarrow> nat" where
  "pri_to_idx pri = nat (sint pri + 128)"

abbreviation task_idx :: "'c sched \<Rightarrow> nat \<Rightarrow> nat" where
  "task_idx s t \<equiv> pri_to_idx (ln_Pri (g_tasks s t))"

definition ready_enqueue :: "nat \<Rightarrow> 'c sched \<Rightarrow> 'c sched" where
  "ready_enqueue task s =
     (let idx = task_idx s task;
          s = s\<lparr>lk := list_append (ReadyHead idx) (Task task) (lk s)\<rparr>;
          s = s\<lparr>g_ready_map := (g_ready_map s)
                (idx div 64 := g_ready_map s (idx div 64) OR push_bit (idx mod 64) 1)\<rparr>
      in set_state task TASK_READY s)"

text \<open>The clear-then-recheck update of the occupancy bitmap.\<close>

definition refresh_ready_bit :: "nat \<Rightarrow> 'c sched \<Rightarrow> 'c sched" where
  "refresh_ready_bit idx s =
     (let b = push_bit (idx mod 64) 1;
          s = s\<lparr>g_ready_map := (g_ready_map s)
                (idx div 64 := g_ready_map s (idx div 64) AND NOT b)\<rparr>
      in if \<not> list_empty (ReadyHead idx) (lk s)
         then s\<lparr>g_ready_map := (g_ready_map s)
                (idx div 64 := g_ready_map s (idx div 64) OR b)\<rparr>
         else s)"

definition ready_remove :: "nat \<Rightarrow> 'c sched \<Rightarrow> 'c sched" where
  "ready_remove task s =
     (let idx = task_idx s task
      in refresh_ready_bit idx (s\<lparr>lk := list_remove (Task task) (lk s)\<rparr>))"

text \<open>\<open>__builtin_clzll\<close>: leading zeros of a 64-bit value (undefined for 0, which the
  callers exclude).\<close>

definition clzll :: "u64 \<Rightarrow> nat" where
  "clzll w = length (takeWhile (\<lambda>i. \<not> bit w i) (rev [0..<64]))"

definition task_of :: "node \<Rightarrow> nat" where
  "task_of n = (case n of Task i \<Rightarrow> i | _ \<Rightarrow> 0)"

text \<open>\<open>ready_dequeue_from w\<close> is the body of the \<open>for\<close> loop from bitmap word \<open>w\<close> down;
  \<open>None\<close> would mean that the inner \<open>while\<close> never ends.\<close>

partial_function (option) ready_dequeue_from ::
    "nat \<Rightarrow> 'c sched \<Rightarrow> (nat option \<times> 'c sched) option" where
  "ready_dequeue_from w s =
     (if g_ready_map s w = 0
      then (if w = 0 then Some (None, s) else ready_dequeue_from (w - 1) s)
      else let idx = 64 * w + (63 - clzll (g_ready_map s w));
               (t, l) = list_remove_head (ReadyHead idx) (lk s);
               s = refresh_ready_bit idx (s\<lparr>lk := l\<rparr>)
           in case t of
                None \<Rightarrow> ready_dequeue_from w s
              | Some n \<Rightarrow>
                  if tc_State (g_tasks s (task_of n)) \<noteq> TASK_REMOVED
                  then Some (Some (task_of n), s)
                  else ready_dequeue_from w s)"

definition ready_dequeue_highest :: "'c sched \<Rightarrow> (nat option \<times> 'c sched) option" where
  "ready_dequeue_highest s = ready_dequeue_from 3 s"

section \<open>Wait queue\<close>

definition wait_enqueue :: "nat \<Rightarrow> 'c sched \<Rightarrow> 'c sched" where
  "wait_enqueue task s =
     (let s = s\<lparr>lk := list_append WaitHead (Task task) (lk s)\<rparr>;
          s = s\<lparr>g_wait_count := g_wait_count s + 1\<rparr>
      in set_state task TASK_WAITING s)"

definition wait_remove :: "nat \<Rightarrow> 'c sched \<Rightarrow> 'c sched" where
  "wait_remove task s =
     (let s = s\<lparr>lk := list_remove (Task task) (lk s)\<rparr>
      in if g_wait_count s > 0 then s\<lparr>g_wait_count := g_wait_count s - 1\<rparr> else s)"

section \<open>Signals\<close>

definition SIGF_CHILD :: u32 where "SIGF_CHILD = 2"
definition SIGF_EVENTPUMP :: u32 where "SIGF_EVENTPUMP = 512"

definition Signal :: "nat option \<Rightarrow> u32 \<Rightarrow> 'c sched \<Rightarrow> 'c sched" where
  "Signal task sigmask s =
     (case task of
        None \<Rightarrow> s
      | Some t \<Rightarrow>
          if sigmask = 0 then s
          else let s = upd t (\<lambda>x. x\<lparr>tc_SigRecvd := tc_SigRecvd x OR sigmask\<rparr>) s
               in if tc_State (g_tasks s t) = TASK_WAITING \<and>
                     tc_SigRecvd (g_tasks s t) AND tc_SigWait (g_tasks s t) \<noteq> 0
                  then ready_enqueue t (wait_remove t s)
                  else s)"

definition Task_ClearSig :: "u32 \<Rightarrow> 'c sched \<Rightarrow> 'c sched" where
  "Task_ClearSig sigmask s =
     (case g_current s of
        None \<Rightarrow> s
      | Some c \<Rightarrow> upd c (\<lambda>x. x\<lparr>tc_SigRecvd := tc_SigRecvd x AND NOT sigmask\<rparr>) s)"

definition SetSignal :: "u32 \<Rightarrow> u32 \<Rightarrow> nat \<Rightarrow> 'c sched \<Rightarrow> u32 \<times> 'c sched" where
  "SetSignal newsignals sigmask c s =
     (let old = tc_SigRecvd (g_tasks s c)
      in (old, upd c (\<lambda>x. x\<lparr>tc_SigRecvd := (old AND NOT sigmask) OR (newsignals AND sigmask)\<rparr>) s))"

section \<open>Stacks\<close>

definition STACK_FILL_BYTE :: u8 where "STACK_FILL_BYTE = 0xA5"
definition STACK_CANARY :: u64 where "STACK_CANARY = 0xC0FFEE00C0FFEE01"

definition stack_instrument :: "(nat \<Rightarrow> u8) \<Rightarrow> nat \<Rightarrow> u8" where
  "stack_instrument stack =
     store64 0 STACK_CANARY (\<lambda>i. if i < TASK_STACK_SIZE then STACK_FILL_BYTE else stack i)"

definition stack_canary_check :: "nat \<Rightarrow> 'c sched \<Rightarrow> 'c sched" where
  "stack_canary_check t s =
     (if native_stack_base (g_tasks s t) = 0 \<or> stack_overflowed (g_tasks s t) then s
      else if load64 0 (task_stacks s t) \<noteq> STACK_CANARY
           then upd t (\<lambda>x. x\<lparr>stack_overflowed := True\<rparr>) s
           else s)"

text \<open>The scan starts above the 8 canary bytes.\<close>

definition Task_StackPeakUsed :: "nat \<Rightarrow> 'c sched \<Rightarrow> nat" where
  "Task_StackPeakUsed t s =
     (if native_stack_base (g_tasks s t) = 0 then 0
      else let size = unat (native_stack_size (g_tasks s t))
           in case first_index_from (\<lambda>i. task_stacks s t i \<noteq> STACK_FILL_BYTE) 8 (size - 8) of
                None \<Rightarrow> 0
              | Some i \<Rightarrow> size - i)"

section \<open>Dispatch\<close>

definition nested :: "'c tcb \<Rightarrow> bool" where
  "nested t \<longleftrightarrow> sint (tc_TDNestCnt t) > 0 \<or> sint (tc_IDNestCnt t) > 0"

text \<open>The parts of a committed switch from \<open>prev\<close> to \<open>next\<close>: save an outgoing M68k guest, load
  an incoming one (or rebind \<open>g_ram\<close>), and the accounting.\<close>

definition save_guest :: "('c m68k \<Rightarrow> 'c m68k) \<Rightarrow> nat \<Rightarrow> 'c sched \<Rightarrow> 'c sched" where
  "save_guest end_ts prev s =
     (if ttype (g_tasks s prev) = TASK_TYPE_M68K
      then let s = s\<lparr>musashi := end_ts (musashi s)\<rparr>
           in if m68k_context_buf (g_tasks s prev) \<noteq> None
              then upd prev (\<lambda>x. x\<lparr>m68k_context_buf := Some (m68k_ctx (musashi s)),
                     m68k_initial_cycles := m68ki_initial_cycles (musashi s),
                     m68k_remaining_cycles := m68ki_remaining_cycles (musashi s)\<rparr>) s
              else s
      else s)"

definition load_guest :: "nat \<Rightarrow> 'c sched \<Rightarrow> 'c sched" where
  "load_guest nxt s =
     (if ttype (g_tasks s nxt) = TASK_TYPE_M68K
      then let s = (case m68k_context_buf (g_tasks s nxt) of
                      None \<Rightarrow> s
                    | Some ctx \<Rightarrow> s\<lparr>musashi := \<lparr>m68k_ctx = ctx,
                         m68ki_initial_cycles = m68k_initial_cycles (g_tasks s nxt),
                         m68ki_remaining_cycles = m68k_remaining_cycles (g_tasks s nxt)\<rparr>\<rparr>)
           in s\<lparr>g_ram := m68k_ram (g_tasks s nxt)\<rparr>
      else s\<lparr>g_ram := g_shared_ram s\<rparr>)"

definition account_switch :: "nat \<Rightarrow> nat \<Rightarrow> 'c sched \<Rightarrow> 'c sched" where
  "account_switch prev nxt s =
     (let s = s\<lparr>g_ctx_switches := g_ctx_switches s + 1\<rparr>;
          s = upd nxt (\<lambda>x. x\<lparr>ctx_switches := ctx_switches x + 1\<rparr>) s;
          s = (if nested (g_tasks s prev)
               then upd prev (\<lambda>x. x\<lparr>switch_while_crit := switch_while_crit x + 1\<rparr>) s else s)
      in stack_canary_check prev s)"

definition switch_to ::
    "('c m68k \<Rightarrow> 'c m68k) \<Rightarrow> bool \<Rightarrow> nat \<Rightarrow> nat \<Rightarrow> 'c sched \<Rightarrow> 'c sched" where
  "switch_to end_ts from_irq prev nxt s =
     (let s = save_guest end_ts prev s;
          s = (if from_irq then s else s\<lparr>g_sched_switch_pending := True\<rparr>);
          s = s\<lparr>g_current := Some nxt\<rparr>;
          s = set_state nxt TASK_RUNNING s;
          s = load_guest nxt s;
          s = account_switch prev nxt s
      in s\<lparr>Task_SwitchPrev := Some prev, Task_SwitchNext := Some nxt\<rparr>)"

definition do_schedule :: "('c m68k \<Rightarrow> 'c m68k) \<Rightarrow> bool \<Rightarrow> 'c sched \<Rightarrow> 'c sched option" where
  "do_schedule end_ts from_irq s =
     (case g_current s of
        None \<Rightarrow> Some s
      | Some prev \<Rightarrow>
          let now = g_pit_ticks s;
              elapsed = now - g_acct_last_tick s;
              s = upd prev (\<lambda>x. x\<lparr>cpu_ticks := cpu_ticks x + elapsed\<rparr>) s;
              s = s\<lparr>g_acct_last_tick := now\<rparr>
          in if g_sched_switch_pending s then Some (s\<lparr>g_need_resched := True\<rparr>)
             else if Task_SwitchNext s \<noteq> None then Some s
             else if from_irq \<and> nested (g_tasks s prev) then Some (s\<lparr>g_need_resched := True\<rparr>)
             else let s = s\<lparr>g_need_resched := False\<rparr>;
                      s = (if tc_State (g_tasks s prev) = TASK_RUNNING
                           then ready_enqueue prev (set_state prev TASK_READY s) else s)
                  in case ready_dequeue_highest s of
                       None \<Rightarrow> None
                     | Some (None, s) \<Rightarrow> Some s
                     | Some (Some nxt, s) \<Rightarrow>
                         if nxt = prev
                         then Some (set_state prev TASK_RUNNING (s\<lparr>g_current := Some prev\<rparr>))
                         else Some (switch_to end_ts from_irq prev nxt s))"

text \<open>\<open>int $0x80\<close> with \<open>SYSCALL_SCHEDULE\<close>: the dispatcher reports whether a switch is armed.\<close>

definition task_switch_away ::
    "('c m68k \<Rightarrow> 'c m68k) \<Rightarrow> 'c sched \<Rightarrow> (bool \<times> 'c sched) option" where
  "task_switch_away end_ts s =
     map_option (\<lambda>s. (Task_SwitchNext s \<noteq> None, s)) (do_schedule end_ts False s)"

definition Task_Yield ::
    "('c m68k \<Rightarrow> 'c m68k) \<Rightarrow> 'c sched \<Rightarrow> (bool \<times> 'c sched) option" where
  "Task_Yield end_ts s =
     (case g_current s of
        None \<Rightarrow> Some (False, s)
      | Some c \<Rightarrow>
          if g_irq_depth s > 0 then Some (False, s)
          else if nested (g_tasks s c) then Some (False, s)
          else task_switch_away end_ts s)"

text \<open>The epilogues of \<open>isr_common\<close> and \<open>uaos_syscall_isr\<close>: file the physical stack pointer in the
  outgoing task and load the incoming one's.  An interrupt gate masks interrupts, so the first is one step
  and ends outside both epilogues.  The second runs behind a trap gate, with interrupts as the task had
  them: \<open>syscall_epilogue\<close> is one step of it at a time, from the position \<open>cpu_sc\<close>.  Reading
  \<open>Task_SwitchNext\<close> and filing the pointer is one step because nothing else writes what it reads while
  \<open>g_sched_switch_pending\<close> is set; the two last stores are one step because \<open>Task_SwitchPrev\<close> is only read
  when \<open>Task_SwitchNext\<close> is set.\<close>

definition commit_switch :: "nat \<Rightarrow> nat \<Rightarrow> 'c sched \<Rightarrow> 'c sched" where
  "commit_switch prev nxt s =
     (let s = upd prev (\<lambda>x. x\<lparr>native_rsp := cpu_rsp s\<rparr>) s
      in s\<lparr>cpu_rsp := native_rsp (g_tasks s nxt), Task_SwitchNext := None, Task_SwitchPrev := None\<rparr>)"

definition isr_commits :: "'c sched \<Rightarrow> bool" where
  "isr_commits s \<longleftrightarrow> \<not> g_sched_switch_pending s \<and> g_irq_depth s = 0 \<and> Task_SwitchNext s \<noteq> None"

definition isr_epilogue :: "'c sched \<Rightarrow> 'c sched" where
  "isr_epilogue s =
     (if g_sched_switch_pending s \<or> g_irq_depth s \<noteq> 0 then s
      else case (Task_SwitchNext s, Task_SwitchPrev s) of
             (Some nxt, Some prev) \<Rightarrow> (commit_switch prev nxt s)\<lparr>cpu_sc := SC_Entry\<rparr>
           | _ \<Rightarrow> s)"

fun syscall_epilogue :: "syscall_pos \<Rightarrow> 'c sched \<Rightarrow> 'c sched" where
  "syscall_epilogue SC_Entry s =
     (case (Task_SwitchNext s, Task_SwitchPrev s) of
        (Some nxt, Some prev) \<Rightarrow> (upd prev (\<lambda>x. x\<lparr>native_rsp := cpu_rsp s\<rparr>) s)\<lparr>cpu_sc := SC_Load nxt\<rparr>
      | _ \<Rightarrow> s)"
| "syscall_epilogue (SC_Load nxt) s = s\<lparr>cpu_rsp := native_rsp (g_tasks s nxt), cpu_sc := SC_Pending\<rparr>"
| "syscall_epilogue SC_Pending s = s\<lparr>g_sched_switch_pending := False, cpu_sc := SC_Next\<rparr>"
| "syscall_epilogue SC_Next s = s\<lparr>Task_SwitchNext := None, Task_SwitchPrev := None, cpu_sc := SC_Entry\<rparr>"

text \<open>\<open>Task_RunNew\<close> of \<^verbatim>\<open>task_switch.asm\<close>: enter a task on a fresh, 16-byte aligned stack (the
  \<open>call\<close> pushes a return address).\<close>

definition Task_RunNew :: "nat \<Rightarrow> 'c sched \<Rightarrow> 'c sched" where
  "Task_RunNew t s =
     (let rsp = native_stack_base (g_tasks s t) + ucast (native_stack_size (g_tasks s t));
          rsp = rsp AND - 16
      in s\<lparr>cpu_if := True, cpu_rsp := rsp - 8\<rparr>)"

definition Task_StartFirst :: "'c sched \<Rightarrow> 'c sched option" where
  "Task_StartFirst s =
     (case ready_dequeue_highest s of
        None \<Rightarrow> None
      | Some (None, s) \<Rightarrow> Some s
      | Some (Some first, s) \<Rightarrow>
          Some (Task_RunNew first (set_state first TASK_RUNNING (s\<lparr>g_current := Some first\<rparr>))))"

definition EventPump_Wake :: "('c m68k \<Rightarrow> 'c m68k) \<Rightarrow> 'c sched \<Rightarrow> 'c sched option" where
  "EventPump_Wake end_ts s =
     (let s = (case g_eventpump_task s of
                 None \<Rightarrow> s
               | Some t \<Rightarrow> if tc_State (g_tasks s t) \<noteq> TASK_REMOVED
                          then Signal (Some t) SIGF_EVENTPUMP s else s)
      in if g_irq_depth s > 0 then do_schedule end_ts True s else Some s)"

section \<open>Critical sections\<close>

definition Forbid :: "'c sched \<Rightarrow> 'c sched" where
  "Forbid s =
     (case g_current s of
        None \<Rightarrow> s
      | Some c \<Rightarrow> upd c (\<lambda>x. x\<lparr>tc_TDNestCnt := tc_TDNestCnt x + 1\<rparr>) s)"

definition Task_CheckResched :: "('c m68k \<Rightarrow> 'c m68k) \<Rightarrow> 'c sched \<Rightarrow> 'c sched option" where
  "Task_CheckResched end_ts s =
     (case g_current s of
        None \<Rightarrow> Some s
      | Some c \<Rightarrow>
          if \<not> g_need_resched s then Some s
          else if nested (g_tasks s c) then Some s
          else if g_irq_depth s > 0 then Some s
          else if \<not> cpu_if s then Some s
          else do_schedule end_ts False (s\<lparr>g_need_resched := False\<rparr>))"

definition Permit :: "('c m68k \<Rightarrow> 'c m68k) \<Rightarrow> 'c sched \<Rightarrow> 'c sched option" where
  "Permit end_ts s =
     (case g_current s of
        None \<Rightarrow> Some s
      | Some c \<Rightarrow>
          let s = upd c (\<lambda>x. x\<lparr>tc_TDNestCnt := tc_TDNestCnt x - 1\<rparr>) s
          in if sint (tc_TDNestCnt (g_tasks s c)) \<le> 0
             then Task_CheckResched end_ts (upd c (\<lambda>x. x\<lparr>tc_TDNestCnt := 0\<rparr>) s)
             else Some s)"

text \<open>The hold-time audit of \<open>Disable\<close>/\<open>Enable\<close> (time-stamp counter diagnostics) is left out.\<close>

definition Disable :: "'c sched \<Rightarrow> 'c sched" where
  "Disable s =
     (let s = s\<lparr>cpu_if := False\<rparr>
      in case g_current s of
           None \<Rightarrow> s
         | Some c \<Rightarrow> upd c (\<lambda>x. x\<lparr>tc_IDNestCnt := tc_IDNestCnt x + 1\<rparr>) s)"

definition Enable :: "('c m68k \<Rightarrow> 'c m68k) \<Rightarrow> 'c sched \<Rightarrow> 'c sched option" where
  "Enable end_ts s =
     (case g_current s of
        None \<Rightarrow> Some (s\<lparr>cpu_if := True\<rparr>)
      | Some c \<Rightarrow>
          let s = upd c (\<lambda>x. x\<lparr>tc_IDNestCnt := tc_IDNestCnt x - 1\<rparr>) s
          in if sint (tc_IDNestCnt (g_tasks s c)) \<le> 0
             then Task_CheckResched end_ts
                    ((upd c (\<lambda>x. x\<lparr>tc_IDNestCnt := 0\<rparr>) s)\<lparr>cpu_if := True\<rparr>)
             else Some s)"

section \<open>Task creation\<close>

text \<open>Addresses fixed by the linker: the stack area, the TCB array and two code labels.\<close>

record kernel_map =
  stacks_base :: u64
  tasks_base :: u64
  sizeof_task :: u64
  Task_Exit_addr :: u64
  Task_RunNewX64_addr :: u64

definition stack_addr :: "kernel_map \<Rightarrow> nat \<Rightarrow> u64" where
  "stack_addr km slot = stacks_base km + of_nat (slot * TASK_STACK_SIZE)"

definition task_addr :: "kernel_map \<Rightarrow> nat \<Rightarrow> u64" where
  "task_addr km slot = tasks_base km + of_nat slot * sizeof_task km"

definition copy_cwd :: "string option \<Rightarrow> string" where
  "copy_cwd src = (case src of None \<Rightarrow> [] | Some p \<Rightarrow> take 127 p)"

definition zero_tcb :: "'c tcb" where
  "zero_tcb = \<lparr>ln_Type = 0, ln_Pri = 0, ln_Name = None, tc_State = TASK_WAITING,
     tc_IDNestCnt = 0, tc_TDNestCnt = 0, tc_SigAlloc = 0, tc_SigWait = 0, tc_SigRecvd = 0,
     tc_SPUpper = 0, tc_SPLower = 0, ttype = TASK_TYPE_NATIVE, native_rsp = 0, native_rip = 0,
     native_stack_base = 0, native_stack_size = 0, native_entry = 0, native_arg = 0,
     native_initial_rsp = 0, m68k_task_struct = 0, m68k_context_buf = None, m68k_ram = 0,
     m68k_initial_cycles = 0, m68k_remaining_cycles = 0, m68k_vblank_sig = 0, parent = None,
     bg_job = 0, tc_wake_tick = 0, task_cwd = [], native_print_fn = 0, native_print_ctx = 0,
     cpu_ticks = 0, ctx_switches = 0, switch_while_crit = 0, stack_overflowed = False\<rparr>"

text \<open>Slot search: reuse the first REMOVED slot, else append (lines 288-299).\<close>

definition find_task_slot :: "'c sched \<Rightarrow> (nat \<times> 'c sched) option" where
  "find_task_slot s =
     (case first_index (\<lambda>i. tc_State (g_tasks s i) = TASK_REMOVED) (g_task_count s) of
        Some i \<Rightarrow> Some (i, s)
      | None \<Rightarrow> if g_task_count s \<ge> MAX_TASKS then None
                else Some (g_task_count s, s\<lparr>g_task_count := g_task_count s + 1\<rparr>))"

text \<open>Unlink a REMOVED slot that is still queued, zero it, and fill the fields both creators
  set (lines 304-337 and 446-479).\<close>

definition init_task_slot ::
    "kernel_map \<Rightarrow> nat \<Rightarrow> string option \<Rightarrow> u8 \<Rightarrow> 'c sched \<Rightarrow> 'c sched" where
  "init_task_slot km slot name pri s =
     (let s = (if ln_Succ (lk s) (Task slot) \<noteq> Null \<and> ln_Succ (lk s) (Task slot) \<noteq> Task slot
               then s\<lparr>lk := list_remove (Task slot) (lk s)\<rparr> else s);
          s = s\<lparr>g_tasks := (g_tasks s)(slot := zero_tcb\<lparr>ln_Type := 1, ln_Pri := pri, ln_Name := name,
                  tc_State := TASK_REMOVED, tc_SigAlloc := 0xFFFF, tc_SPLower := stack_addr km slot,
                  tc_SPUpper := stack_addr km slot + of_nat TASK_STACK_SIZE,
                  native_stack_base := stack_addr km slot,
                  native_stack_size := of_nat TASK_STACK_SIZE,
                  parent := g_current s, bg_job := g_task_bg_job s\<rparr>)\<rparr>;
          s = s\<lparr>lk := list_init (Task slot) (lk s)\<rparr>
      in s\<lparr>task_stacks := (task_stacks s)(slot := stack_instrument (task_stacks s slot))\<rparr>)"

fun store_frame :: "nat \<Rightarrow> u64 list \<Rightarrow> (nat \<Rightarrow> u8) \<Rightarrow> nat \<Rightarrow> u8" where
  "store_frame off [] f = f"
| "store_frame off (w # ws) f = store_frame (off + 8) ws (store64 off w f)"

text \<open>The synthetic interrupt frame: R15..RAX (RDI in slot 9), vector, error code, RIP, CS,
  RFLAGS, RSP, SS.\<close>

definition interrupt_frame :: "u64 \<Rightarrow> u64 \<Rightarrow> u64 \<Rightarrow> u64 list" where
  "interrupt_frame rdi rip rsp =
     (replicate 15 0)[9 := rdi] @ [0, 0, rip, 0x08, 0x202, rsp, 0x10]"

definition entry_rsp_of :: "kernel_map \<Rightarrow> nat \<Rightarrow> u64" where
  "entry_rsp_of km slot =
     ((stack_addr km slot + of_nat TASK_STACK_SIZE) AND NOT 15) - 8"

definition put_frame :: "kernel_map \<Rightarrow> nat \<Rightarrow> u64 \<Rightarrow> u64 list \<Rightarrow> 'c sched \<Rightarrow> 'c sched" where
  "put_frame km slot sp ws s =
     (let off = unat (sp - stack_addr km slot)
      in upd slot (\<lambda>x. x\<lparr>native_rsp := sp\<rparr>)
           (s\<lparr>task_stacks := (task_stacks s)(slot := store_frame off ws (task_stacks s slot))\<rparr>))"

definition Task_CreateNative ::
    "('c m68k \<Rightarrow> 'c m68k) \<Rightarrow> kernel_map \<Rightarrow> string option \<Rightarrow> u8 \<Rightarrow> u64 \<Rightarrow> u64 \<Rightarrow> 'c sched
      \<Rightarrow> (nat option \<times> 'c sched) option" where
  "Task_CreateNative end_ts km name pri entry arg s =
     (let s = Forbid s
      in case find_task_slot s of
           None \<Rightarrow> map_option (Pair None) (Permit end_ts s)
         | Some (slot, s) \<Rightarrow>
             let s = init_task_slot km slot name pri s;
                 s = upd slot (\<lambda>x. x\<lparr>ttype := TASK_TYPE_NATIVE, native_entry := entry,
                       native_arg := arg, task_cwd := copy_cwd (Some [])\<rparr>) s;
                 entry_rsp = entry_rsp_of km slot;
                 s = s\<lparr>task_stacks := (task_stacks s)(slot :=
                       store64 (unat (entry_rsp - stack_addr km slot)) (Task_Exit_addr km)
                         (task_stacks s slot))\<rparr>;
                 s = put_frame km slot (entry_rsp - 22 * 8) (interrupt_frame arg entry entry_rsp) s;
                 s = ready_enqueue slot s
             in map_option (Pair (Some slot)) (Permit end_ts s))"

definition Task_CreateX64 ::
    "('c m68k \<Rightarrow> 'c m68k) \<Rightarrow> kernel_map \<Rightarrow> string option \<Rightarrow> u8 \<Rightarrow> u64 \<Rightarrow> u64 \<Rightarrow> string option
      \<Rightarrow> u64 \<Rightarrow> u64 \<Rightarrow> 'c sched \<Rightarrow> (nat option \<times> 'c sched) option" where
  "Task_CreateX64 end_ts km name pri entry_rip initial_rsp cwd print_fn print_ctx s =
     (let s = Forbid s
      in case find_task_slot s of
           None \<Rightarrow> map_option (Pair None) (Permit end_ts s)
         | Some (slot, s) \<Rightarrow>
             let s = init_task_slot km slot name pri s;
                 s = upd slot (\<lambda>x. x\<lparr>ttype := TASK_TYPE_X64,
                       native_entry := Task_RunNewX64_addr km, native_arg := task_addr km slot,
                       native_rip := entry_rip, native_initial_rsp := initial_rsp,
                       task_cwd := copy_cwd cwd, native_print_fn := print_fn,
                       native_print_ctx := print_ctx\<rparr>) s;
                 s = put_frame km slot (stack_addr km slot + of_nat TASK_STACK_SIZE - 22 * 8)
                       (interrupt_frame 0 entry_rip initial_rsp) s;
                 s = ready_enqueue slot s
             in map_option (Pair (Some slot)) (Permit end_ts s))"

section \<open>Removal and priorities\<close>

text \<open>\<open>Task_Exit\<close> up to the final switch loop (lines 715-778).  The reclaim calls into other
  subsystems (AHCI, memcheck, handle table, Intuition, sockets, telnetd, shell, ELF heap) do
  not touch the scheduler state and are left out; \<open>Task_ReleaseM68kRam\<close> clears \<open>m68k_ram\<close>.\<close>

definition Task_Exit_mark :: "'c sched \<Rightarrow> 'c sched" where
  "Task_Exit_mark s =
     (case g_current s of
        None \<Rightarrow> s
      | Some c \<Rightarrow>
          let s = (if g_wait_tof_task s = Some c then s\<lparr>g_wait_tof_task := None\<rparr> else s);
              s = (if ttype (g_tasks s c) = TASK_TYPE_M68K \<and> sint (m68k_vblank_sig (g_tasks s c)) \<ge> 0
                   then upd c (\<lambda>x. x\<lparr>tc_SigAlloc := tc_SigAlloc x OR
                                 push_bit (unat (m68k_vblank_sig x)) 1,
                               m68k_vblank_sig := -1\<rparr>) s
                   else s);
              s = (if ttype (g_tasks s c) = TASK_TYPE_M68K
                   then upd c (\<lambda>x. x\<lparr>m68k_ram := 0\<rparr>) s else s);
              s = set_state c TASK_REMOVED s
          in case parent (g_tasks s c) of
               None \<Rightarrow> s
             | Some p \<Rightarrow> if tc_State (g_tasks s p) \<noteq> TASK_REMOVED
                        then Signal (Some p) SIGF_CHILD s else s)"

text \<open>\<open>stub_RemTask\<close> on a task found by its guest address: the scheduler part.\<close>

definition RemTask :: "nat \<Rightarrow> 'c sched \<Rightarrow> 'c sched" where
  "RemTask t s =
     (let s = (if tc_State (g_tasks s t) = TASK_WAITING then wait_remove t s else s);
          s = set_state t TASK_REMOVED s
      in if ttype (g_tasks s t) = TASK_TYPE_M68K \<and> g_current s \<noteq> Some t
         then upd t (\<lambda>x. x\<lparr>m68k_ram := 0\<rparr>) s else s)"

definition SetTaskPri :: "nat option \<Rightarrow> int \<Rightarrow> 'c sched \<Rightarrow> 'c sched" where
  "SetTaskPri task newpri s =
     (case task of
        None \<Rightarrow> s
      | Some t \<Rightarrow>
          let newpri = (if newpri < -128 then -128 else newpri);
              newpri = (if newpri > 127 then 127 else newpri)
          in if tc_State (g_tasks s t) = TASK_READY
             then let s = ready_remove t s;
                      s = upd t (\<lambda>x. x\<lparr>ln_Pri := word_of_int newpri\<rparr>) s
                  in ready_enqueue t s
             else upd t (\<lambda>x. x\<lparr>ln_Pri := word_of_int newpri\<rparr>) s)"

section \<open>Blocking primitives\<close>

text \<open>\<open>Wait\<close>, \<open>Task_SleepTicks\<close> and \<open>Task_WaitTicks\<close> as an entry and one iteration of their
  loop: \<open>Done\<close> when the loop condition fails (with the result and the exit part done),
  \<open>Parked\<close> after the body's attempt to switch away.  \<open>blocked\<close> records which loop a task is in
  (\<open>NotBlocked\<close>: the call returned at once).\<close>

datatype blocked = NotBlocked | InWait u32 | InSleep u64 | InWaitTicks u32 u64

datatype 'c loop_result = Done u32 "'c sched" | Parked bool "'c sched"

definition park_current :: "nat \<Rightarrow> 'c sched \<Rightarrow> 'c sched" where
  "park_current c s =
     (if tc_State (g_tasks s c) \<noteq> TASK_WAITING
      then wait_enqueue c (set_state c TASK_WAITING s) else s)"

definition Wait_enter :: "u32 \<Rightarrow> nat \<Rightarrow> 'c sched \<Rightarrow> blocked \<times> 'c sched" where
  "Wait_enter sigmask c s = (InWait sigmask, upd c (\<lambda>x. x\<lparr>tc_SigWait := sigmask\<rparr>) s)"

definition Wait_iter ::
    "('c m68k \<Rightarrow> 'c m68k) \<Rightarrow> u32 \<Rightarrow> nat \<Rightarrow> 'c sched \<Rightarrow> 'c loop_result option" where
  "Wait_iter end_ts sigmask c s =
     (if tc_SigRecvd (g_tasks s c) AND sigmask = 0
      then map_option (\<lambda>(sw, s). Parked sw s) (task_switch_away end_ts (park_current c s))
      else Some (Done (tc_SigRecvd (g_tasks s c) AND sigmask)
             (upd c (\<lambda>x. x\<lparr>tc_SigRecvd := tc_SigRecvd x AND NOT sigmask, tc_SigWait := 0\<rparr>) s)))"

definition Task_SleepTicks_enter :: "u64 \<Rightarrow> nat \<Rightarrow> 'c sched \<Rightarrow> blocked \<times> 'c sched" where
  "Task_SleepTicks_enter ticks c s =
     (if ticks = 0 then (NotBlocked, s)
      else let deadline = g_pit_ticks s + ticks
           in (InSleep deadline, upd c (\<lambda>x. x\<lparr>tc_SigWait := 0, tc_wake_tick := deadline\<rparr>) s))"

definition Task_SleepTicks_iter ::
    "('c m68k \<Rightarrow> 'c m68k) \<Rightarrow> u64 \<Rightarrow> nat \<Rightarrow> 'c sched \<Rightarrow> 'c loop_result option" where
  "Task_SleepTicks_iter end_ts deadline c s =
     (if g_pit_ticks s < deadline
      then map_option (\<lambda>(sw, s). Parked sw s) (task_switch_away end_ts (park_current c s))
      else Some (Done 0 (upd c (\<lambda>x. x\<lparr>tc_wake_tick := 0\<rparr>) s)))"

definition Task_WaitTicks_enter :: "u32 \<Rightarrow> u64 \<Rightarrow> nat \<Rightarrow> 'c sched \<Rightarrow> blocked \<times> 'c sched" where
  "Task_WaitTicks_enter sigmask ticks c s =
     (if sigmask = 0 then Task_SleepTicks_enter ticks c s
      else let deadline = g_pit_ticks s + ticks
           in (InWaitTicks sigmask deadline,
               upd c (\<lambda>x. x\<lparr>tc_SigWait := sigmask, tc_wake_tick := deadline\<rparr>) s))"

definition Task_WaitTicks_iter ::
    "('c m68k \<Rightarrow> 'c m68k) \<Rightarrow> u32 \<Rightarrow> u64 \<Rightarrow> nat \<Rightarrow> 'c sched \<Rightarrow> 'c loop_result option" where
  "Task_WaitTicks_iter end_ts sigmask deadline c s =
     (if tc_SigRecvd (g_tasks s c) AND sigmask = 0 \<and> g_pit_ticks s < deadline
      then map_option (\<lambda>(sw, s). Parked sw s) (task_switch_away end_ts (park_current c s))
      else Some (Done (tc_SigRecvd (g_tasks s c) AND sigmask)
             (upd c (\<lambda>x. x\<lparr>tc_SigRecvd := tc_SigRecvd x AND NOT sigmask,
                           tc_SigWait := 0, tc_wake_tick := 0\<rparr>) s)))"

definition block_iter ::
    "('c m68k \<Rightarrow> 'c m68k) \<Rightarrow> blocked \<Rightarrow> nat \<Rightarrow> 'c sched \<Rightarrow> 'c loop_result option" where
  "block_iter end_ts b c s =
     (case b of
        NotBlocked \<Rightarrow> Some (Done 0 s)
      | InWait m \<Rightarrow> Wait_iter end_ts m c s
      | InSleep d \<Rightarrow> Task_SleepTicks_iter end_ts d c s
      | InWaitTicks m d \<Rightarrow> Task_WaitTicks_iter end_ts m d c s)"

section \<open>Timers\<close>

text \<open>The wait-list walk of \<open>Task_WakeTimers\<close>; the successor is read before the node moves.\<close>

partial_function (option) wake_loop :: "node \<Rightarrow> 'c sched \<Rightarrow> 'c sched option" where
  "wake_loop n s =
     (if n = WaitHead then Some s
      else let nxt = ln_Succ (lk s) n; t = task_of n
           in wake_loop nxt
                (if tc_State (g_tasks s t) = TASK_REMOVED then wait_remove t s
                 else if tc_wake_tick (g_tasks s t) \<noteq> 0 \<and> g_pit_ticks s \<ge> tc_wake_tick (g_tasks s t)
                 then ready_enqueue t (wait_remove t (upd t (\<lambda>x. x\<lparr>tc_wake_tick := 0\<rparr>) s))
                 else s))"

text \<open>One slot of the stranded-task scan.\<close>

definition strand_check :: "nat \<Rightarrow> 'c sched \<Rightarrow> 'c sched" where
  "strand_check i s =
     (let st = tc_State (g_tasks s i)
      in if g_current s = Some i \<or> (st \<noteq> TASK_READY \<and> st \<noteq> TASK_WAITING) \<or>
            ln_Succ (lk s) (Task i) \<noteq> Task i \<or> ln_Pred (lk s) (Task i) \<noteq> Task i
         then s\<lparr>g_strand_votes := (g_strand_votes s)(i := 0)\<rparr>
         else let s = s\<lparr>g_strand_votes := (g_strand_votes s)(i := g_strand_votes s i + 1)\<rparr>
              in if g_strand_votes s i < 2 then s
                 else let s = s\<lparr>g_strand_votes := (g_strand_votes s)(i := 0)\<rparr>
                      in if st = TASK_READY then ready_enqueue i s else wait_enqueue i s)"

definition Task_WakeTimers :: "'c sched \<Rightarrow> 'c sched option" where
  "Task_WakeTimers s =
     (case wake_loop (ln_Succ (lk s) WaitHead) s of
        None \<Rightarrow> None
      | Some s \<Rightarrow> if g_pit_ticks s mod 64 \<noteq> 0 then Some s
                  else Some (fold strand_check [0..<g_task_count s] s))"

section \<open>Queries and initialisation\<close>

definition Task_GetCounts :: "'c sched \<Rightarrow> nat \<times> nat \<times> nat" where
  "Task_GetCounts s =
     (let live = filter (\<lambda>i. tc_State (g_tasks s i) \<noteq> TASK_REMOVED) [0..<g_task_count s];
          run = filter (\<lambda>i. tc_State (g_tasks s i) = TASK_RUNNING \<or>
                            tc_State (g_tasks s i) = TASK_READY) live;
          wt = filter (\<lambda>i. \<not> (tc_State (g_tasks s i) = TASK_RUNNING \<or>
                            tc_State (g_tasks s i) = TASK_READY) \<and>
                            tc_State (g_tasks s i) = TASK_WAITING) live
      in (length live, length run, length wt))"

definition Task_RunnableCount :: "'c sched \<Rightarrow> nat" where
  "Task_RunnableCount s =
     length (filter (\<lambda>i. tc_State (g_tasks s i) = TASK_RUNNING \<or>
                         tc_State (g_tasks s i) = TASK_READY) [0..<g_task_count s])"

definition Task_FindByM68kAddr :: "u32 \<Rightarrow> 'c sched \<Rightarrow> nat option" where
  "Task_FindByM68kAddr guest_addr s =
     first_index (\<lambda>i. ttype (g_tasks s i) = TASK_TYPE_M68K \<and>
                      m68k_task_struct (g_tasks s i) = guest_addr \<and>
                      tc_State (g_tasks s i) \<noteq> TASK_REMOVED) (g_task_count s)"

definition Task_FindByName :: "string option \<Rightarrow> 'c sched \<Rightarrow> nat option" where
  "Task_FindByName name s =
     (case name of
        None \<Rightarrow> g_current s
      | Some n \<Rightarrow> if n = [] then g_current s
                  else first_index (\<lambda>i. ln_Name (g_tasks s i) = Some n \<and>
                         tc_State (g_tasks s i) \<noteq> TASK_REMOVED) (g_task_count s))"

definition TaskScheduler_Init :: "'c sched \<Rightarrow> 'c sched" where
  "TaskScheduler_Init s =
     (let s = s\<lparr>g_task_count := 0, g_current := None\<rparr>;
          s = s\<lparr>lk := fold (\<lambda>i l. list_init (ReadyHead i) l) [0..<256] (lk s)\<rparr>;
          s = s\<lparr>g_ready_map := fold (\<lambda>i m. m(i := 0)) [0..<4] (g_ready_map s)\<rparr>;
          s = s\<lparr>lk := list_init WaitHead (lk s)\<rparr>
      in s\<lparr>g_wait_count := 0\<rparr>)"

end
