(* ===== verification/Task_Queues.thy ===== *)
theory Task_Queues
  imports Task_Defs
begin

text \<open>
  The queues of the scheduler against their list-level meaning.  \<open>queues s rq wq\<close> relates the
  linked representation (sentinel heads, links and occupancy bitmap) to a list of tasks per
  priority level and the list of waiting tasks; every queue primitive is shown to implement its
  list operation, and \<open>ready_dequeue_highest\<close> to terminate and implement \<open>deq_spec\<close>.
\<close>

section \<open>Abstraction relation\<close>

definition queues :: "'c sched \<Rightarrow> (nat \<Rightarrow> nat list) \<Rightarrow> nat list \<Rightarrow> bool" where
  "queues s rq wq \<longleftrightarrow>
     (\<forall>i<256. ring (lk s) (ReadyHead i) (map Task (rq i))) \<and>
     ring (lk s) WaitHead (map Task wq) \<and>
     (\<forall>i\<ge>256. rq i = []) \<and>
     (\<forall>i j t. i \<noteq> j \<longrightarrow> t \<in> set (rq i) \<longrightarrow> t \<notin> set (rq j)) \<and>
     (\<forall>i t. t \<in> set (rq i) \<longrightarrow> t \<notin> set wq) \<and>
     (\<forall>i<256. rq i \<noteq> [] \<longrightarrow> bit (g_ready_map s (i div 64)) (i mod 64))"

definition in_ready :: "(nat \<Rightarrow> nat list) \<Rightarrow> nat \<Rightarrow> bool" where
  "in_ready rq t \<longleftrightarrow> (\<exists>i. t \<in> set (rq i))"

definition queued :: "(nat \<Rightarrow> nat list) \<Rightarrow> nat list \<Rightarrow> nat \<Rightarrow> bool" where
  "queued rq wq t \<longleftrightarrow> in_ready rq t \<or> t \<in> set wq"

lemma queues_ready_ring: "queues s rq wq \<Longrightarrow> i < 256 \<Longrightarrow> ring (lk s) (ReadyHead i) (map Task (rq i))"
  by (simp add: queues_def)

lemma queues_wait_ring: "queues s rq wq \<Longrightarrow> ring (lk s) WaitHead (map Task wq)"
  by (simp add: queues_def)

lemma queues_level_bound: "queues s rq wq \<Longrightarrow> t \<in> set (rq i) \<Longrightarrow> i < 256"
  unfolding queues_def by (metis empty_iff empty_set not_le)

lemma queues_disjoint:
  "queues s rq wq \<Longrightarrow> t \<in> set (rq i) \<Longrightarrow> t \<in> set (rq j) \<Longrightarrow> i = j"
  unfolding queues_def by metis

lemma queues_ready_not_wait: "queues s rq wq \<Longrightarrow> t \<in> set (rq i) \<Longrightarrow> t \<notin> set wq"
  unfolding queues_def by metis

lemma queues_bit:
  "queues s rq wq \<Longrightarrow> rq i \<noteq> [] \<Longrightarrow> bit (g_ready_map s (i div 64)) (i mod 64)"
  unfolding queues_def by (metis not_le)

lemma queues_distinct_ready: "queues s rq wq \<Longrightarrow> distinct (rq i)"
  using ring_distinct [OF queues_ready_ring, of s rq wq i]
  by (cases "i < 256") (auto simp: distinct_map queues_def)

lemma queues_distinct_wait: "queues s rq wq \<Longrightarrow> distinct wq"
  using queues_wait_ring ring_distinct by (fastforce simp: distinct_map)

lemma queues_cong:
  "lk s' = lk s \<Longrightarrow> g_ready_map s' = g_ready_map s \<Longrightarrow> queues s' rq wq = queues s rq wq"
  by (simp add: queues_def)

lemma queues_unique: "queues s rq wq \<Longrightarrow> queues s rq' wq' \<Longrightarrow> rq = rq' \<and> wq = wq'"
proof
  assume q: "queues s rq wq" and q': "queues s rq' wq'"
  have inj: "inj (map Task)" by (auto intro: injI simp: inj_map_eq_map inj_def)
  show "rq = rq'"
  proof
    fix i show "rq i = rq' i"
    proof (cases "i < 256")
      case True
      then have "map Task (rq i) = map Task (rq' i)"
        using q q' by (blast intro: ring_unique queues_ready_ring)
      then show ?thesis using inj by (auto dest: injD)
    qed (use q q' in \<open>auto simp: queues_def\<close>)
  qed
  have "map Task wq = map Task wq'"
    using q q' by (blast intro: ring_unique queues_wait_ring)
  then show "wq = wq'" using inj by (auto dest: injD)
qed

lemma pri_to_idx_less [simp]: "pri_to_idx p < 256"
  using sint_range_size [of p] by (auto simp: pri_to_idx_def size_word.rep_eq)

lemma pri_to_idx_mono: "pri_to_idx p \<le> pri_to_idx q \<longleftrightarrow> sint p \<le> sint q"
  using sint_range_size [of p] sint_range_size [of q]
  by (auto simp: pri_to_idx_def size_word.rep_eq)

section \<open>Field equations\<close>

lemma upd_sel [simp]:
  "lk (upd i f s) = lk s" "g_ready_map (upd i f s) = g_ready_map s"
  "g_current (upd i f s) = g_current s" "g_task_count (upd i f s) = g_task_count s"
  "Task_SwitchNext (upd i f s) = Task_SwitchNext s" "Task_SwitchPrev (upd i f s) = Task_SwitchPrev s"
  "g_sched_switch_pending (upd i f s) = g_sched_switch_pending s"
  "g_need_resched (upd i f s) = g_need_resched s" "g_pit_ticks (upd i f s) = g_pit_ticks s"
  "g_irq_depth (upd i f s) = g_irq_depth s" "g_wait_count (upd i f s) = g_wait_count s"
  "cpu_rsp (upd i f s) = cpu_rsp s" "cpu_if (upd i f s) = cpu_if s" "cpu_sc (upd i f s) = cpu_sc s"
  "task_stacks (upd i f s) = task_stacks s" "g_strand_votes (upd i f s) = g_strand_votes s"
  "g_tasks (upd i f s) = (g_tasks s)(i := f (g_tasks s i))"
  "g_acct_last_tick (upd i f s) = g_acct_last_tick s"
  "g_eventpump_task (upd i f s) = g_eventpump_task s"
  by (simp_all add: upd_def)

lemma set_state_sel [simp]:
  "lk (set_state i st s) = lk s" "g_ready_map (set_state i st s) = g_ready_map s"
  "g_current (set_state i st s) = g_current s" "g_task_count (set_state i st s) = g_task_count s"
  "Task_SwitchNext (set_state i st s) = Task_SwitchNext s"
  "Task_SwitchPrev (set_state i st s) = Task_SwitchPrev s"
  "g_sched_switch_pending (set_state i st s) = g_sched_switch_pending s"
  "g_need_resched (set_state i st s) = g_need_resched s"
  "g_pit_ticks (set_state i st s) = g_pit_ticks s"
  "g_irq_depth (set_state i st s) = g_irq_depth s"
  "g_wait_count (set_state i st s) = g_wait_count s"
  "cpu_rsp (set_state i st s) = cpu_rsp s" "cpu_if (set_state i st s) = cpu_if s" "cpu_sc (set_state i st s) = cpu_sc s"
  "task_stacks (set_state i st s) = task_stacks s"
  "g_strand_votes (set_state i st s) = g_strand_votes s"
  "g_tasks (set_state i st s) = (g_tasks s)(i := (g_tasks s i)\<lparr>tc_State := st\<rparr>)"
  "g_eventpump_task (set_state i st s) = g_eventpump_task s"
  by (simp_all add: set_state_def)

lemma ready_enqueue_sel [simp]:
  "lk (ready_enqueue t s) = list_append (ReadyHead (task_idx s t)) (Task t) (lk s)"
  "g_tasks (ready_enqueue t s) = (g_tasks s)(t := (g_tasks s t)\<lparr>tc_State := TASK_READY\<rparr>)"
  "g_current (ready_enqueue t s) = g_current s" "g_task_count (ready_enqueue t s) = g_task_count s"
  "Task_SwitchNext (ready_enqueue t s) = Task_SwitchNext s"
  "Task_SwitchPrev (ready_enqueue t s) = Task_SwitchPrev s"
  "g_sched_switch_pending (ready_enqueue t s) = g_sched_switch_pending s"
  "g_need_resched (ready_enqueue t s) = g_need_resched s"
  "g_pit_ticks (ready_enqueue t s) = g_pit_ticks s"
  "g_irq_depth (ready_enqueue t s) = g_irq_depth s"
  "cpu_rsp (ready_enqueue t s) = cpu_rsp s" "cpu_if (ready_enqueue t s) = cpu_if s" "cpu_sc (ready_enqueue t s) = cpu_sc s"
  "task_stacks (ready_enqueue t s) = task_stacks s"
  "g_strand_votes (ready_enqueue t s) = g_strand_votes s"
  "g_eventpump_task (ready_enqueue t s) = g_eventpump_task s"
  "g_ready_map (ready_enqueue t s) = (g_ready_map s)(task_idx s t div 64 :=
     g_ready_map s (task_idx s t div 64) OR push_bit (task_idx s t mod 64) 1)"
  by (simp_all add: ready_enqueue_def Let_def)

lemma refresh_ready_bit_sel [simp]:
  "lk (refresh_ready_bit i s) = lk s" "g_tasks (refresh_ready_bit i s) = g_tasks s"
  "g_current (refresh_ready_bit i s) = g_current s"
  "g_task_count (refresh_ready_bit i s) = g_task_count s"
  "Task_SwitchNext (refresh_ready_bit i s) = Task_SwitchNext s"
  "Task_SwitchPrev (refresh_ready_bit i s) = Task_SwitchPrev s"
  "g_sched_switch_pending (refresh_ready_bit i s) = g_sched_switch_pending s"
  "g_need_resched (refresh_ready_bit i s) = g_need_resched s"
  "g_pit_ticks (refresh_ready_bit i s) = g_pit_ticks s"
  "g_irq_depth (refresh_ready_bit i s) = g_irq_depth s"
  "cpu_rsp (refresh_ready_bit i s) = cpu_rsp s" "cpu_if (refresh_ready_bit i s) = cpu_if s" "cpu_sc (refresh_ready_bit i s) = cpu_sc s"
  "task_stacks (refresh_ready_bit i s) = task_stacks s"
  "g_strand_votes (refresh_ready_bit i s) = g_strand_votes s"
  "g_eventpump_task (refresh_ready_bit i s) = g_eventpump_task s"
  by (simp_all add: refresh_ready_bit_def Let_def)

lemma wait_enqueue_sel [simp]:
  "lk (wait_enqueue t s) = list_append WaitHead (Task t) (lk s)"
  "g_tasks (wait_enqueue t s) = (g_tasks s)(t := (g_tasks s t)\<lparr>tc_State := TASK_WAITING\<rparr>)"
  "g_current (wait_enqueue t s) = g_current s" "g_task_count (wait_enqueue t s) = g_task_count s"
  "Task_SwitchNext (wait_enqueue t s) = Task_SwitchNext s"
  "Task_SwitchPrev (wait_enqueue t s) = Task_SwitchPrev s"
  "g_sched_switch_pending (wait_enqueue t s) = g_sched_switch_pending s"
  "g_need_resched (wait_enqueue t s) = g_need_resched s"
  "g_pit_ticks (wait_enqueue t s) = g_pit_ticks s"
  "g_irq_depth (wait_enqueue t s) = g_irq_depth s"
  "cpu_rsp (wait_enqueue t s) = cpu_rsp s" "cpu_if (wait_enqueue t s) = cpu_if s" "cpu_sc (wait_enqueue t s) = cpu_sc s"
  "task_stacks (wait_enqueue t s) = task_stacks s"
  "g_strand_votes (wait_enqueue t s) = g_strand_votes s"
  "g_ready_map (wait_enqueue t s) = g_ready_map s"
  "g_eventpump_task (wait_enqueue t s) = g_eventpump_task s"
  by (simp_all add: wait_enqueue_def Let_def)

lemma wait_remove_sel [simp]:
  "lk (wait_remove t s) = list_remove (Task t) (lk s)"
  "g_tasks (wait_remove t s) = g_tasks s"
  "g_current (wait_remove t s) = g_current s" "g_task_count (wait_remove t s) = g_task_count s"
  "Task_SwitchNext (wait_remove t s) = Task_SwitchNext s"
  "Task_SwitchPrev (wait_remove t s) = Task_SwitchPrev s"
  "g_sched_switch_pending (wait_remove t s) = g_sched_switch_pending s"
  "g_need_resched (wait_remove t s) = g_need_resched s"
  "g_pit_ticks (wait_remove t s) = g_pit_ticks s"
  "g_irq_depth (wait_remove t s) = g_irq_depth s"
  "cpu_rsp (wait_remove t s) = cpu_rsp s" "cpu_if (wait_remove t s) = cpu_if s" "cpu_sc (wait_remove t s) = cpu_sc s"
  "task_stacks (wait_remove t s) = task_stacks s"
  "g_strand_votes (wait_remove t s) = g_strand_votes s"
  "g_ready_map (wait_remove t s) = g_ready_map s"
  "g_eventpump_task (wait_remove t s) = g_eventpump_task s"
  by (simp_all add: wait_remove_def Let_def)

section \<open>Queue primitives implement list operations\<close>

lemma bit_or_single: "bit (w OR 2 ^ k :: u64) n \<longleftrightarrow> bit w n \<or> (n = k \<and> k < 64)"
  by (auto simp: bit_or_iff bit_exp_iff)

lemma bit_and_not_single: "bit (w AND NOT (2 ^ k) :: u64) n \<longleftrightarrow> bit w n \<and> n \<noteq> k"
  by (auto simp: bit_and_iff bit_not_iff bit_exp_iff dest: bit_imp_le_length)

lemma queues_ready_enqueue:
  assumes q: "queues s rq wq" and n: "\<not> queued rq wq t" and p: "p = task_idx s t"
  shows "queues (ready_enqueue t s) (rq(p := rq p @ [t])) wq"
proof -
  have p256: "p < 256" by (simp add: p)
  note R = queues_ready_ring [OF q] and W = queues_wait_ring [OF q]
  have nt: "t \<notin> set (rq i)" "t \<notin> set wq" for i
    using n by (auto simp: queued_def in_ready_def)
  have dj: "i \<noteq> p \<Longrightarrow> set (rq i) \<inter> set (rq p) = {}" for i
    using queues_disjoint [OF q] by blast
  have wp: "set (rq p) \<inter> set wq = {}" using queues_ready_not_wait [OF q] by blast
  have "ring (list_append (ReadyHead p) (Task t) (lk s)) (ReadyHead i)
          (map Task ((rq(p := rq p @ [t])) i))" if "i < 256" for i
  proof (cases "i = p")
    case True
    then show ?thesis
      using list_append_ring [OF R [OF p256], of "Task t"] nt by auto
  next
    case False
    then show ?thesis
      using list_append_other_ring [OF R [OF p256] R [OF that], of "Task t"] nt dj by fastforce
  qed
  moreover have "ring (list_append (ReadyHead p) (Task t) (lk s)) WaitHead (map Task wq)"
    using list_append_other_ring [OF R [OF p256] W, of "Task t"] nt wp by fastforce
  ultimately show ?thesis
    using q nt p256 unfolding queues_def p [symmetric] ready_enqueue_sel
    by (auto simp: bit_or_single)
qed

lemma queues_ready_unlink:
  assumes q: "queues s rq wq" and m: "t \<in> set (rq p)"
    and l: "lk s' = list_remove (Task t) (lk s)"
    and b: "\<And>i. i < 256 \<Longrightarrow> (rq(p := remove1 t (rq p))) i \<noteq> [] \<Longrightarrow>
              bit (g_ready_map s (i div 64)) (i mod 64) \<Longrightarrow>
              bit (g_ready_map s' (i div 64)) (i mod 64)"
  shows "queues s' (rq(p := remove1 t (rq p))) wq"
proof -
  have p256: "p < 256" using queues_level_bound [OF q m] .
  note R = queues_ready_ring [OF q] and W = queues_wait_ring [OF q]
  obtain xs ys where rp: "rq p = xs @ t # ys" and nx: "t \<notin> set xs"
    using split_list_first [OF m] by auto
  have rp': "remove1 t (rq p) = xs @ ys" using rp nx by (simp add: remove1_append)
  have Rp: "ring (lk s) (ReadyHead p) (map Task xs @ Task t # map Task ys)"
    using R [OF p256] by (simp add: rp)
  have dj: "i \<noteq> p \<Longrightarrow> set (rq i) \<inter> set (rq p) = {}" for i
    using queues_disjoint [OF q] by blast
  have wp: "set (rq p) \<inter> set wq = {}" using queues_ready_not_wait [OF q] by blast
  have "ring (lk s') (ReadyHead i) (map Task ((rq(p := remove1 t (rq p))) i))" if "i < 256" for i
  proof (cases "i = p")
    case True
    then show ?thesis using list_remove_ring [OF Rp] by (simp add: l rp')
  next
    case False
    then show ?thesis
      using list_remove_other_ring [OF Rp R [OF that]] dj [OF False] by (auto simp: l rp)
  qed
  moreover have "ring (lk s') WaitHead (map Task wq)"
    using list_remove_other_ring [OF Rp W] wp by (auto simp: l rp)
  moreover have "set (remove1 t (rq p)) \<subseteq> set (rq p)" by (rule set_remove1_subset)
  ultimately show ?thesis
    using q b unfolding queues_def by (auto split: if_splits; blast)
qed

lemma bit_refresh:
  "bit (g_ready_map (refresh_ready_bit i s) w) j \<longleftrightarrow>
     (if w = i div 64 \<and> j = i mod 64 then \<not> list_empty (ReadyHead i) (lk s)
      else bit (g_ready_map s w) j)"
  by (cases "w = i div 64"; cases "list_empty (ReadyHead i) (lk s)")
     (simp_all add: refresh_ready_bit_def Let_def bit_or_single bit_and_not_single)

lemma queues_refresh:
  assumes q: "queues s rq wq" and p: "p < 256"
  shows "queues (refresh_ready_bit p s) rq wq"
proof -
  have "bit (g_ready_map (refresh_ready_bit p s) (i div 64)) (i mod 64)" if "rq i \<noteq> []" for i
  proof (cases "i = p")
    case True
    then show ?thesis
      using that ring_empty_iff [OF queues_ready_ring [OF q p]] by (simp add: bit_refresh)
  next
    case False
    then have "\<not> (i div 64 = p div 64 \<and> i mod 64 = p mod 64)" by (metis div_mult_mod_eq)
    then show ?thesis using queues_bit [OF q that] by (auto simp: bit_refresh)
  qed
  then show ?thesis using q by (simp add: queues_def)
qed

lemma queues_ready_remove:
  assumes q: "queues s rq wq" and m: "t \<in> set (rq p)" and p: "p = task_idx s t"
  shows "queues (ready_remove t s) (rq(p := remove1 t (rq p))) wq"
  unfolding ready_remove_def Let_def p [symmetric]
  by (rule queues_refresh, rule queues_ready_unlink [OF q m]) (simp_all add: p)

lemma queues_wait_enqueue:
  assumes q: "queues s rq wq" and n: "\<not> queued rq wq t"
  shows "queues (wait_enqueue t s) rq (wq @ [t])"
proof -
  note R = queues_ready_ring [OF q] and W = queues_wait_ring [OF q]
  have nt: "t \<notin> set (rq i)" "t \<notin> set wq" for i
    using n by (auto simp: queued_def in_ready_def)
  have dj: "set (rq i) \<inter> set wq = {}" for i
    using queues_ready_not_wait [OF q] by blast
  have "ring (list_append WaitHead (Task t) (lk s)) (ReadyHead i) (map Task (rq i))"
    if "i < 256" for i
    using list_append_other_ring [OF W R [OF that], of "Task t"] nt dj [of i] by fastforce
  moreover have "ring (list_append WaitHead (Task t) (lk s)) WaitHead (map Task (wq @ [t]))"
    using list_append_ring [OF W, of "Task t"] nt by auto
  ultimately show ?thesis using q nt unfolding queues_def by auto
qed

lemma queues_wait_remove:
  assumes q: "queues s rq wq" and m: "t \<in> set wq"
  shows "queues (wait_remove t s) rq (remove1 t wq)"
proof -
  note R = queues_ready_ring [OF q] and W = queues_wait_ring [OF q]
  obtain xs ys where w: "wq = xs @ t # ys" and nx: "t \<notin> set xs"
    using split_list_first [OF m] by auto
  have w': "remove1 t wq = xs @ ys" using w nx by (simp add: remove1_append)
  have Wp: "ring (lk s) WaitHead (map Task xs @ Task t # map Task ys)" using W by (simp add: w)
  have dj: "set (rq i) \<inter> set wq = {}" for i
    using queues_ready_not_wait [OF q] by blast
  have "ring (list_remove (Task t) (lk s)) (ReadyHead i) (map Task (rq i))" if "i < 256" for i
    using list_remove_other_ring [OF Wp R [OF that]] dj [of i] by (fastforce simp: w)
  moreover have "ring (list_remove (Task t) (lk s)) WaitHead (map Task (remove1 t wq))"
    using list_remove_ring [OF Wp] by (simp add: w')
  moreover have "set (remove1 t wq) \<subseteq> set wq" by (rule set_remove1_subset)
  ultimately show ?thesis using q unfolding queues_def by auto
qed

section \<open>Links of unqueued slots\<close>

text \<open>A slot in use that is in no queue is linked to itself; a slot never used has null links.\<close>

definition linked :: "'c sched \<Rightarrow> (nat \<Rightarrow> nat list) \<Rightarrow> nat list \<Rightarrow> bool" where
  "linked s rq wq \<longleftrightarrow>
     (\<forall>t. if queued rq wq t then t < g_task_count s
          else if t < g_task_count s
               then ln_Succ (lk s) (Task t) = Task t \<and> ln_Pred (lk s) (Task t) = Task t
               else ln_Succ (lk s) (Task t) = Null)"

definition wfq :: "'c sched \<Rightarrow> (nat \<Rightarrow> nat list) \<Rightarrow> nat list \<Rightarrow> bool" where
  "wfq s rq wq \<longleftrightarrow> queues s rq wq \<and> linked s rq wq"

lemma wfq_queues: "wfq s rq wq \<Longrightarrow> queues s rq wq"
  by (simp add: wfq_def)

lemma wfq_cong:
  "lk s' = lk s \<Longrightarrow> g_ready_map s' = g_ready_map s \<Longrightarrow> g_task_count s' = g_task_count s \<Longrightarrow>
   wfq s' rq wq = wfq s rq wq"
  by (simp add: wfq_def linked_def queues_cong [of s' s])

lemma linked_step:
  assumes "linked s rq wq" and "g_task_count s' = g_task_count s" and "t < g_task_count s"
    and "\<And>u. u \<noteq> t \<Longrightarrow> queued rq' wq' u = queued rq wq u"
    and "\<And>u. u \<noteq> t \<Longrightarrow> \<not> queued rq wq u \<Longrightarrow> ln_Succ (lk s') (Task u) = ln_Succ (lk s) (Task u) \<and>
           ln_Pred (lk s') (Task u) = ln_Pred (lk s) (Task u)"
    and "queued rq' wq' t \<or> ln_Succ (lk s') (Task t) = Task t \<and> ln_Pred (lk s') (Task t) = Task t"
  shows "linked s' rq' wq'"
  unfolding linked_def
proof (rule allI)
  fix u
  show "if queued rq' wq' u then u < g_task_count s'
        else if u < g_task_count s'
             then ln_Succ (lk s') (Task u) = Task u \<and> ln_Pred (lk s') (Task u) = Task u
             else ln_Succ (lk s') (Task u) = Null"
    using assms(1) [unfolded linked_def, rule_format, of u] assms(2-6)
    by (cases "u = t") (auto split: if_splits)
qed

lemma wfq_bound: "wfq s rq wq \<Longrightarrow> queued rq wq t \<Longrightarrow> t < g_task_count s"
  by (auto simp: wfq_def linked_def split: if_splits)

lemma wfq_ready_enqueue:
  assumes q: "wfq s rq wq" and n: "\<not> queued rq wq t" and t: "t < g_task_count s"
    and p: "p = task_idx s t"
  shows "wfq (ready_enqueue t s) (rq(p := rq p @ [t])) wq"
proof -
  have r: "ring (lk s) (ReadyHead p) (map Task (rq p))"
    using queues_ready_ring [OF wfq_queues [OF q]] by (simp add: p)
  have "linked (ready_enqueue t s) (rq(p := rq p @ [t])) wq"
  proof (rule linked_step [where s = s and rq = rq and wq = wq and t = t])
    fix u assume "u \<noteq> t" and "\<not> queued rq wq u"
    then show "ln_Succ (lk (ready_enqueue t s)) (Task u) = ln_Succ (lk s) (Task u) \<and>
               ln_Pred (lk (ready_enqueue t s)) (Task u) = ln_Pred (lk s) (Task u)"
      using list_append_frame [OF r, of "Task u" "Task t"]
      by (auto simp: p [symmetric] queued_def in_ready_def)
  qed (use q t in \<open>auto simp: wfq_def queued_def in_ready_def\<close>)
  then show ?thesis
    using queues_ready_enqueue [OF wfq_queues [OF q] n p] by (simp add: wfq_def)
qed

lemma in_ready_upd:
  "in_ready (rq(p := xs)) u \<longleftrightarrow> u \<in> set xs \<or> (\<exists>i. i \<noteq> p \<and> u \<in> set (rq i))"
  unfolding in_ready_def by (metis fun_upd_other fun_upd_same)

lemma in_ready_split: "in_ready rq u \<longleftrightarrow> u \<in> set (rq p) \<or> (\<exists>i. i \<noteq> p \<and> u \<in> set (rq i))"
  unfolding in_ready_def by metis

lemma queued_remove_ready:
  assumes q: "queues s rq wq" and m: "t \<in> set (rq p)"
  shows "queued (rq(p := remove1 t (rq p))) wq u \<longleftrightarrow> queued rq wq u \<and> u \<noteq> t"
proof -
  have "set (remove1 t (rq p)) = set (rq p) - {t}"
    by (rule set_remove1_eq [OF queues_distinct_ready [OF q]])
  moreover have "t \<notin> set (rq i)" if "i \<noteq> p" for i using queues_disjoint [OF q m] that by blast
  moreover have "t \<notin> set wq" using queues_ready_not_wait [OF q m] .
  ultimately show ?thesis
    unfolding queued_def in_ready_upd in_ready_split [of rq u p] by blast
qed

lemma queued_remove_wait:
  assumes q: "queues s rq wq" and m: "t \<in> set wq"
  shows "queued rq (remove1 t wq) u \<longleftrightarrow> queued rq wq u \<and> u \<noteq> t"
  using queues_distinct_wait [OF q] queues_ready_not_wait [OF q, of t] m
  by (auto simp: queued_def in_ready_def)

lemma linked_remove:
  assumes l: "linked s rq wq" and r: "ring (lk s) h (map Task (xs @ t # ys))"
    and h: "h \<notin> range Task" and x: "\<And>u. u \<in> set (xs @ t # ys) \<Longrightarrow> queued rq wq u"
    and s': "lk s' = list_remove (Task t) (lk s)" "g_task_count s' = g_task_count s"
    and n: "\<And>u. queued rq' wq' u \<longleftrightarrow> queued rq wq u \<and> u \<noteq> t"
  shows "linked s' rq' wq'"
proof (rule linked_step [OF l s'(2)])
  show "t < g_task_count s" using l x [of t] by (auto simp: linked_def split: if_splits)
  fix u assume "u \<noteq> t" and "\<not> queued rq wq u"
  then have "Task u \<notin> insert h (set (map Task xs @ Task t # map Task ys))"
    using x h by auto
  with r show "ln_Succ (lk s') (Task u) = ln_Succ (lk s) (Task u) \<and>
               ln_Pred (lk s') (Task u) = ln_Pred (lk s) (Task u)"
    unfolding s'(1) by (auto intro: list_remove_frame)
qed (auto simp: n s'(1))

lemma wfq_ready_unlink:
  assumes q: "wfq s rq wq" and m: "t \<in> set (rq p)"
    and s': "lk s' = list_remove (Task t) (lk s)" "g_task_count s' = g_task_count s"
      "g_ready_map s' = g_ready_map s"
  shows "wfq s' (rq(p := remove1 t (rq p))) wq"
proof -
  note Q = wfq_queues [OF q]
  obtain xs ys where x: "rq p = xs @ t # ys" using split_list [OF m] by blast
  have "p < 256" by (rule queues_level_bound [OF Q m])
  with queues_ready_ring [OF Q] have r: "ring (lk s) (ReadyHead p) (map Task (xs @ t # ys))"
    by (metis x)
  have "linked s' (rq(p := remove1 t (rq p))) wq"
  proof (rule linked_remove [OF _ r _ _ s'(1,2) queued_remove_ready [OF Q m]])
    show "queued rq wq u" if "u \<in> set (xs @ t # ys)" for u
      using that unfolding x [symmetric] by (auto simp: queued_def in_ready_def)
  qed (use q in \<open>auto simp: wfq_def\<close>)
  then show ?thesis
    using queues_ready_unlink [OF Q m s'(1)] s'(3) by (simp add: wfq_def)
qed

lemma wfq_refresh: "wfq s rq wq \<Longrightarrow> p < 256 \<Longrightarrow> wfq (refresh_ready_bit p s) rq wq"
  by (simp add: wfq_def queues_refresh linked_def)

lemma wfq_ready_remove:
  assumes "wfq s rq wq" and "t \<in> set (rq p)" and "p = task_idx s t"
  shows "wfq (ready_remove t s) (rq(p := remove1 t (rq p))) wq"
  unfolding ready_remove_def Let_def assms(3) [symmetric]
  by (rule wfq_refresh, rule wfq_ready_unlink [OF assms(1,2)]) (simp_all add: assms(3))

lemma wfq_wait_enqueue:
  assumes q: "wfq s rq wq" and n: "\<not> queued rq wq t" and t: "t < g_task_count s"
  shows "wfq (wait_enqueue t s) rq (wq @ [t])"
proof -
  note r = queues_wait_ring [OF wfq_queues [OF q]]
  have "linked (wait_enqueue t s) rq (wq @ [t])"
  proof (rule linked_step [where s = s and rq = rq and wq = wq and t = t])
    fix u assume "u \<noteq> t" and "\<not> queued rq wq u"
    then show "ln_Succ (lk (wait_enqueue t s)) (Task u) = ln_Succ (lk s) (Task u) \<and>
               ln_Pred (lk (wait_enqueue t s)) (Task u) = ln_Pred (lk s) (Task u)"
      using list_append_frame [OF r, of "Task u" "Task t"] by (auto simp: queued_def)
  qed (use q t in \<open>auto simp: wfq_def queued_def\<close>)
  then show ?thesis using queues_wait_enqueue [OF wfq_queues [OF q] n] by (simp add: wfq_def)
qed

lemma wfq_wait_remove:
  assumes q: "wfq s rq wq" and m: "t \<in> set wq"
  shows "wfq (wait_remove t s) rq (remove1 t wq)"
proof -
  note Q = wfq_queues [OF q]
  obtain xs ys where x: "wq = xs @ t # ys" using split_list [OF m] by blast
  with queues_wait_ring [OF Q] have r: "ring (lk s) WaitHead (map Task (xs @ t # ys))" by metis
  have "linked (wait_remove t s) rq (remove1 t wq)"
  proof (rule linked_remove [OF _ r _ _ wait_remove_sel(1) wait_remove_sel(4) queued_remove_wait [OF Q m]])
    show "queued rq wq u" if "u \<in> set (xs @ t # ys)" for u
      using that unfolding x [symmetric] by (auto simp: queued_def)
  qed (use q in \<open>auto simp: wfq_def\<close>)
  then show ?thesis using queues_wait_remove [OF Q m] by (simp add: wfq_def)
qed

section \<open>Dispatch order\<close>

text \<open>What \<open>ready_dequeue_highest\<close> is meant to do, level by level from the top: drop dead
  tasks at the front of a level, take the first live one, and go down when the level is
  exhausted.\<close>

fun deq_spec :: "(nat \<Rightarrow> bool) \<Rightarrow> nat \<Rightarrow> (nat \<Rightarrow> nat list) \<Rightarrow> nat option \<times> (nat \<Rightarrow> nat list)" where
  "deq_spec dead 0 rq = (None, rq)"
| "deq_spec dead (Suc i) rq =
     (case dropWhile dead (rq i) of
        [] \<Rightarrow> deq_spec dead i (rq(i := []))
      | t # ts \<Rightarrow> (Some t, rq(i := ts)))"

lemma deq_spec_skip:
  assumes "n \<le> m" and "\<And>i. n \<le> i \<Longrightarrow> i < m \<Longrightarrow> rq i = []"
  shows "deq_spec dead m rq = deq_spec dead n rq"
  using assms
proof (induction m)
  case (Suc m)
  show ?case
  proof (cases "n = Suc m")
    case False
    then have "rq m = []" and n: "n \<le> m" using Suc.prems by auto
    then have "rq(m := []) = rq" by auto
    with \<open>rq m = []\<close> n Suc show ?thesis by simp
  qed simp
qed simp

lemma deq_spec_drop:
  assumes "rq i = t # ts" and "dead t"
  shows "deq_spec dead (Suc i) rq = deq_spec dead (Suc i) (rq(i := ts))"
  using assms by (cases "dropWhile dead ts") (simp_all del: dropWhile_eq_Nil_conv)

lemma clzll_gen:
  assumes "\<exists>i<n. bit (w :: u64) i"
  shows "let m = length (takeWhile (\<lambda>i. \<not> bit w i) (rev [0..<n]))
         in m < n \<and> bit w (n - 1 - m) \<and> (\<forall>j. n - 1 - m < j \<and> j < n \<longrightarrow> \<not> bit w j)"
  using assms
proof (induction n)
  case (Suc n)
  show ?case
  proof (cases "bit w n")
    case False
    then have ex: "\<exists>i<n. bit w i" using Suc.prems by (metis less_SucE)
    define m where "m = length (takeWhile (\<lambda>i. \<not> bit w i) (rev [0..<n]))"
    have m: "m < n" "bit w (n - 1 - m)" "\<forall>j. n - 1 - m < j \<and> j < n \<longrightarrow> \<not> bit w j"
      using Suc.IH [OF ex] unfolding Let_def m_def by blast+
    have "length (takeWhile (\<lambda>i. \<not> bit w i) (rev [0..<Suc n])) = Suc m"
      using False by (simp add: m_def)
    moreover have "Suc n - 1 - Suc m = n - 1 - m" by simp
    moreover have "\<not> bit w j" if "n - 1 - m < j" "j < Suc n" for j
      using m(3) that False by (metis less_SucE)
    ultimately show ?thesis using m(1,2) unfolding Let_def by (metis Suc_mono)
  qed (auto simp: Let_def)
qed simp

lemma top_bit:
  assumes "(w :: u64) \<noteq> 0"
  shows "63 - clzll w < 64" and "bit w (63 - clzll w)"
    and "63 - clzll w < j \<Longrightarrow> \<not> bit w j"
proof -
  have "\<exists>i<64. bit w i"
  proof (rule ccontr)
    assume "\<not> (\<exists>i<64. bit w i)"
    then have "w = 0" by (intro bit_word_eqI) simp
    with assms show False ..
  qed
  note g = clzll_gen [OF this, folded clzll_def, unfolded Let_def]
  from g show "63 - clzll w < 64" and "bit w (63 - clzll w)" by simp_all
  show "63 - clzll w < j \<Longrightarrow> \<not> bit w j"
    using g by (cases "j < 64") (auto dest: bit_imp_le_length)
qed

text \<open>The inner loop terminates: each turn clears a bitmap bit or takes a task off a queue.\<close>

definition ready_size :: "(nat \<Rightarrow> nat list) \<Rightarrow> nat" where
  "ready_size rq = (\<Sum>i<256. length (rq i))"

definition bit_count :: "u64 \<Rightarrow> nat" where
  "bit_count w = card {i. i < 64 \<and> bit w i}"

lemma ready_size_drop:
  assumes "i < 256" and "rq i = t # ts"
  shows "ready_size (rq(i := ts)) < ready_size rq"
  unfolding ready_size_def using assms by (intro sum_strict_mono_ex1) auto

lemma ready_size_same: "rq i = [] \<Longrightarrow> ready_size (rq(i := [])) = ready_size rq"
  by (simp add: ready_size_def fun_upd_idem)

lemma refresh_bit_count:
  assumes "bit (g_ready_map s (i div 64)) (i mod 64)"
  shows "bit_count (g_ready_map (refresh_ready_bit i s) (i div 64)) \<le> bit_count (g_ready_map s (i div 64))"
    and "list_empty (ReadyHead i) (lk s) \<Longrightarrow>
      bit_count (g_ready_map (refresh_ready_bit i s) (i div 64)) < bit_count (g_ready_map s (i div 64))"
proof -
  show "bit_count (g_ready_map (refresh_ready_bit i s) (i div 64)) \<le> bit_count (g_ready_map s (i div 64))"
    unfolding bit_count_def bit_refresh using assms by (intro card_mono) auto
  show "bit_count (g_ready_map (refresh_ready_bit i s) (i div 64)) < bit_count (g_ready_map s (i div 64))"
    if "list_empty (ReadyHead i) (lk s)"
  proof -
    have "{j. j < 64 \<and> bit (g_ready_map (refresh_ready_bit i s) (i div 64)) j} \<subset>
          {j. j < 64 \<and> bit (g_ready_map s (i div 64)) j}"
      unfolding bit_refresh psubset_eq using assms that
      by (auto simp: set_eq_iff intro!: exI [of _ "i mod 64"])
    then show ?thesis unfolding bit_count_def by (intro psubset_card_mono) auto
  qed
qed

definition same_but_queues :: "'c sched \<Rightarrow> 'c sched \<Rightarrow> bool" where
  "same_but_queues s s' \<longleftrightarrow> (\<exists>l m. s' = s\<lparr>lk := l, g_ready_map := m\<rparr>)"

lemma same_but_queuesI: "s' = s\<lparr>lk := l, g_ready_map := m\<rparr> \<Longrightarrow> same_but_queues s s'"
  unfolding same_but_queues_def by blast

lemma same_but_queues_refl [simp]: "same_but_queues s s"
  by (rule same_but_queuesI [where l = "lk s" and m = "g_ready_map s"]) simp

lemma same_but_queues_trans [trans]:
  assumes "same_but_queues a b" and "same_but_queues b c"
  shows "same_but_queues a c"
proof -
  obtain l m where "b = a\<lparr>lk := l, g_ready_map := m\<rparr>"
    using assms(1) unfolding same_but_queues_def by blast
  moreover obtain l' m' where "c = b\<lparr>lk := l', g_ready_map := m'\<rparr>"
    using assms(2) unfolding same_but_queues_def by blast
  ultimately have "c = a\<lparr>lk := l', g_ready_map := m'\<rparr>" by simp
  then show ?thesis by (rule same_but_queuesI)
qed

lemma same_but_queues_refresh: "same_but_queues s (refresh_ready_bit i (s\<lparr>lk := l\<rparr>))"
  by (rule same_but_queuesI [where l = l and
        m = "g_ready_map (refresh_ready_bit i (s\<lparr>lk := l\<rparr>))"])
     (simp add: refresh_ready_bit_def Let_def)

lemma same_but_queues_tasks: "same_but_queues s s' \<Longrightarrow> g_tasks s' = g_tasks s"
  unfolding same_but_queues_def by auto

abbreviation dead :: "'c sched \<Rightarrow> nat \<Rightarrow> bool" where
  "dead s t \<equiv> tc_State (g_tasks s t) = TASK_REMOVED"

lemma ready_dequeue_from_spec:
  assumes "wfq s rq wq" and "w < 4"
  shows "\<exists>s'. ready_dequeue_from w s = Some (fst (deq_spec (dead s) (64 * w + 64) rq), s') \<and>
          wfq s' (snd (deq_spec (dead s) (64 * w + 64) rq)) wq \<and> same_but_queues s s'"
  using assms
proof (induction "(w, bit_count (g_ready_map s w) + ready_size rq)" arbitrary: w s rq
    rule: wf_induct_rule [OF wf_lex_prod [OF wf_less_than wf_less_than]])
  case (1 w s rq)
  note q = "1.prems"(1) and Q = wfq_queues [OF "1.prems"(1)] and w4 = "1.prems"(2)
  show ?case
  proof (cases "g_ready_map s w = 0")
    case True
    have e: "rq i = []" if "64 * w \<le> i" "i < 64 * w + 64" for i
    proof (rule ccontr)
      assume "rq i \<noteq> []"
      moreover have "i div 64 = w" using that by simp
      ultimately show False using queues_bit [OF Q, of i] True by simp
    qed
    have skip: "deq_spec d (64 * w + 64) rq = deq_spec d (64 * w) rq" for d
      by (rule deq_spec_skip) (use e in auto)
    show ?thesis
    proof (cases w)
      case 0
      with True skip q show ?thesis by (subst ready_dequeue_from.simps) simp
    next
      case (Suc v)
      have "\<exists>s'. ready_dequeue_from v s = Some (fst (deq_spec (dead s) (64 * v + 64) rq), s') \<and>
          wfq s' (snd (deq_spec (dead s) (64 * v + 64) rq)) wq \<and> same_but_queues s s'"
        by (rule "1.hyps") (use Suc w4 q in auto)
      with True skip Suc show ?thesis
        by (subst ready_dequeue_from.simps) (simp add: algebra_simps)
    qed
  next
    case False
    define k where "k = 63 - clzll (g_ready_map s w)"
    define i where "i = 64 * w + k"
    note tb = top_bit [OF False, folded k_def]
    have i: "i < 256" "i div 64 = w" "i mod 64 = k" using tb(1) w4 by (auto simp: i_def)
    have e: "rq j = []" if "Suc i \<le> j" "j < 64 * w + 64" for j
    proof (rule ccontr)
      assume "rq j \<noteq> []"
      moreover define r where "r = j - 64 * w"
      moreover have r: "j = 64 * w + r" "k < r" "r < 64" using that by (auto simp: i_def r_def)
      moreover have "j div 64 = w" "j mod 64 = r" using r by simp_all
      ultimately show False using queues_bit [OF Q, of j] tb(3) by metis
    qed
    have skip: "deq_spec d (64 * w + 64) rq = deq_spec d (Suc i) rq" for d
      by (rule deq_spec_skip) (use e tb(1) in \<open>auto simp: i_def\<close>)
    have unf: "ready_dequeue_from w s =
        (case list_remove_head (ReadyHead i) (lk s) of (t, l) \<Rightarrow>
           let s = refresh_ready_bit i (s\<lparr>lk := l\<rparr>) in
           case t of None \<Rightarrow> ready_dequeue_from w s
           | Some n \<Rightarrow> if tc_State (g_tasks s (task_of n)) \<noteq> TASK_REMOVED
                        then Some (Some (task_of n), s) else ready_dequeue_from w s)"
      using False by (subst ready_dequeue_from.simps) (simp add: Let_def i_def k_def)
    note R = queues_ready_ring [OF Q i(1)]
    show ?thesis
    proof (cases "rq i")
      case Nil
      let ?s1 = "refresh_ready_bit i s"
      have hd: "list_remove_head (ReadyHead i) (lk s) = (None, lk s)"
        using R Nil by (simp add: list_remove_head_Nil)
      have "bit_count (g_ready_map ?s1 w) < bit_count (g_ready_map s w)"
        using refresh_bit_count(2) [of s i] tb(2) R Nil ring_empty_iff [OF R] by (simp add: i)
      with 1 have "\<exists>s'. ready_dequeue_from w ?s1 = Some (fst (deq_spec (dead ?s1) (64 * w + 64) rq), s') \<and>
          wfq s' (snd (deq_spec (dead ?s1) (64 * w + 64) rq)) wq \<and> same_but_queues ?s1 s'"
        by (intro "1.hyps") (auto intro: wfq_refresh i(1))
      moreover have "ready_dequeue_from w s = ready_dequeue_from w ?s1" by (simp add: unf hd)
      moreover have sb: "same_but_queues s ?s1" using same_but_queues_refresh [of s i "lk s"] by simp
      ultimately show ?thesis
        unfolding same_but_queues_tasks [OF sb] using same_but_queues_trans [OF sb] by metis
    next
      case (Cons t ts)
      let ?s1 = "refresh_ready_bit i (s\<lparr>lk := list_remove (Task t) (lk s)\<rparr>)"
      have hd: "list_remove_head (ReadyHead i) (lk s) = (Some (Task t), list_remove (Task t) (lk s))"
        using R Cons by (simp add: list_remove_head_Cons)
      have q1: "wfq ?s1 (rq(i := ts)) wq"
        using wfq_ready_unlink [OF q, of t i "s\<lparr>lk := list_remove (Task t) (lk s)\<rparr>"] Cons
        by (intro wfq_refresh i(1)) simp
      note sb = same_but_queues_refresh [of s i "list_remove (Task t) (lk s)"]
      note st [simp] = same_but_queues_tasks [OF sb]
      show ?thesis
      proof (cases "dead s t")
        case True
        have "bit_count (g_ready_map ?s1 w) \<le> bit_count (g_ready_map s w)"
          using refresh_bit_count(1) [of "s\<lparr>lk := list_remove (Task t) (lk s)\<rparr>" i] tb(2) by (simp add: i)
        then have "bit_count (g_ready_map ?s1 w) + ready_size (rq(i := ts))
                     < bit_count (g_ready_map s w) + ready_size rq"
          using ready_size_drop [of i rq t ts] i(1) Cons by linarith
        then have "\<exists>s'. ready_dequeue_from w ?s1
              = Some (fst (deq_spec (dead ?s1) (64 * w + 64) (rq(i := ts))), s') \<and>
            wfq s' (snd (deq_spec (dead ?s1) (64 * w + 64) (rq(i := ts)))) wq \<and> same_but_queues ?s1 s'"
          by (intro "1.hyps" q1 w4) auto
        moreover have "deq_spec (dead s) (64 * w + 64) rq = deq_spec (dead s) (64 * w + 64) (rq(i := ts))"
        proof -
          have "deq_spec (dead s) (64 * w + 64) (rq(i := ts)) = deq_spec (dead s) (Suc i) (rq(i := ts))"
            by (rule deq_spec_skip) (use e tb(1) in \<open>auto simp: i_def\<close>)
          then show ?thesis unfolding skip using deq_spec_drop [of rq i t ts "dead s"] Cons True by metis
        qed
        moreover have "ready_dequeue_from w s = ready_dequeue_from w ?s1"
          using True by (simp add: unf hd task_of_def)
        ultimately show ?thesis unfolding st using same_but_queues_trans [OF sb] by metis
      next
        case False
        then have "ready_dequeue_from w s = Some (Some t, ?s1)" by (simp add: unf hd task_of_def)
        moreover have "deq_spec (dead s) (64 * w + 64) rq = (Some t, rq(i := ts))"
          unfolding skip using Cons False by simp
        ultimately show ?thesis using q1 sb by simp
      qed
    qed
  qed
qed

lemma deq_spec_Some:
  assumes "deq_spec gone n rq = (Some t, rq')"
  shows "\<exists>i<n. \<exists>ds ts. rq i = ds @ t # ts \<and> (\<forall>d\<in>set ds. gone d) \<and> \<not> gone t \<and> rq' i = ts \<and>
           (\<forall>j<n. i < j \<longrightarrow> (\<forall>d\<in>set (rq j). gone d) \<and> rq' j = []) \<and>
           (\<forall>j. j < i \<or> n \<le> j \<longrightarrow> rq' j = rq j)"
  using assms
proof (induction n arbitrary: rq)
  case (Suc n)
  show ?case
  proof (cases "dropWhile gone (rq n)")
    case Nil
    then have a: "\<forall>d\<in>set (rq n). gone d" by (simp add: dropWhile_eq_Nil_conv)
    have "deq_spec gone n (rq(n := [])) = (Some t, rq')" using Suc.prems Nil by simp
    from Suc.IH [OF this] obtain i ds ts where i: "i < n" "(rq(n := [])) i = ds @ t # ts"
      "\<forall>d\<in>set ds. gone d" "\<not> gone t" "rq' i = ts"
      "\<forall>j<n. i < j \<longrightarrow> (\<forall>d\<in>set ((rq(n := [])) j). gone d) \<and> rq' j = []"
      "\<forall>j. j < i \<or> n \<le> j \<longrightarrow> rq' j = (rq(n := [])) j" by blast
    have "rq' n = []" using i(7) by simp
    moreover have "rq i = ds @ t # ts" using i(1,2) by simp
    moreover have "\<forall>j. j < i \<or> Suc n \<le> j \<longrightarrow> rq' j = rq j" using i(1,7) by simp
    ultimately show ?thesis using a i(1,3-6) by (intro exI [of _ i]) (auto simp: less_Suc_eq)
  next
    case (Cons u us)
    then have "u = t" "rq' = rq(n := us)" using Suc.prems by auto
    moreover have "rq n = takeWhile gone (rq n) @ u # us" using takeWhile_dropWhile_id [of gone "rq n"] Cons by simp
    moreover have "\<not> gone u" using hd_dropWhile [of gone "rq n"] Cons by simp
    ultimately show ?thesis
      by (intro exI [of _ n] conjI exI [of _ "takeWhile gone (rq n)"] exI [of _ us])
         (auto dest: set_takeWhileD)
  qed
qed simp

lemma deq_spec_None:
  assumes "deq_spec gone n rq = (None, rq')" and "j < n"
  shows "\<forall>d\<in>set (rq j). gone d"
  using assms
proof (induction n arbitrary: rq)
  case (Suc n)
  show ?case
  proof (cases "dropWhile gone (rq n)")
    case Nil
    then have "\<forall>d\<in>set (rq n). gone d" by (simp add: dropWhile_eq_Nil_conv)
    moreover have "deq_spec gone n (rq(n := [])) = (None, rq')" using Suc.prems Nil by simp
    note Suc.IH [OF this]
    ultimately show ?thesis using Suc.prems(2) by (cases "j = n") auto
  qed (use Suc.prems in simp)
qed simp

lemma ready_dequeue_highest_spec:
  assumes "wfq s rq wq"
  shows "\<exists>s'. ready_dequeue_highest s = Some (fst (deq_spec (dead s) 256 rq), s') \<and>
          wfq s' (snd (deq_spec (dead s) 256 rq)) wq \<and> same_but_queues s s'"
  using ready_dequeue_from_spec [OF assms, of 3] by (simp add: ready_dequeue_highest_def)

section \<open>The ready-queue interface\<close>

text \<open>What the scheduler relies on: a queue state represents one list per level; enqueueing
  appends to the task's level, and dequeueing takes the first live task of the highest level
  that has one.\<close>

locale ready_queue =
  fixes rep :: "'s \<Rightarrow> (nat \<Rightarrow> nat list) \<Rightarrow> nat list \<Rightarrow> bool"
    and lvl :: "'s \<Rightarrow> nat \<Rightarrow> nat"
    and gone :: "'s \<Rightarrow> nat \<Rightarrow> bool"
    and valid :: "'s \<Rightarrow> nat \<Rightarrow> bool"
    and enq :: "nat \<Rightarrow> 's \<Rightarrow> 's"
    and deq :: "'s \<Rightarrow> (nat option \<times> 's) option"
  assumes lvl_bound: "lvl s t < 256"
    and enq_rep: "rep s rq wq \<Longrightarrow> valid s t \<Longrightarrow> \<not> queued rq wq t \<Longrightarrow>
          rep (enq t s) (rq(lvl s t := rq (lvl s t) @ [t])) wq"
    and enq_live: "gone (enq t s) u \<longleftrightarrow> u \<noteq> t \<and> gone s u"
    and deq_rep: "rep s rq wq \<Longrightarrow> \<exists>s'. deq s = Some (fst (deq_spec (gone s) 256 rq), s') \<and>
          rep s' (snd (deq_spec (gone s) 256 rq)) wq"
begin

lemma deq_terminates: "rep s rq wq \<Longrightarrow> \<exists>r. deq s = Some r"
  using deq_rep by blast

lemma deq_highest:
  assumes r: "rep s rq wq" and d: "deq s = Some (Some t, s')"
  shows "\<exists>i<256. t \<in> set (rq i) \<and> \<not> gone s t \<and>
           (\<forall>j<256. \<forall>u\<in>set (rq j). \<not> gone s u \<longrightarrow> j \<le> i) \<and>
           filter (\<lambda>u. \<not> gone s u) (rq i) = t # filter (\<lambda>u. \<not> gone s u) (tl (dropWhile (gone s) (rq i)))"
proof -
  obtain rq' where "deq_spec (gone s) 256 rq = (Some t, rq')"
    using deq_rep [OF r] d by (metis fst_conv option.inject prod.exhaust_sel)
  from deq_spec_Some [OF this] obtain i ds ts where
    i: "i < 256" "rq i = ds @ t # ts" "\<forall>d\<in>set ds. gone s d" "\<not> gone s t"
      "\<forall>j<256. i < j \<longrightarrow> (\<forall>d\<in>set (rq j). gone s d)" by blast
  have "dropWhile (gone s) (rq i) = t # ts" using i(2-4) by (simp add: dropWhile_append3)
  moreover have "filter (\<lambda>u. \<not> gone s u) ds = []" using i(3) by (simp add: filter_empty_conv)
  ultimately show ?thesis using i by (intro exI [of _ i]) (auto simp: not_less [symmetric])
qed

lemma deq_idle: "rep s rq wq \<Longrightarrow> deq s = Some (None, s') \<Longrightarrow> j < 256 \<Longrightarrow> u \<in> set (rq j) \<Longrightarrow> gone s u"
  using deq_rep [of s rq wq] deq_spec_None [of "gone s" 256 rq] by (metis fst_conv option.inject prod.exhaust_sel)

lemma enq_not_idle:
  assumes r: "rep s rq wq" and t: "valid s t" "\<not> queued rq wq t"
  shows "\<exists>u s'. deq (enq t s) = Some (Some u, s')"
proof -
  let ?rq = "rq(lvl s t := rq (lvl s t) @ [t])"
  note r' = enq_rep [OF r t]
  obtain x s' where x: "deq (enq t s) = Some (x, s')" using deq_rep [OF r'] by blast
  have "x \<noteq> None"
  proof
    assume "x = None"
    then have "gone (enq t s) t" using deq_idle [OF r', of s' "lvl s t" t] x lvl_bound by simp
    then show False by (simp add: enq_live)
  qed
  with x show ?thesis by auto
qed

end

interpretation rq: ready_queue wfq "\<lambda>s t. task_idx s t" dead "\<lambda>s t. t < g_task_count s"
  ready_enqueue ready_dequeue_highest
proof
  show "\<exists>s'. ready_dequeue_highest s = Some (fst (deq_spec (dead s) 256 rq), s') \<and>
          wfq s' (snd (deq_spec (dead s) 256 rq)) wq" if "wfq s rq wq" for s :: "'a sched" and rq wq
    using ready_dequeue_highest_spec [OF that] by blast
qed (auto intro: wfq_ready_enqueue)

end
