(* ===== verification/Task_Inv.thy ===== *)
theory Task_Inv
  imports Task_Queues
begin

text \<open>
  The scheduler's state invariant: every task is in exactly the queue its state names, at the
  level of its priority; only the current task is RUNNING; no waiting task has a matching
  signal pending.  \<open>qinv X\<close> is the invariant with the tasks of \<open>X\<close> in transit (in no queue, state
  arbitrary), so that each queue operation has a small rule of its own.
\<close>

section \<open>Invariant\<close>

definition placed :: "'c sched \<Rightarrow> (nat \<Rightarrow> nat list) \<Rightarrow> nat list \<Rightarrow> nat \<Rightarrow> bool" where
  "placed s rq wq t \<longleftrightarrow>
     (t \<in> set wq \<longleftrightarrow> tc_State (g_tasks s t) = TASK_WAITING) \<and>
     (\<forall>i. t \<in> set (rq i) \<longrightarrow> dead s t \<or> tc_State (g_tasks s t) = TASK_READY \<and> i = task_idx s t) \<and>
     (tc_State (g_tasks s t) = TASK_READY \<longrightarrow> t \<in> set (rq (task_idx s t))) \<and>
     (tc_State (g_tasks s t) = TASK_RUNNING \<longrightarrow> g_current s = Some t)"

definition qinv :: "nat set \<Rightarrow> 'c sched \<Rightarrow> (nat \<Rightarrow> nat list) \<Rightarrow> nat list \<Rightarrow> bool" where
  "qinv X s rq wq \<longleftrightarrow> wfq s rq wq \<and> g_task_count s \<le> MAX_TASKS \<and>
     (\<forall>t\<in>X. t < g_task_count s \<and> \<not> queued rq wq t) \<and>
     (\<forall>t<g_task_count s. t \<notin> X \<longrightarrow> placed s rq wq t) \<and>
     (\<forall>t\<in>set wq. tc_SigRecvd (g_tasks s t) AND tc_SigWait (g_tasks s t) = 0) \<and>
     (\<forall>t p. t < g_task_count s \<longrightarrow> parent (g_tasks s t) = Some p \<longrightarrow> p < g_task_count s) \<and>
     (\<forall>t. g_eventpump_task s = Some t \<longrightarrow> t < g_task_count s)"

lemma qinvD:
  assumes "qinv X s rq wq"
  shows "wfq s rq wq" and "g_task_count s \<le> MAX_TASKS"
    and "t \<in> X \<Longrightarrow> t < g_task_count s \<and> \<not> queued rq wq t"
    and "t < g_task_count s \<Longrightarrow> t \<notin> X \<Longrightarrow> placed s rq wq t"
    and "t \<in> set wq \<Longrightarrow> tc_SigRecvd (g_tasks s t) AND tc_SigWait (g_tasks s t) = 0"
    and "t < g_task_count s \<Longrightarrow> parent (g_tasks s t) = Some p \<Longrightarrow> p < g_task_count s"
    and "g_eventpump_task s = Some t \<Longrightarrow> t < g_task_count s"
  using assms unfolding qinv_def by blast+

lemma qinvI:
  assumes "wfq s rq wq" and "g_task_count s \<le> MAX_TASKS"
    and "\<And>t. t \<in> X \<Longrightarrow> t < g_task_count s \<and> \<not> queued rq wq t"
    and "\<And>t. t < g_task_count s \<Longrightarrow> t \<notin> X \<Longrightarrow> placed s rq wq t"
    and "\<And>t. t \<in> set wq \<Longrightarrow> tc_SigRecvd (g_tasks s t) AND tc_SigWait (g_tasks s t) = 0"
    and "\<And>t p. t < g_task_count s \<Longrightarrow> parent (g_tasks s t) = Some p \<Longrightarrow> p < g_task_count s"
    and "\<And>t. g_eventpump_task s = Some t \<Longrightarrow> t < g_task_count s"
  shows "qinv X s rq wq"
  using assms unfolding qinv_def by blast

lemma placed_cong:
  assumes "\<And>i. t \<in> set (rq' i) \<longleftrightarrow> t \<in> set (rq i)" and "t \<in> set wq' \<longleftrightarrow> t \<in> set wq"
    and "tc_State (g_tasks s' t) = tc_State (g_tasks s t)" "ln_Pri (g_tasks s' t) = ln_Pri (g_tasks s t)"
    and "tc_State (g_tasks s t) = TASK_RUNNING \<Longrightarrow> g_current s' = g_current s"
  shows "placed s' rq' wq' t \<longleftrightarrow> placed s rq wq t"
  using assms unfolding placed_def by metis

lemma qinv_queued: "qinv X s rq wq \<Longrightarrow> queued rq wq t \<Longrightarrow> t < g_task_count s \<and> t \<notin> X"
  using wfq_bound [OF qinvD(1)] qinvD(3) by blast

lemma qinv_wait: "qinv X s rq wq \<Longrightarrow> t \<in> set wq \<Longrightarrow> t < g_task_count s \<and> t \<notin> X \<and> placed s rq wq t"
  using qinv_queued [of X s rq wq t] qinvD(4) by (auto simp: queued_def)

lemma qinv_waiting: "qinv X s rq wq \<Longrightarrow> t \<in> set wq \<Longrightarrow> tc_State (g_tasks s t) = TASK_WAITING"
  using qinv_wait [of X s rq wq t] by (auto simp: placed_def)

lemma qinv_ready: "qinv X s rq wq \<Longrightarrow> t \<in> set (rq i) \<Longrightarrow>
    t < g_task_count s \<and> t \<notin> X \<and> (dead s t \<or> tc_State (g_tasks s t) = TASK_READY \<and> i = task_idx s t)"
  using qinv_queued [of X s rq wq t] qinvD(4) [of X s rq wq t] unfolding queued_def in_ready_def placed_def by blast

text \<open>Changes that leave the queues alone; the fields of tasks in transit are free.\<close>

lemma qinv_frame:
  assumes i: "qinv X s rq wq"
    and q: "lk s' = lk s" "g_ready_map s' = g_ready_map s" "g_task_count s' = g_task_count s"
    and e: "g_eventpump_task s' = g_eventpump_task s"
    and t: "\<And>t. t \<notin> X \<Longrightarrow> tc_State (g_tasks s' t) = tc_State (g_tasks s t) \<and>
               ln_Pri (g_tasks s' t) = ln_Pri (g_tasks s t)"
    and r: "\<And>t. t < g_task_count s \<Longrightarrow> t \<notin> X \<Longrightarrow> tc_State (g_tasks s t) = TASK_RUNNING \<Longrightarrow>
               g_current s' = g_current s"
    and p: "\<And>t. parent (g_tasks s' t) = parent (g_tasks s t)"
    and w: "\<And>t. t \<in> set wq \<Longrightarrow> tc_SigRecvd (g_tasks s' t) AND tc_SigWait (g_tasks s' t) = 0"
  shows "qinv X s' rq wq"
proof (rule qinvI)
  show "wfq s' rq wq" using wfq_cong [OF q] qinvD(1) [OF i] by simp
  show "placed s' rq wq u" if "u < g_task_count s'" "u \<notin> X" for u
    using placed_cong [of u rq rq wq wq s' s] t [of u] r [of u] that qinvD(4) [OF i, of u] q(3) by auto
qed (use qinvD [OF i] assms in auto)

section \<open>Queue transitions\<close>

lemma qinv_out_wait:
  assumes i: "qinv X s rq wq" and t: "t \<in> set wq"
  shows "qinv (insert t X) (wait_remove t s) rq (remove1 t wq)"
proof (rule qinvI)
  note Q = wfq_queues [OF qinvD(1) [OF i]]
  note w' = set_remove1_eq [OF queues_distinct_wait [OF Q], of t]
  show "wfq (wait_remove t s) rq (remove1 t wq)" by (rule wfq_wait_remove [OF qinvD(1) [OF i] t])
  show "u < g_task_count (wait_remove t s) \<and> \<not> queued rq (remove1 t wq) u" if "u \<in> insert t X" for u
    using that qinv_wait [OF i t] qinvD(3) [OF i, of u] by (auto simp: queued_remove_wait [OF Q t])
  show "placed (wait_remove t s) rq (remove1 t wq) u"
    if "u < g_task_count (wait_remove t s)" "u \<notin> insert t X" for u
    using that qinvD(4) [OF i, of u] placed_cong [of u rq rq "remove1 t wq" wq "wait_remove t s" s]
    by (simp add: w')
  show "tc_SigRecvd (g_tasks (wait_remove t s) u) AND tc_SigWait (g_tasks (wait_remove t s) u) = 0"
    if "u \<in> set (remove1 t wq)" for u
    using that qinvD(5) [OF i, of u] by (simp add: w')
qed (use qinvD [OF i] in auto)

lemma qinv_out_ready:
  assumes i: "qinv X s rq wq" and t: "t \<in> set (rq p)" "p = task_idx s t"
  shows "qinv (insert t X) (ready_remove t s) (rq(p := remove1 t (rq p))) wq"
proof (rule qinvI)
  note Q = wfq_queues [OF qinvD(1) [OF i]]
  note r' = set_remove1_eq [OF queues_distinct_ready [OF Q], of t p]
  show "wfq (ready_remove t s) (rq(p := remove1 t (rq p))) wq"
    by (rule wfq_ready_remove [OF qinvD(1) [OF i] t])
  show "u < g_task_count (ready_remove t s) \<and> \<not> queued (rq(p := remove1 t (rq p))) wq u"
    if "u \<in> insert t X" for u
    using that qinv_ready [OF i t(1)] qinvD(3) [OF i, of u]
    by (auto simp: queued_remove_ready [OF Q t(1)] ready_remove_def Let_def)
  show "placed (ready_remove t s) (rq(p := remove1 t (rq p))) wq u"
    if "u < g_task_count (ready_remove t s)" "u \<notin> insert t X" for u
    using that qinvD(4) [OF i, of u]
      placed_cong [of u "rq(p := remove1 t (rq p))" rq wq wq "ready_remove t s" s]
    by (simp add: r' ready_remove_def Let_def)
qed (use qinvD [OF i] in \<open>auto simp: ready_remove_def Let_def\<close>)

lemma qinv_out:
  assumes i: "qinv X s rq wq" and "t < g_task_count s" and "\<not> queued rq wq t"
  shows "qinv (insert t X) s rq wq"
  by (rule qinvI) (use qinvD [OF i] assms in auto)

lemma qinv_in_ready:
  assumes i: "qinv X s rq wq" and t: "t \<in> X" and p: "p = task_idx s t"
  shows "qinv (X - {t}) (ready_enqueue t s) (rq(p := rq p @ [t])) wq"
proof (rule qinvI)
  have tc: "t < g_task_count s" "\<not> queued rq wq t" using qinvD(3) [OF i t] by auto
  show "wfq (ready_enqueue t s) (rq(p := rq p @ [t])) wq"
    by (rule wfq_ready_enqueue [OF qinvD(1) [OF i] tc(2,1) p])
  show "u < g_task_count (ready_enqueue t s) \<and> \<not> queued (rq(p := rq p @ [t])) wq u" if "u \<in> X - {t}" for u
    using that qinvD(3) [OF i, of u] by (auto simp: queued_def in_ready_def)
  show "placed (ready_enqueue t s) (rq(p := rq p @ [t])) wq u"
    if "u < g_task_count (ready_enqueue t s)" "u \<notin> X - {t}" for u
  proof (cases "u = t")
    case True
    then show ?thesis using tc(2) by (auto simp: placed_def queued_def in_ready_def p split: if_splits)
  next
    case False
    then show ?thesis
      using that qinvD(4) [OF i, of u] placed_cong [of u "rq(p := rq p @ [t])" rq wq wq "ready_enqueue t s" s]
      by simp
  qed
  show "tc_SigRecvd (g_tasks (ready_enqueue t s) u) AND tc_SigWait (g_tasks (ready_enqueue t s) u) = 0"
    if "u \<in> set wq" for u
    using that qinvD(5) [OF i, of u] by auto
qed (use qinvD [OF i] in \<open>auto split: if_splits\<close>)

lemma qinv_in_wait:
  assumes i: "qinv X s rq wq" and t: "t \<in> X"
    and w: "tc_SigRecvd (g_tasks s t) AND tc_SigWait (g_tasks s t) = 0"
  shows "qinv (X - {t}) (wait_enqueue t s) rq (wq @ [t])"
proof (rule qinvI)
  have tc: "t < g_task_count s" "\<not> queued rq wq t" using qinvD(3) [OF i t] by auto
  show "wfq (wait_enqueue t s) rq (wq @ [t])"
    by (rule wfq_wait_enqueue [OF qinvD(1) [OF i] tc(2,1)])
  show "u < g_task_count (wait_enqueue t s) \<and> \<not> queued rq (wq @ [t]) u" if "u \<in> X - {t}" for u
    using that qinvD(3) [OF i, of u] by (auto simp: queued_def in_ready_def)
  show "placed (wait_enqueue t s) rq (wq @ [t]) u"
    if "u < g_task_count (wait_enqueue t s)" "u \<notin> X - {t}" for u
  proof (cases "u = t")
    case True
    then show ?thesis using tc(2) by (auto simp: placed_def queued_def in_ready_def)
  next
    case False
    then show ?thesis
      using that qinvD(4) [OF i, of u] placed_cong [of u rq rq "wq @ [t]" wq "wait_enqueue t s" s] by simp
  qed
  show "tc_SigRecvd (g_tasks (wait_enqueue t s) u) AND tc_SigWait (g_tasks (wait_enqueue t s) u) = 0"
    if "u \<in> set (wq @ [t])" for u
    using that qinvD(5) [OF i, of u] w by auto
qed (use qinvD [OF i] in \<open>auto split: if_splits\<close>)

lemma qinv_in:
  assumes i: "qinv X s rq wq" and t: "t \<in> X"
    and "dead s t \<or> tc_State (g_tasks s t) = TASK_RUNNING \<and> g_current s = Some t"
  shows "qinv (X - {t}) s rq wq"
proof (rule qinvI)
  show "placed s rq wq u" if "u < g_task_count s" "u \<notin> X - {t}" for u
    using that qinvD(3) [OF i t] qinvD(4) [OF i, of u] assms(3)
    by (cases "u = t") (auto simp: placed_def queued_def in_ready_def)
qed (use qinvD [OF i] in auto)

section \<open>Dequeueing\<close>

lemma deq_spec_subset: "deq_spec gone n rq = (r, rq') \<Longrightarrow> u \<in> set (rq' j) \<Longrightarrow> u \<in> set (rq j)"
proof (induction n arbitrary: rq)
  case (Suc n)
  have "u \<in> set (rq n)" if "u \<in> set (dropWhile gone (rq n))"
    using that by (rule set_dropWhileD)
  with Suc show ?case by (fastforce split: list.splits if_splits simp: fun_upd_def)
qed simp

lemma deq_spec_keeps:
  "deq_spec gone n rq = (r, rq') \<Longrightarrow> u \<in> set (rq j) \<Longrightarrow> \<not> gone u \<Longrightarrow> r \<noteq> Some u \<Longrightarrow> u \<in> set (rq' j)"
proof (induction n arbitrary: rq)
  case (Suc n)
  show ?case
  proof (cases "dropWhile gone (rq n)")
    case Nil
    then have "\<forall>d\<in>set (rq n). gone d" by (simp add: dropWhile_eq_Nil_conv)
    then have "u \<in> set ((rq(n := [])) j)" using Suc.prems(2,3) by auto
    moreover have "deq_spec gone n (rq(n := [])) = (r, rq')" using Suc.prems(1) Nil by simp
    ultimately show ?thesis using Suc.IH Suc.prems by blast
  next
    case (Cons t ts)
    have "u \<in> set (dropWhile gone (rq n)) \<or> gone u" if "u \<in> set (rq n)"
      using that takeWhile_dropWhile_id [of gone "rq n"] by (metis Un_iff set_append set_takeWhileD)
    with Cons Suc.prems show ?thesis by (cases "j = n") (auto simp del: dropWhile_eq_Cons_conv)
  qed
qed simp

lemma dequeue_result:
  assumes w: "wfq s rq wq" and d: "ready_dequeue_highest s = Some (r, s')"
  obtains rq' where "deq_spec (dead s) 256 rq = (r, rq')" "wfq s' rq' wq" "same_but_queues s s'"
proof -
  obtain r0 rq0 where e: "deq_spec (dead s) 256 rq = (r0, rq0)" by fastforce
  from ready_dequeue_highest_spec [OF w] show thesis unfolding d e by (auto intro: that [of rq0] simp: e)
qed

lemma qinv_after_dequeue:
  assumes i: "qinv X s rq wq" and w: "wfq s' rq' wq" and sb: "same_but_queues s s'"
    and sub: "\<And>u j. u \<in> set (rq' j) \<Longrightarrow> u \<in> set (rq j)"
    and keep: "\<And>u j. u \<in> set (rq j) \<Longrightarrow> \<not> dead s u \<Longrightarrow> u \<notin> T \<Longrightarrow> u \<in> set (rq' j)"
    and T: "\<And>u. u \<in> T \<Longrightarrow> u < g_task_count s \<and> \<not> queued rq' wq u"
  shows "qinv (T \<union> X) s' rq' wq"
proof -
  obtain l m where s': "s' = s\<lparr>lk := l, g_ready_map := m\<rparr>" using sb unfolding same_but_queues_def by blast
  show ?thesis
  proof (rule qinvI)
    show "u < g_task_count s' \<and> \<not> queued rq' wq u" if "u \<in> T \<union> X" for u
      using that T [of u] qinvD(3) [OF i, of u] sub [of u] unfolding s' queued_def in_ready_def by auto
    show "placed s' rq' wq u" if "u < g_task_count s'" "u \<notin> T \<union> X" for u
    proof -
      have "placed s rq wq u" using that qinvD(4) [OF i, of u] by (simp add: s')
      then show ?thesis using sub [of u] keep [of u] that unfolding placed_def s' by simp
    qed
  qed (use w qinvD [OF i] in \<open>auto simp: s'\<close>)
qed

lemma qinv_dequeue_None:
  assumes i: "qinv X s rq wq" and d: "ready_dequeue_highest s = Some (None, s')"
  shows "\<exists>rq'. qinv X s' rq' wq" and "same_but_queues s s'"
    and "t < g_task_count s \<Longrightarrow> t \<notin> X \<Longrightarrow> tc_State (g_tasks s t) \<noteq> TASK_READY"
proof -
  obtain rq' where dq: "deq_spec (dead s) 256 rq = (None, rq')" and w: "wfq s' rq' wq"
    and sb: "same_but_queues s s'"
    by (rule dequeue_result [OF qinvD(1) [OF i] d])
  show "tc_State (g_tasks s t) \<noteq> TASK_READY" if t: "t < g_task_count s" "t \<notin> X" for t
  proof
    assume r: "tc_State (g_tasks s t) = TASK_READY"
    then have "t \<in> set (rq (task_idx s t))" using qinvD(4) [OF i t] by (simp add: placed_def)
    then show False using deq_spec_None [OF dq, of "task_idx s t"] r by auto
  qed
  show "same_but_queues s s'" by (fact sb)
  have "qinv ({} \<union> X) s' rq' wq"
    by (rule qinv_after_dequeue [OF i w sb]) (auto dest: deq_spec_subset [OF dq] intro: deq_spec_keeps [OF dq])
  then show "\<exists>rq'. qinv X s' rq' wq" by auto
qed

lemma qinv_dequeue_Some:
  assumes i: "qinv X s rq wq" and d: "ready_dequeue_highest s = Some (Some t, s')"
  shows "\<exists>rq'. qinv (insert t X) s' rq' wq" and "same_but_queues s s'"
    and "t < g_task_count s" and "t \<notin> X" and "tc_State (g_tasks s t) = TASK_READY"
    and "\<And>u. u < g_task_count s \<Longrightarrow> u \<notin> X \<Longrightarrow> tc_State (g_tasks s u) = TASK_READY \<Longrightarrow>
           task_idx s u \<le> task_idx s t"
proof -
  note Q = wfq_queues [OF qinvD(1) [OF i]]
  obtain rq' where dq: "deq_spec (dead s) 256 rq = (Some t, rq')" and w: "wfq s' rq' wq"
    and sb: "same_but_queues s s'"
    by (rule dequeue_result [OF qinvD(1) [OF i] d])
  from deq_spec_Some [OF dq] obtain k ds ts where k: "k < 256" "rq k = ds @ t # ts" "\<not> dead s t"
    "rq' k = ts" "\<forall>j<256. k < j \<longrightarrow> (\<forall>d\<in>set (rq j). dead s d)" by blast
  have tk: "t \<in> set (rq k)" by (simp add: k(2))
  have ti: "t < g_task_count s" "t \<notin> X" "tc_State (g_tasks s t) = TASK_READY" "k = task_idx s t"
    using qinv_ready [OF i tk] k(3) by auto
  then show "t < g_task_count s" "t \<notin> X" "tc_State (g_tasks s t) = TASK_READY" by auto
  show "same_but_queues s s'" by (fact sb)
  show "task_idx s u \<le> task_idx s t"
    if u: "u < g_task_count s" "u \<notin> X" "tc_State (g_tasks s u) = TASK_READY" for u
  proof (rule ccontr)
    assume "\<not> task_idx s u \<le> task_idx s t"
    moreover have "u \<in> set (rq (task_idx s u))" using qinvD(4) [OF i u(1,2)] u(3) by (simp add: placed_def)
    ultimately show False using k(5) [rule_format, of "task_idx s u" u] u(3) ti(4) by simp
  qed
  have nt: "t \<notin> set (rq' j)" for j
  proof (cases "j = k")
    case True
    then show ?thesis using queues_distinct_ready [OF Q, of k] k(2,4) by auto
  next
    case False
    then show ?thesis using queues_disjoint [OF Q tk, of j] deq_spec_subset [OF dq, of t j] by blast
  qed
  have tw: "t \<notin> set wq" by (rule queues_ready_not_wait [OF Q tk])
  have "\<not> queued rq' wq t" using nt tw by (auto simp: queued_def in_ready_def)
  then have "qinv ({t} \<union> X) s' rq' wq"
    using ti(1) by (intro qinv_after_dequeue [OF i w sb])
      (auto dest: deq_spec_subset [OF dq] intro: deq_spec_keeps [OF dq])
  then show "\<exists>rq'. qinv (insert t X) s' rq' wq" by auto
qed

section \<open>Dispatch\<close>

text \<open>What a reschedule leaves alone.\<close>

definition keeps :: "'c sched \<Rightarrow> 'c sched \<Rightarrow> bool" where
  "keeps s s' \<longleftrightarrow> g_task_count s' = g_task_count s \<and> cpu_rsp s' = cpu_rsp s \<and> cpu_if s' = cpu_if s \<and> cpu_sc s' = cpu_sc s \<and>
     g_irq_depth s' = g_irq_depth s \<and> g_pit_ticks s' = g_pit_ticks s \<and>
     g_eventpump_task s' = g_eventpump_task s \<and> g_strand_votes s' = g_strand_votes s \<and>
     task_stacks s' = task_stacks s \<and>
     (\<forall>t. native_rsp (g_tasks s' t) = native_rsp (g_tasks s t) \<and>
          ln_Pri (g_tasks s' t) = ln_Pri (g_tasks s t) \<and> parent (g_tasks s' t) = parent (g_tasks s t) \<and>
          tc_SigRecvd (g_tasks s' t) = tc_SigRecvd (g_tasks s t) \<and>
          tc_SigWait (g_tasks s' t) = tc_SigWait (g_tasks s t) \<and>
          tc_wake_tick (g_tasks s' t) = tc_wake_tick (g_tasks s t) \<and>
          tc_TDNestCnt (g_tasks s' t) = tc_TDNestCnt (g_tasks s t) \<and>
          tc_IDNestCnt (g_tasks s' t) = tc_IDNestCnt (g_tasks s t) \<and>
          (dead s' t \<longleftrightarrow> dead s t) \<and>
          (tc_State (g_tasks s' t) = TASK_WAITING \<longleftrightarrow> tc_State (g_tasks s t) = TASK_WAITING))"

lemma keeps_refl [simp]: "keeps s s"
  by (simp add: keeps_def)

lemma keeps_trans [trans]: "keeps a b \<Longrightarrow> keeps b c \<Longrightarrow> keeps a c"
  unfolding keeps_def by metis

lemma keeps_same_but_queues: "same_but_queues s s' \<Longrightarrow> keeps s s'"
  by (auto simp: same_but_queues_def keeps_def)

lemma stack_canary_check_sel [simp]:
  "lk (stack_canary_check t s) = lk s" "g_ready_map (stack_canary_check t s) = g_ready_map s"
  "g_task_count (stack_canary_check t s) = g_task_count s"
  "g_current (stack_canary_check t s) = g_current s"
  "g_sched_switch_pending (stack_canary_check t s) = g_sched_switch_pending s"
  "tc_State (g_tasks (stack_canary_check t s) u) = tc_State (g_tasks s u)"
  "ln_Pri (g_tasks (stack_canary_check t s) u) = ln_Pri (g_tasks s u)"
  "parent (g_tasks (stack_canary_check t s) u) = parent (g_tasks s u)"
  "native_rsp (g_tasks (stack_canary_check t s) u) = native_rsp (g_tasks s u)"
  "tc_SigRecvd (g_tasks (stack_canary_check t s) u) = tc_SigRecvd (g_tasks s u)"
  "tc_SigWait (g_tasks (stack_canary_check t s) u) = tc_SigWait (g_tasks s u)"
  "tc_wake_tick (g_tasks (stack_canary_check t s) u) = tc_wake_tick (g_tasks s u)"
  "tc_TDNestCnt (g_tasks (stack_canary_check t s) u) = tc_TDNestCnt (g_tasks s u)"
  "tc_IDNestCnt (g_tasks (stack_canary_check t s) u) = tc_IDNestCnt (g_tasks s u)"
  "cpu_rsp (stack_canary_check t s) = cpu_rsp s" "cpu_if (stack_canary_check t s) = cpu_if s" "cpu_sc (stack_canary_check t s) = cpu_sc s"
  "g_irq_depth (stack_canary_check t s) = g_irq_depth s"
  "g_pit_ticks (stack_canary_check t s) = g_pit_ticks s"
  "g_eventpump_task (stack_canary_check t s) = g_eventpump_task s"
  "g_strand_votes (stack_canary_check t s) = g_strand_votes s"
  "task_stacks (stack_canary_check t s) = task_stacks s"
  by (simp_all add: stack_canary_check_def)

lemma save_guest_sel [simp]:
  "lk (save_guest e p s) = lk s" "g_ready_map (save_guest e p s) = g_ready_map s"
  "g_sched_switch_pending (save_guest e p s) = g_sched_switch_pending s"
  "tc_State (g_tasks (save_guest e p s) u) = tc_State (g_tasks s u)"
  "keeps s (save_guest e p s)"
  by (simp_all add: save_guest_def Let_def keeps_def)

lemma load_guest_sel [simp]:
  "lk (load_guest n s) = lk s" "g_ready_map (load_guest n s) = g_ready_map s"
  "g_current (load_guest n s) = g_current s" "g_tasks (load_guest n s) = g_tasks s"
  "g_sched_switch_pending (load_guest n s) = g_sched_switch_pending s"
  "keeps s (load_guest n s)"
  by (simp_all add: load_guest_def Let_def keeps_def split: option.splits)

lemma account_switch_sel [simp]:
  "lk (account_switch p n s) = lk s" "g_ready_map (account_switch p n s) = g_ready_map s"
  "g_current (account_switch p n s) = g_current s"
  "g_sched_switch_pending (account_switch p n s) = g_sched_switch_pending s"
  "tc_State (g_tasks (account_switch p n s) u) = tc_State (g_tasks s u)"
  "keeps s (account_switch p n s)"
  by (simp_all add: account_switch_def Let_def keeps_def)

lemma switch_to_sel:
  "lk (switch_to e f p n s) = lk s" "g_ready_map (switch_to e f p n s) = g_ready_map s"
  "g_current (switch_to e f p n s) = Some n"
  "Task_SwitchNext (switch_to e f p n s) = Some n" "Task_SwitchPrev (switch_to e f p n s) = Some p"
  "g_sched_switch_pending (switch_to e f p n s) = (\<not> f \<or> g_sched_switch_pending s)"
  "tc_State (g_tasks (switch_to e f p n s) u) = (if u = n then TASK_RUNNING else tc_State (g_tasks s u))"
  by (simp_all add: switch_to_def Let_def)

lemma switch_to_keeps:
  assumes "\<not> dead s n" and "tc_State (g_tasks s n) \<noteq> TASK_WAITING"
  shows "keeps s (switch_to e f p n s)"
proof -
  let ?a = "save_guest e p s"
  let ?b = "set_state n TASK_RUNNING ((if f then ?a else ?a\<lparr>g_sched_switch_pending := True\<rparr>)\<lparr>g_current := Some n\<rparr>)"
  have "keeps s ?a" by simp
  also have "keeps ?a ?b" using assms by (simp add: keeps_def)
  also have "keeps ?b (load_guest n ?b)" by simp
  also have "keeps (load_guest n ?b) (account_switch p n (load_guest n ?b))" by simp
  also have "keeps (account_switch p n (load_guest n ?b)) (switch_to e f p n s)"
    by (simp add: switch_to_def Let_def keeps_def)
  finally show ?thesis .
qed

definition sinv :: "'c sched \<Rightarrow> bool" where
  "sinv s \<longleftrightarrow> (\<exists>rq wq. qinv {} s rq wq)"

text \<open>Some task other than a blocked one can always run.\<close>

definition runnable :: "'c sched \<Rightarrow> nat \<Rightarrow> bool" where
  "runnable s t \<longleftrightarrow> t < g_task_count s \<and>
     (tc_State (g_tasks s t) = TASK_READY \<or> tc_State (g_tasks s t) = TASK_RUNNING)"

lemma sinv_placed: "sinv s \<Longrightarrow> t < g_task_count s \<Longrightarrow> \<exists>rq wq. qinv {} s rq wq \<and> placed s rq wq t"
  unfolding sinv_def using qinvD(4) by blast

text \<open>The outgoing task, if it was RUNNING, goes to the tail of its level.\<close>

lemma qinv_requeue_prev:
  assumes i: "qinv {} s rq wq" and c: "g_current s = Some prev" "prev < g_task_count s"
  defines "s1 \<equiv> (if tc_State (g_tasks s prev) = TASK_RUNNING
                 then ready_enqueue prev (set_state prev TASK_READY s) else s)"
  shows "\<exists>rq'. qinv {} s1 rq' wq" and "keeps s s1" and "g_current s1 = g_current s"
    and "t < g_task_count s1 \<Longrightarrow> tc_State (g_tasks s1 t) \<noteq> TASK_RUNNING"
    and "runnable s t \<Longrightarrow> tc_State (g_tasks s1 t) = TASK_READY"
    and "Task_SwitchNext s1 = Task_SwitchNext s" "Task_SwitchPrev s1 = Task_SwitchPrev s"
      "g_sched_switch_pending s1 = g_sched_switch_pending s"
proof -
  have run: "t < g_task_count s \<Longrightarrow> tc_State (g_tasks s t) = TASK_RUNNING \<Longrightarrow> t = prev" for t
    using qinvD(4) [OF i, of t] c(1) by (simp add: placed_def)
  show "\<exists>rq'. qinv {} s1 rq' wq"
  proof (cases "tc_State (g_tasks s prev) = TASK_RUNNING")
    case True
    have "\<not> queued rq wq prev"
      using qinvD(4) [OF i c(2)] True by (auto simp: placed_def queued_def in_ready_def)
    then have i1: "qinv {prev} s rq wq" using qinv_out [OF i c(2)] by simp
    have "qinv {prev} (set_state prev TASK_READY s) rq wq"
      by (rule qinv_frame [OF i1]) (auto simp: qinvD(5) [OF i])
    from qinv_in_ready [OF this _ refl, of prev] show ?thesis using True by (auto simp: s1_def)
  qed (use i in \<open>auto simp: s1_def\<close>)
  show "t < g_task_count s1 \<Longrightarrow> tc_State (g_tasks s1 t) \<noteq> TASK_RUNNING"
    using run [of t] by (auto simp: s1_def split: if_splits)
  show "runnable s t \<Longrightarrow> tc_State (g_tasks s1 t) = TASK_READY"
  proof (cases "t = prev")
    case False
    then show "runnable s t \<Longrightarrow> ?thesis"
      using run [of t] by (cases "tc_State (g_tasks s t)") (simp_all add: s1_def runnable_def)
  qed (auto simp: s1_def runnable_def)
qed (simp_all add: s1_def keeps_def)

lemma qinv_run:
  assumes i: "qinv {n} s rq wq" and c: "g_current s' = Some n"
    and q: "lk s' = lk s" "g_ready_map s' = g_ready_map s" "keeps s s'"
    and st: "\<And>t. tc_State (g_tasks s' t) = (if t = n then TASK_RUNNING else tc_State (g_tasks s t))"
    and nr: "\<And>t. t < g_task_count s \<Longrightarrow> tc_State (g_tasks s t) \<noteq> TASK_RUNNING"
  shows "qinv {} s' rq wq"
proof -
  have "qinv {n} s' rq wq"
    by (rule qinv_frame [OF i q(1,2)]) (use q(3) st nr in \<open>auto simp: keeps_def qinvD(5) [OF i]\<close>)
  from qinv_in [OF this, of n] c st show ?thesis by simp
qed

lemma nested_cpu_ticks [simp]: "nested (t\<lparr>cpu_ticks := v\<rparr>) = nested t"
  by (simp add: nested_def)

text \<open>A reschedule that cannot run now charges the ticks and, unless a switch is already armed
  for this interrupt exit, leaves a note in \<open>g_need_resched\<close>.\<close>

lemma do_schedule_deferred:
  assumes "g_current s = Some prev"
    and "g_sched_switch_pending s \<or> Task_SwitchNext s \<noteq> None \<or> from_irq \<and> nested (g_tasks s prev)"
  shows "do_schedule e from_irq s = Some ((upd prev (\<lambda>x. x\<lparr>cpu_ticks :=
             cpu_ticks x + (g_pit_ticks s - g_acct_last_tick s)\<rparr>) s)
           \<lparr>g_acct_last_tick := g_pit_ticks s,
            g_need_resched := (if g_sched_switch_pending s \<or> Task_SwitchNext s = None
                               then True else g_need_resched s)\<rparr>)"
proof (cases "g_sched_switch_pending s")
  case False
  then show ?thesis
    using assms by (cases "Task_SwitchNext s") (simp_all add: do_schedule_def Let_def upd_def)
qed (use assms in \<open>simp add: do_schedule_def Let_def\<close>)

lemma do_schedule_dispatch:
  assumes i: "sinv s" and c: "g_current s = Some prev" "prev < g_task_count s"
    and d: "\<not> g_sched_switch_pending s" "Task_SwitchNext s = None" "\<not> (from_irq \<and> nested (g_tasks s prev))"
    and r: "runnable s idle"
  shows "\<exists>s' n. do_schedule e from_irq s = Some s' \<and> sinv s' \<and> keeps s s' \<and>
           g_current s' = Some n \<and> n < g_task_count s \<and> tc_State (g_tasks s' n) = TASK_RUNNING \<and>
           (\<forall>u. runnable s u \<longrightarrow> task_idx s u \<le> task_idx s n \<and> (u = n \<or> tc_State (g_tasks s' u) = TASK_READY)) \<and>
           (if n = prev
            then Task_SwitchNext s' = None \<and> Task_SwitchPrev s' = Task_SwitchPrev s \<and> \<not> g_sched_switch_pending s'
            else Task_SwitchNext s' = Some n \<and> Task_SwitchPrev s' = Some prev \<and>
                 g_sched_switch_pending s' = (\<not> from_irq))"
proof -
  define s0 where "s0 = (upd prev (\<lambda>x. x\<lparr>cpu_ticks := cpu_ticks x + (g_pit_ticks s - g_acct_last_tick s)\<rparr>) s)
    \<lparr>g_acct_last_tick := g_pit_ticks s, g_need_resched := False\<rparr>"
  define s1 where "s1 = (if tc_State (g_tasks s0 prev) = TASK_RUNNING
                 then ready_enqueue prev (set_state prev TASK_READY s0) else s0)"
  obtain rq wq where q: "qinv {} s rq wq" using i unfolding sinv_def by blast
  have k0: "keeps s s0" by (simp add: keeps_def s0_def)
  have q0: "qinv {} s0 rq wq" by (rule qinv_frame [OF q]) (auto simp: s0_def qinvD(5) [OF q])
  have c0: "g_current s0 = Some prev" "prev < g_task_count s0" using c by (simp_all add: s0_def)
  note q1 = qinv_requeue_prev [OF q0 c0, folded s1_def]
  obtain rq1 where i1: "qinv {} s1 rq1 wq" using q1(1) by blast
  have k1: "keeps s s1" using keeps_trans [OF k0 q1(2)] .
  have idx: "ln_Pri (g_tasks s1 u) = ln_Pri (g_tasks s u)" for u using k1 by (simp add: keeps_def)
  have rd: "tc_State (g_tasks s1 u) = TASK_READY \<and> u < g_task_count s1" if "runnable s u" for u
  proof -
    have "runnable s0 u" using that by (auto simp: runnable_def s0_def)
    from q1(5) [OF this] show ?thesis using that k1 by (simp add: runnable_def keeps_def)
  qed
  obtain x s2 where deq: "ready_dequeue_highest s1 = Some (x, s2)"
    using rq.deq_terminates [OF qinvD(1) [OF i1]] by force
  have "x \<noteq> None" using qinv_dequeue_None(3) [OF i1, of s2 idle] deq rd [OF r] by auto
  then obtain n where x: "x = Some n" by blast
  note D = qinv_dequeue_Some [OF i1 deq [unfolded x]]
  obtain rq2 where i2: "qinv {n} s2 rq2 wq" using D(1) by auto
  note sb = D(2)
  have t2: "g_tasks s2 = g_tasks s1" and n2: "\<And>t. t < g_task_count s2 \<Longrightarrow> tc_State (g_tasks s2 t) \<noteq> TASK_RUNNING"
    using sb q1(4) by (auto simp: same_but_queues_def)
  define s' where "s' = (if n = prev then set_state prev TASK_RUNNING (s2\<lparr>g_current := Some prev\<rparr>)
                         else switch_to e from_irq prev n s2)"
  have st: "tc_State (g_tasks s' t) = (if t = n then TASK_RUNNING else tc_State (g_tasks s2 t))" for t
    by (simp add: s'_def switch_to_sel)
  have k2: "keeps s2 s'" using D(5) by (auto simp: s'_def t2 intro: switch_to_keeps) (simp add: keeps_def t2)
  have res: "do_schedule e from_irq s = Some s'"
    unfolding s'_def
    using c d deq [unfolded x s1_def, unfolded s0_def] by (simp add: do_schedule_def Let_def) blast
  have "g_current s' = Some n" by (simp add: s'_def switch_to_sel)
  moreover have "qinv {} s' rq2 wq"
    by (rule qinv_run [OF i2 calculation _ _ k2 st n2]) (simp_all add: s'_def switch_to_sel)
  moreover have "keeps s s'" using keeps_trans [OF keeps_trans [OF k1 keeps_same_but_queues [OF sb]] k2] .
  moreover have "n < g_task_count s" using D(3) k1 by (simp add: keeps_def)
  moreover have "task_idx s u \<le> task_idx s n \<and> (u = n \<or> tc_State (g_tasks s' u) = TASK_READY)"
    if "runnable s u" for u
    using D(6) [of u] rd [OF that] by (simp add: idx st t2)
  moreover have "if n = prev
            then Task_SwitchNext s' = None \<and> Task_SwitchPrev s' = Task_SwitchPrev s \<and> \<not> g_sched_switch_pending s'
            else Task_SwitchNext s' = Some n \<and> Task_SwitchPrev s' = Some prev \<and>
                 g_sched_switch_pending s' = (\<not> from_irq)"
    using d q1(6-8) sb by (auto simp: s'_def switch_to_sel same_but_queues_def s0_def)
  ultimately show ?thesis
    using res st unfolding sinv_def by (intro exI [of _ s'] exI [of _ n]) auto
qed

end
