(* ===== verification/Task_Ops.thy ===== *)
theory Task_Ops
  imports Task_Inv
begin

text \<open>
  The kernel operations keep the scheduler invariant: signals, priorities, removal, timers,
  critical sections, task creation and the blocking primitives.  \<open>quiet\<close> is what an operation
  without a context switch leaves alone.
\<close>

definition quiet :: "'c sched \<Rightarrow> 'c sched \<Rightarrow> bool" where
  "quiet s s' \<longleftrightarrow> g_current s' = g_current s \<and> Task_SwitchNext s' = Task_SwitchNext s \<and>
     Task_SwitchPrev s' = Task_SwitchPrev s \<and> g_sched_switch_pending s' = g_sched_switch_pending s \<and>
     g_task_count s' = g_task_count s \<and> cpu_rsp s' = cpu_rsp s \<and> cpu_sc s' = cpu_sc s \<and> g_irq_depth s' = g_irq_depth s \<and>
     g_pit_ticks s' = g_pit_ticks s \<and>
     (\<forall>t. native_rsp (g_tasks s' t) = native_rsp (g_tasks s t) \<and> (dead s' t \<longleftrightarrow> dead s t) \<and>
          (tc_State (g_tasks s' t) = TASK_RUNNING \<longleftrightarrow> tc_State (g_tasks s t) = TASK_RUNNING) \<and>
          (runnable s t \<longrightarrow> runnable s' t))"

lemma quiet_refl [simp]: "quiet s s"
  by (simp add: quiet_def)

lemma quiet_trans [trans]: "quiet a b \<Longrightarrow> quiet b c \<Longrightarrow> quiet a c"
  unfolding quiet_def by metis

lemma quiet_upd:
  assumes "\<And>x. native_rsp (f x) = native_rsp x" and "\<And>x. tc_State (f x) = tc_State x"
  shows "quiet s (upd t f s)"
  using assms by (simp add: quiet_def runnable_def)

lemma sinv_upd:
  assumes "sinv s" and "\<And>x. tc_State (f x) = tc_State x" "\<And>x. ln_Pri (f x) = ln_Pri x"
    "\<And>x. parent (f x) = parent x"
    and "\<And>x. x = g_tasks s t \<Longrightarrow> tc_State x = TASK_WAITING \<Longrightarrow>
           tc_SigRecvd x AND tc_SigWait x = 0 \<Longrightarrow> tc_SigRecvd (f x) AND tc_SigWait (f x) = 0"
  shows "sinv (upd t f s)"
proof -
  obtain rq wq where q: "qinv {} s rq wq" using assms(1) unfolding sinv_def by blast
  have "qinv {} (upd t f s) rq wq"
  proof (rule qinv_frame [OF q])
    fix u assume u: "u \<in> set wq"
    show "tc_SigRecvd (g_tasks (upd t f s) u) AND tc_SigWait (g_tasks (upd t f s) u) = 0"
      using qinvD(5) [OF q u] qinv_waiting [OF q u] assms(5) by auto
  qed (use assms(2-4) in auto)
  then show ?thesis unfolding sinv_def by blast
qed

lemma sinv_cong:
  assumes "sinv s" and "lk s' = lk s" "g_ready_map s' = g_ready_map s" "g_task_count s' = g_task_count s"
    "g_eventpump_task s' = g_eventpump_task s" "g_current s' = g_current s" "g_tasks s' = g_tasks s"
  shows "sinv s'"
proof -
  obtain rq wq where q: "qinv {} s rq wq" using assms(1) unfolding sinv_def by blast
  have "qinv {} s' rq wq" by (rule qinv_frame [OF q]) (use assms qinvD(5) [OF q] in auto)
  then show ?thesis unfolding sinv_def by blast
qed

lemma wfq_upd [simp]: "wfq (upd t f s) rq wq = wfq s rq wq"
  by (rule wfq_cong) simp_all

lemma wfq_set_state [simp]: "wfq (set_state t st s) rq wq = wfq s rq wq"
  by (rule wfq_cong) simp_all

section \<open>Signals\<close>

lemma qinv_wake:
  assumes q: "qinv {} s rq wq" and t: "t \<in> set wq"
    and f: "\<And>x. ln_Pri (f x) = ln_Pri x" "\<And>x. parent (f x) = parent x"
  shows "qinv {} (ready_enqueue t (wait_remove t (upd t f s)))
           (rq(task_idx s t := rq (task_idx s t) @ [t])) (remove1 t wq)"
proof -
  note Q = wfq_queues [OF qinvD(1) [OF q]]
  have q1: "qinv {t} (wait_remove t s) rq (remove1 t wq)" using qinv_out_wait [OF q t] by simp
  have q2: "qinv {t} (wait_remove t (upd t f s)) rq (remove1 t wq)"
  proof (rule qinv_frame [OF q1])
    fix u assume "u \<in> set (remove1 t wq)"
    then have "u \<noteq> t" "u \<in> set wq" using queues_distinct_wait [OF Q] by auto
    then show "tc_SigRecvd (g_tasks (wait_remove t (upd t f s)) u) AND
               tc_SigWait (g_tasks (wait_remove t (upd t f s)) u) = 0"
      using qinvD(5) [OF q, of u] by simp
  qed (auto simp: f)
  from qinv_in_ready [OF q2 _ refl, of t] show ?thesis by (simp add: f)
qed

lemma quiet_wake:
  assumes "tc_State (g_tasks s t) = TASK_WAITING" and "\<And>x. native_rsp (f x) = native_rsp x"
    and "\<And>x. tc_State (f x) = tc_State x"
  shows "quiet s (ready_enqueue t (wait_remove t (upd t f s)))"
  using assms by (auto simp: quiet_def runnable_def)

lemma Signal_cases:
  fixes s :: "'c sched"
  defines "f \<equiv> (\<lambda>m (x :: 'c tcb). x\<lparr>tc_SigRecvd := tc_SigRecvd x OR m\<rparr>)"
  shows "Signal (Some t) m s =
    (if m = 0 then s
     else if tc_State (g_tasks s t) = TASK_WAITING \<and>
             (tc_SigRecvd (g_tasks s t) OR m) AND tc_SigWait (g_tasks s t) \<noteq> 0
     then ready_enqueue t (wait_remove t (upd t (f m) s)) else upd t (f m) s)"
  by (simp add: Signal_def Let_def f_def)

lemma sinv_Signal:
  assumes i: "sinv s" and t: "t < g_task_count s"
  shows "sinv (Signal (Some t) m s)"
proof -
  obtain rq wq where q: "qinv {} s rq wq" using i unfolding sinv_def by blast
  have "sinv (ready_enqueue t (wait_remove t (upd t (\<lambda>x. x\<lparr>tc_SigRecvd := tc_SigRecvd x OR m\<rparr>) s)))"
    if "tc_State (g_tasks s t) = TASK_WAITING"
  proof -
    have "t \<in> set wq" using qinvD(4) [OF q t] that by (simp add: placed_def)
    from qinv_wake [OF q this, of "\<lambda>x. x\<lparr>tc_SigRecvd := tc_SigRecvd x OR m\<rparr>"]
    show ?thesis unfolding sinv_def by auto
  qed
  moreover have "sinv (upd t (\<lambda>x. x\<lparr>tc_SigRecvd := tc_SigRecvd x OR m\<rparr>) s)"
    if "\<not> (tc_State (g_tasks s t) = TASK_WAITING \<and>
             (tc_SigRecvd (g_tasks s t) OR m) AND tc_SigWait (g_tasks s t) \<noteq> 0)"
    by (rule sinv_upd [OF i]) (use that in auto)
  ultimately show ?thesis using i by (simp add: Signal_cases)
qed

lemma quiet_Signal: "quiet s (Signal (Some t) m s)"
  by (simp add: Signal_cases quiet_wake quiet_upd)

lemma Signal_sel [simp]:
  "tc_SigWait (g_tasks (Signal r m s) u) = tc_SigWait (g_tasks s u)"
  "tc_wake_tick (g_tasks (Signal r m s) u) = tc_wake_tick (g_tasks s u)"
  "g_eventpump_task (Signal r m s) = g_eventpump_task s"
  "cpu_if (Signal r m s) = cpu_if s" "cpu_sc (Signal r m s) = cpu_sc s"
  by (cases r; simp add: Signal_def Let_def)+

section \<open>Priorities and removal\<close>

lemma qinv_kill:
  assumes q: "qinv {} s rq wq" and t: "t \<notin> set wq" "t < g_task_count s"
  shows "qinv {} (set_state t TASK_REMOVED s) rq wq"
proof (rule qinvI)
  show "wfq (set_state t TASK_REMOVED s) rq wq"
    using qinvD(1) [OF q] by simp
  show "placed (set_state t TASK_REMOVED s) rq wq u" if "u < g_task_count (set_state t TASK_REMOVED s)" for u
    using qinvD(4) [OF q, of u] t that by (auto simp: placed_def)
qed (use qinvD [OF q] t in \<open>auto split: if_splits\<close>)

lemma sinv_RemTask:
  assumes i: "sinv s" and t: "t < g_task_count s"
  shows "sinv (RemTask t s)"
proof -
  obtain rq wq where q: "qinv {} s rq wq" using i unfolding sinv_def by blast
  let ?s = "set_state t TASK_REMOVED (if tc_State (g_tasks s t) = TASK_WAITING then wait_remove t s else s)"
  have "sinv ?s"
  proof (cases "tc_State (g_tasks s t) = TASK_WAITING")
    case True
    then have "t \<in> set wq" using qinvD(4) [OF q t] by (simp add: placed_def)
    then have q1: "qinv {t} (wait_remove t s) rq (remove1 t wq)" using qinv_out_wait [OF q] by simp
    have "qinv {t} (set_state t TASK_REMOVED (wait_remove t s)) rq (remove1 t wq)"
      by (rule qinv_frame [OF q1]) (use qinvD(5) [OF q1] in auto)
    from qinv_in [OF this, of t] show ?thesis using True unfolding sinv_def by auto
  next
    case False
    then have "t \<notin> set wq" using qinvD(4) [OF q t] by (simp add: placed_def)
    from qinv_kill [OF q this t] show ?thesis using False unfolding sinv_def by auto
  qed
  then show ?thesis by (auto simp: RemTask_def Let_def intro: sinv_upd)
qed

lemma sinv_SetTaskPri:
  assumes i: "sinv s" and t: "t < g_task_count s"
  shows "sinv (SetTaskPri (Some t) p s)"
proof -
  obtain rq wq where q: "qinv {} s rq wq" using i unfolding sinv_def by blast
  define f where "f = (\<lambda>x :: 'a tcb. x\<lparr>ln_Pri := word_of_int (min 127 (max (-128) p))\<rparr>)"
  have e: "SetTaskPri (Some t) p s =
      (if tc_State (g_tasks s t) = TASK_READY then ready_enqueue t (upd t f (ready_remove t s)) else upd t f s)"
    by (auto simp: SetTaskPri_def Let_def f_def min_def max_def)
  show ?thesis
  proof (cases "tc_State (g_tasks s t) = TASK_READY")
    case True
    let ?p = "task_idx s t"
    have "t \<in> set (rq ?p)" using qinvD(4) [OF q t] True by (simp add: placed_def)
    then have q1: "qinv {t} (ready_remove t s) (rq(?p := remove1 t (rq ?p))) wq"
      using qinv_out_ready [OF q] by simp
    have "qinv {t} (upd t f (ready_remove t s)) (rq(?p := remove1 t (rq ?p))) wq"
      by (rule qinv_frame [OF q1]) (use qinvD(5) [OF q1] in \<open>auto simp: f_def\<close>)
    from qinv_in_ready [OF this _ refl, of t] show ?thesis using True unfolding sinv_def e by auto
  next
    case False
    have "qinv {} (upd t f s) rq wq"
    proof (rule qinvI)
      show "wfq (upd t f s) rq wq" using qinvD(1) [OF q] by simp
      show "placed (upd t f s) rq wq u" if "u < g_task_count (upd t f s)" for u
        using qinvD(4) [OF q, of u] that False by (auto simp: placed_def f_def)
    qed (use qinvD [OF q] in \<open>auto simp: f_def split: if_splits\<close>)
    then show ?thesis using False unfolding sinv_def e by auto
  qed
qed

lemma quiet_SetTaskPri: "quiet s (SetTaskPri (Some t) p s)"
  by (auto simp: SetTaskPri_def Let_def quiet_def runnable_def ready_remove_def)

section \<open>Timers\<close>

definition expired :: "'c sched \<Rightarrow> nat \<Rightarrow> bool" where
  "expired s t \<longleftrightarrow> tc_wake_tick (g_tasks s t) \<noteq> 0 \<and> tc_wake_tick (g_tasks s t) \<le> g_pit_ticks s"

definition wake_tasks :: "'c sched \<Rightarrow> nat list \<Rightarrow> nat \<Rightarrow> 'c tcb" where
  "wake_tasks s ts = (\<lambda>t. if t \<in> set ts \<and> expired s t
     then (g_tasks s t)\<lparr>tc_wake_tick := 0, tc_State := TASK_READY\<rparr> else g_tasks s t)"

text \<open>The walk terminates and moves exactly the expired tasks, in wait-list order, to the tail
  of their levels.\<close>

lemma wake_loop_spec:
  assumes "qinv {} s rq (pre @ ts)"
  shows "\<exists>s' l m w. wake_loop (hd (map Task ts @ [WaitHead])) s = Some s' \<and>
           qinv {} s' (\<lambda>i. rq i @ filter (\<lambda>t. expired s t \<and> task_idx s t = i) ts)
             (pre @ filter (\<lambda>t. \<not> expired s t) ts) \<and>
           s' = s\<lparr>lk := l, g_ready_map := m, g_wait_count := w, g_tasks := wake_tasks s ts\<rparr>"
  using assms
proof (induction ts arbitrary: s rq pre)
  case Nil
  have "wake_loop WaitHead s = Some s" by (subst wake_loop.simps) simp
  with Nil show ?case
    by (intro exI [of _ s] exI [of _ "lk s"] exI [of _ "g_ready_map s"] exI [of _ "g_wait_count s"])
       (simp add: wake_tasks_def)
next
  case (Cons t ts)
  note q = Cons.prems
  note Q = wfq_queues [OF qinvD(1) [OF q]]
  have r: "ring (lk s) WaitHead (map Task pre @ Task t # map Task ts)"
    using queues_wait_ring [OF Q] by simp
  have nxt: "ln_Succ (lk s) (Task t) = hd (map Task ts @ [WaitHead])"
    by (rule list_remove_neighbours(2) [OF r])
  have d: "distinct (pre @ t # ts)" using queues_distinct_wait [OF Q] .
  have wt: "tc_State (g_tasks s t) = TASK_WAITING" using qinv_waiting [OF q] by simp
  have unf: "wake_loop (Task t) s = wake_loop (hd (map Task ts @ [WaitHead]))
      (if expired s t then ready_enqueue t (wait_remove t (upd t (\<lambda>x. x\<lparr>tc_wake_tick := 0\<rparr>) s)) else s)"
    by (subst wake_loop.simps) (simp add: Let_def task_of_def wt nxt expired_def)
  show ?case
  proof (cases "expired s t")
    case False
    have "qinv {} s rq ((pre @ [t]) @ ts)" using q by simp
    moreover have "wake_tasks s (t # ts) = wake_tasks s ts"
      using False by (auto simp: wake_tasks_def fun_eq_iff)
    ultimately show ?thesis using Cons.IH [of s rq "pre @ [t]"] False by (simp add: unf)
  next
    case True
    define s1 where "s1 = ready_enqueue t (wait_remove t (upd t (\<lambda>x. x\<lparr>tc_wake_tick := 0\<rparr>) s))"
    have f: "s1 = s\<lparr>lk := lk s1, g_ready_map := g_ready_map s1, g_wait_count := g_wait_count s1, g_tasks := g_tasks s1\<rparr>"
      by (simp add: s1_def ready_enqueue_def wait_remove_def set_state_def upd_def Let_def)
    have "remove1 t (pre @ t # ts) = pre @ ts" using d by (simp add: remove1_append)
    with qinv_wake [OF q, of t "\<lambda>x. x\<lparr>tc_wake_tick := 0\<rparr>"]
    have q1: "qinv {} s1 (rq(task_idx s t := rq (task_idx s t) @ [t])) (pre @ ts)"
      by (simp add: s1_def)
    have g1: "g_tasks s1 = (g_tasks s)(t := (g_tasks s t)\<lparr>tc_wake_tick := 0, tc_State := TASK_READY\<rparr>)"
      by (simp add: s1_def)
    have e1: "expired s1 u = expired s u" "task_idx s1 u = task_idx s u" if "u \<in> set ts" for u
      using that d by (auto simp: expired_def g1 s1_def)
    have "wake_tasks s1 ts = wake_tasks s (t # ts)"
      using True e1 d by (auto simp: wake_tasks_def fun_eq_iff g1)
    moreover have "(\<lambda>i. (rq(task_idx s t := rq (task_idx s t) @ [t])) i @
          filter (\<lambda>u. expired s1 u \<and> task_idx s1 u = i) ts) =
        (\<lambda>i. rq i @ filter (\<lambda>u. expired s u \<and> task_idx s u = i) (t # ts))"
      using True e1 by (auto simp: fun_eq_iff cong: filter_cong)
    moreover have "filter (\<lambda>u. \<not> expired s1 u) ts = filter (\<lambda>u. \<not> expired s u) (t # ts)"
      using True e1 by (auto cong: filter_cong)
    moreover obtain s' l m w where "wake_loop (hd (map Task ts @ [WaitHead])) s1 = Some s'"
      "qinv {} s' (\<lambda>i. (rq(task_idx s t := rq (task_idx s t) @ [t])) i @
          filter (\<lambda>u. expired s1 u \<and> task_idx s1 u = i) ts) (pre @ filter (\<lambda>u. \<not> expired s1 u) ts)"
      and s': "s' = s1\<lparr>lk := l, g_ready_map := m, g_wait_count := w, g_tasks := wake_tasks s1 ts\<rparr>"
      using Cons.IH [OF q1] by blast
    moreover have "s' = s\<lparr>lk := l, g_ready_map := m, g_wait_count := w, g_tasks := wake_tasks s1 ts\<rparr>"
      using s' by (subst (asm) f) simp
    ultimately show ?thesis using True by (simp add: unf s1_def [symmetric]) metis
  qed
qed

text \<open>The stranded-task scan finds nothing: a READY or WAITING task is linked.\<close>

lemma strand_check_idle:
  assumes q: "qinv {} s rq wq" and t: "t < g_task_count s"
  shows "strand_check t s = s\<lparr>g_strand_votes := (g_strand_votes s)(t := 0)\<rparr>"
proof -
  note Q = wfq_queues [OF qinvD(1) [OF q]]
  have "ln_Pred (lk s) (Task t) \<noteq> Task t" if "tc_State (g_tasks s t) = TASK_READY"
  proof -
    have "Task t \<in> set (map Task (rq (task_idx s t)))" using qinvD(4) [OF q t] that by (simp add: placed_def)
    then show ?thesis using ring_member_linked [OF queues_ready_ring [OF Q]] pri_to_idx_less by blast
  qed
  moreover have "ln_Pred (lk s) (Task t) \<noteq> Task t" if "tc_State (g_tasks s t) = TASK_WAITING"
  proof -
    have "Task t \<in> set (map Task wq)" using qinvD(4) [OF q t] that by (simp add: placed_def)
    then show ?thesis using ring_member_linked [OF queues_wait_ring [OF Q]] by blast
  qed
  ultimately show ?thesis by (cases "tc_State (g_tasks s t)") (auto simp: strand_check_def Let_def)
qed

lemma strand_scan_idle:
  assumes "qinv {} s rq wq" and "n \<le> g_task_count s"
  shows "fold strand_check [0..<n] s =
    s\<lparr>g_strand_votes := (\<lambda>t. if t < n then 0 else g_strand_votes s t)\<rparr>"
  using assms(2)
proof (induction n)
  case (Suc n)
  let ?v = "\<lambda>t. if t < n then 0 else g_strand_votes s t"
  have "qinv {} (s\<lparr>g_strand_votes := ?v\<rparr>) rq wq"
    by (rule qinv_frame [OF assms(1)]) (use qinvD(5) [OF assms(1)] in auto)
  from strand_check_idle [OF this, of n] Suc show ?case
    by (simp add: fun_eq_iff less_Suc_eq)
qed simp

lemma Task_WakeTimers_spec:
  assumes q: "qinv {} s rq wq"
  shows "\<exists>s' l m w v. Task_WakeTimers s = Some s' \<and>
           qinv {} s' (\<lambda>i. rq i @ filter (\<lambda>t. expired s t \<and> task_idx s t = i) wq)
             (filter (\<lambda>t. \<not> expired s t) wq) \<and>
           s' = s\<lparr>lk := l, g_ready_map := m, g_wait_count := w, g_tasks := wake_tasks s wq, g_strand_votes := v\<rparr>"
proof -
  have "ln_Succ (lk s) WaitHead = hd (map Task wq @ [WaitHead])"
    using ring_succ_head [OF queues_wait_ring [OF wfq_queues [OF qinvD(1) [OF q]]]] by simp
  moreover obtain s' l m w where w: "wake_loop (hd (map Task wq @ [WaitHead])) s = Some s'"
    "qinv {} s' (\<lambda>i. rq i @ filter (\<lambda>t. expired s t \<and> task_idx s t = i) wq) (filter (\<lambda>t. \<not> expired s t) wq)"
    "s' = s\<lparr>lk := l, g_ready_map := m, g_wait_count := w, g_tasks := wake_tasks s wq\<rparr>"
    using wake_loop_spec [of s rq "[]" wq] q by auto
  let ?v = "\<lambda>v. s\<lparr>lk := l, g_ready_map := m, g_wait_count := w, g_tasks := wake_tasks s wq, g_strand_votes := v\<rparr>"
  have qv: "qinv {} (?v v) (\<lambda>i. rq i @ filter (\<lambda>t. expired s t \<and> task_idx s t = i) wq)
      (filter (\<lambda>t. \<not> expired s t) wq)" for v
    by (rule qinv_frame [OF w(2)]) (use qinvD(5) [OF w(2)] in \<open>auto simp: w(3)\<close>)
  have "\<exists>v. Task_WakeTimers s = Some (?v v)"
  proof (cases "g_pit_ticks s mod 64 = 0")
    case True
    then show ?thesis
      using calculation w(1,3) strand_scan_idle [OF w(2) order_refl] by (auto simp: Task_WakeTimers_def)
  next
    case False
    have "Task_WakeTimers s = Some (?v (g_strand_votes s))"
      using False calculation w(1) by (simp add: Task_WakeTimers_def w(3))
    then show ?thesis by blast
  qed
  then show ?thesis using qv by blast
qed

section \<open>Task creation\<close>

lemma find_task_slot_cases:
  assumes "find_task_slot s = Some (slot, s')"
  obtains (reuse) "slot < g_task_count s" "dead s slot" "s' = s"
  | (fresh) "slot = g_task_count s" "g_task_count s < MAX_TASKS" "s' = s\<lparr>g_task_count := g_task_count s + 1\<rparr>"
proof (cases "first_index (\<lambda>i. dead s i) (g_task_count s)")
  case None
  then have "slot = g_task_count s \<and> g_task_count s < MAX_TASKS \<and>
             s' = s\<lparr>g_task_count := g_task_count s + 1\<rparr>"
    using assms by (auto simp: find_task_slot_def split: if_splits)
  then show thesis using fresh by blast
next
  case (Some i)
  then have "i < g_task_count s" "dead s i" by (simp_all add: first_index_Some)
  moreover have "slot = i" "s' = s" using assms Some by (simp_all add: find_task_slot_def)
  ultimately show thesis using reuse by blast
qed

lemma find_task_slot_disj:
  "find_task_slot s = Some (slot, s') \<Longrightarrow> slot < g_task_count s \<and> dead s slot \<and> s' = s \<or>
     slot = g_task_count s \<and> g_task_count s < MAX_TASKS \<and> s' = s\<lparr>g_task_count := g_task_count s + 1\<rparr>"
  by (erule find_task_slot_cases) blast+

lemma find_task_slot_bounds:
  assumes "find_task_slot s = Some (slot, s')" and "g_task_count s \<le> MAX_TASKS"
  shows "slot < g_task_count s'" "g_task_count s \<le> g_task_count s'" "g_task_count s' \<le> MAX_TASKS"
    "g_tasks s' = g_tasks s" "g_current s' = g_current s" "g_eventpump_task s' = g_eventpump_task s"
    "u < g_task_count s' \<Longrightarrow> u \<noteq> slot \<Longrightarrow> u < g_task_count s"
    "slot < g_task_count s \<Longrightarrow> dead s slot"
    "\<exists>n. s' = s\<lparr>g_task_count := n\<rparr>"
proof -
  show "\<exists>n. s' = s\<lparr>g_task_count := n\<rparr>"
    using assms(1)
  proof (cases rule: find_task_slot_cases)
    case reuse
    then have "s' = s\<lparr>g_task_count := g_task_count s\<rparr>" by simp
    then show ?thesis by blast
  qed blast
qed (use find_task_slot_disj [OF assms(1)] assms(2) in auto)

lemma linked_fresh:
  assumes l: "linked s rq wq" and s': "g_task_count s' = Suc (g_task_count s)"
    "lk s' = list_init (Task (g_task_count s)) (lk s)"
  shows "linked s' rq wq" and "\<not> queued rq wq (g_task_count s)"
proof -
  show "\<not> queued rq wq (g_task_count s)"
    using l unfolding linked_def by (metis less_irrefl)
  show "linked s' rq wq"
    unfolding linked_def
  proof (rule allI)
    fix t
    show "if queued rq wq t then t < g_task_count s'
          else if t < g_task_count s'
               then ln_Succ (lk s') (Task t) = Task t \<and> ln_Pred (lk s') (Task t) = Task t
               else ln_Succ (lk s') (Task t) = Null"
      using l [unfolded linked_def, rule_format, of t]
      by (cases "t = g_task_count s") (auto simp: s' list_init_def split: if_splits)
  qed
qed

lemma queues_list_init:
  assumes q: "queues s rq wq" and t: "\<not> queued rq wq t"
    and s': "lk s' = list_init (Task t) (lk s)" "g_ready_map s' = g_ready_map s"
  shows "queues s' rq wq"
proof -
  have "ring (lk s') (ReadyHead i) (map Task (rq i))" if "i < 256" for i
    unfolding s'(1) by (rule list_init_other_ring [OF queues_ready_ring [OF q that]])
      (use t in \<open>auto simp: queued_def in_ready_def\<close>)
  moreover have "ring (lk s') WaitHead (map Task wq)"
    unfolding s'(1) by (rule list_init_other_ring [OF queues_wait_ring [OF q]])
      (use t in \<open>auto simp: queued_def in_ready_def\<close>)
  ultimately show ?thesis using q s'(2) unfolding queues_def by simp
qed

lemma list_init_self: "ln_Succ l n = n \<Longrightarrow> ln_Pred l n = n \<Longrightarrow> list_init n l = l"
  by (simp add: list_init_def fun_upd_idem)

text \<open>A slot taken for a new task ends up self-linked, whether it was fresh, unlinked or still
  in a ready queue.\<close>

lemma init_task_slot_wfq:
  assumes q: "qinv {} s rq wq" and f: "find_task_slot s = Some (slot, s1)"
  shows "\<exists>rq'. wfq (init_task_slot km slot name pri s1) rq' wq \<and> \<not> queued rq' wq slot \<and>
           (\<forall>u\<noteq>slot. \<forall>i. u \<in> set (rq' i) \<longleftrightarrow> u \<in> set (rq i))"
  using f
proof (cases rule: find_task_slot_cases)
  case fresh
  note W = qinvD(1) [OF q]
  let ?s = "init_task_slot km slot name pri s1"
  have n: "ln_Succ (lk s) (Task slot) = Null"
    using W fresh(1) by (auto simp: wfq_def linked_def split: if_splits)
  have l: "lk ?s = list_init (Task (g_task_count s)) (lk s)" "g_task_count ?s = Suc (g_task_count s)"
    "g_ready_map ?s = g_ready_map s"
    using fresh n by (simp_all add: init_task_slot_def Let_def)
  note L = linked_fresh [OF _ l(2,1)]
  have "queues ?s rq wq"
    using queues_list_init [OF wfq_queues [OF W] _ l(1,3)] L(2) W by (simp add: wfq_def)
  then have "wfq ?s rq wq \<and> \<not> queued rq wq slot" using L W fresh(1) by (simp add: wfq_def)
  then show ?thesis by blast
next
  case reuse
  note W = qinvD(1) [OF q] and Q = wfq_queues [OF qinvD(1) [OF q]]
  let ?s = "init_task_slot km slot name pri s1"
  have w: "slot \<notin> set wq" using qinvD(4) [OF q reuse(1)] reuse(2) by (simp add: placed_def)
  show ?thesis
  proof (cases "\<exists>k. slot \<in> set (rq k)")
    case True
    then obtain k where k: "slot \<in> set (rq k)" by blast
    have k256: "k < 256" by (rule queues_level_bound [OF Q k])
    have "Task slot \<in> set (map Task (rq k))" using k by simp
    from ring_member_succ [OF queues_ready_ring [OF Q k256] this]
    have "ln_Succ (lk s) (Task slot) \<noteq> Null" "ln_Succ (lk s) (Task slot) \<noteq> Task slot" by auto
    then have l: "lk ?s = list_remove (Task slot) (lk s)" "g_task_count ?s = g_task_count s"
      "g_ready_map ?s = g_ready_map s"
      using reuse by (simp_all add: init_task_slot_def Let_def list_init_self)
    have "wfq ?s (rq(k := remove1 slot (rq k))) wq" by (rule wfq_ready_unlink [OF W k l])
    moreover have "\<not> queued (rq(k := remove1 slot (rq k))) wq slot"
      using queued_remove_ready [OF Q k] by blast
    moreover have "\<forall>u\<noteq>slot. \<forall>i. u \<in> set ((rq(k := remove1 slot (rq k))) i) \<longleftrightarrow> u \<in> set (rq i)"
      by (simp add: set_remove1_eq [OF queues_distinct_ready [OF Q]])
    ultimately show ?thesis by blast
  next
    case False
    then have nq: "\<not> queued rq wq slot" using w by (auto simp: queued_def in_ready_def)
    then have sl: "ln_Succ (lk s) (Task slot) = Task slot" "ln_Pred (lk s) (Task slot) = Task slot"
      using W reuse(1) by (auto simp: wfq_def linked_def)
    then have l: "lk ?s = lk s" "g_task_count ?s = g_task_count s" "g_ready_map ?s = g_ready_map s"
      using reuse by (simp_all add: init_task_slot_def Let_def list_init_self)
    have "wfq ?s rq wq" using W by (simp add: wfq_cong [OF l(1,3,2)])
    with nq show ?thesis by blast
  qed
qed

lemma init_task_slot_sel [simp]:
  "u \<noteq> slot \<Longrightarrow> g_tasks (init_task_slot km slot name pri s) u = g_tasks s u"
  "tc_State (g_tasks (init_task_slot km slot name pri s) slot) = TASK_REMOVED"
  "parent (g_tasks (init_task_slot km slot name pri s) slot) = g_current s"
  "ln_Pri (g_tasks (init_task_slot km slot name pri s) slot) = pri"
  "tc_SigWait (g_tasks (init_task_slot km slot name pri s) slot) = 0"
  "g_task_count (init_task_slot km slot name pri s) = g_task_count s"
  "g_current (init_task_slot km slot name pri s) = g_current s"
  "g_eventpump_task (init_task_slot km slot name pri s) = g_eventpump_task s"
  "Task_SwitchNext (init_task_slot km slot name pri s) = Task_SwitchNext s"
  "Task_SwitchPrev (init_task_slot km slot name pri s) = Task_SwitchPrev s"
  "g_sched_switch_pending (init_task_slot km slot name pri s) = g_sched_switch_pending s"
  "cpu_rsp (init_task_slot km slot name pri s) = cpu_rsp s"
  "cpu_if (init_task_slot km slot name pri s) = cpu_if s" "cpu_sc (init_task_slot km slot name pri s) = cpu_sc s"
  "g_irq_depth (init_task_slot km slot name pri s) = g_irq_depth s"
  "g_pit_ticks (init_task_slot km slot name pri s) = g_pit_ticks s"
  "g_need_resched (init_task_slot km slot name pri s) = g_need_resched s"
  by (simp_all add: init_task_slot_def Let_def zero_tcb_def)

lemma qinv_init_task_slot:
  assumes q: "qinv {} s rq wq" and f: "find_task_slot s = Some (slot, s1)"
    and c: "\<And>c. g_current s = Some c \<Longrightarrow> c < g_task_count s"
  shows "\<exists>rq'. qinv {slot} (init_task_slot km slot name pri s1) rq' wq"
proof -
  let ?s = "init_task_slot km slot name pri s1"
  obtain rq' where w: "wfq ?s rq' wq" "\<not> queued rq' wq slot"
    and o: "\<And>u i. u \<noteq> slot \<Longrightarrow> u \<in> set (rq' i) \<longleftrightarrow> u \<in> set (rq i)"
    using init_task_slot_wfq [OF q f] by blast
  note sl = find_task_slot_bounds [OF f qinvD(2) [OF q]]
  have "qinv {slot} ?s rq' wq"
  proof (rule qinvI)
    show "placed ?s rq' wq u" if "u < g_task_count ?s" "u \<notin> {slot}" for u
    proof -
      have "placed s rq wq u" using qinvD(4) [OF q] sl(7) that by simp
      moreover have "placed ?s rq' wq u = placed s rq wq u"
        by (rule placed_cong) (use that o sl in auto)
      ultimately show ?thesis by blast
    qed
    fix u assume u: "u \<in> set wq"
    then have "u \<noteq> slot" using w(2) by (auto simp: queued_def)
    then show "tc_SigRecvd (g_tasks ?s u) AND tc_SigWait (g_tasks ?s u) = 0"
      using qinvD(5) [OF q u] sl(4) by simp
  next
    fix u p assume u: "u < g_task_count ?s" and p: "parent (g_tasks ?s u) = Some p"
    show "p < g_task_count ?s"
    proof (cases "u = slot")
      case True
      then show ?thesis using p c sl(2,5) by force
    next
      case False
      then have "parent (g_tasks s u) = Some p" "u < g_task_count s"
        using p u sl(4,7) by simp_all
      then show ?thesis using qinvD(6) [OF q] sl(2) by force
    qed
  next
    fix t assume "g_eventpump_task ?s = Some t"
    then show "t < g_task_count ?s" using qinvD(7) [OF q, of t] sl by simp
  qed (use w sl in auto)
  then show ?thesis by blast
qed

end
