(* ===== verification/Task_Sched.thy ===== *)
theory Task_Sched
  imports Task_Ops
begin

text \<open>
  The invariant of the scheduler and that every operation keeps it.  A configuration adds to the kernel
  state the blocking loop each task is in and, for the proofs only, the stack pointer each task last had
  (\<open>frame\<close>) and whether an interrupt has returned inside the window of the system-call return path
  (\<open>torn\<close>); no operation reads these two.  Slot 0 is the Idle task, which the kernel creates first.
\<close>

section \<open>Configurations and invariant\<close>

record 'c config =
  ks :: "'c sched"
  blk :: "nat \<Rightarrow> blocked"
  frame :: "nat \<Rightarrow> u64"
  torn :: bool

text \<open>The task whose stack the CPU is on: an armed switch has already changed \<open>g_current\<close>, and the CPU
  follows when the return path has loaded the stack pointer.\<close>

definition phys :: "'c sched \<Rightarrow> nat option" where
  "phys s = (case Task_SwitchPrev s of None \<Rightarrow> g_current s
     | Some p \<Rightarrow> if cpu_sc s = SC_Pending \<or> cpu_sc s = SC_Next then g_current s else Some p)"

text \<open>The return path: it is entered with a switch armed and pending, the outgoing task's pointer is
  already filed when the incoming one's is loaded, and the flag is clear only in front of the last stores.\<close>

definition posok :: "'c sched \<Rightarrow> (nat \<Rightarrow> u64) \<Rightarrow> bool" where
  "posok s fr \<longleftrightarrow> (cpu_sc s \<noteq> SC_Entry \<longrightarrow> Task_SwitchNext s \<noteq> None) \<and>
     (cpu_sc s \<noteq> SC_Entry \<longrightarrow> g_sched_switch_pending s = (cpu_sc s \<noteq> SC_Next)) \<and>
     (\<forall>n. cpu_sc s = SC_Load n \<longrightarrow> Task_SwitchNext s = Some n \<and>
        (\<forall>p. Task_SwitchPrev s = Some p \<longrightarrow> native_rsp (g_tasks s p) = fr p))"

definition swinv :: "'c sched \<Rightarrow> (nat \<Rightarrow> u64) \<Rightarrow> bool" where
  "swinv s fr \<longleftrightarrow> 0 \<le> g_irq_depth s \<and>
     (Task_SwitchNext s = None \<longrightarrow> Task_SwitchPrev s = None \<and> \<not> g_sched_switch_pending s) \<and>
     (\<forall>n. Task_SwitchNext s = Some n \<longrightarrow> g_current s = Some n \<and> \<not> dead s n \<and>
        (\<exists>p. Task_SwitchPrev s = Some p \<and> p \<noteq> n \<and> p < g_task_count s) \<and>
        (g_sched_switch_pending s \<or> 0 < g_irq_depth s \<or> cpu_sc s = SC_Next)) \<and>
     (\<forall>c. g_current s = Some c \<longrightarrow> c < g_task_count s) \<and>
     (\<forall>p. phys s = Some p \<longrightarrow> cpu_rsp s = fr p) \<and>
     (\<forall>t<g_task_count s. \<not> dead s t \<longrightarrow> phys s \<noteq> Some t \<longrightarrow> native_rsp (g_tasks s t) = fr t) \<and>
     posok s fr"

definition curok :: "'c sched \<Rightarrow> bool" where
  "curok s \<longleftrightarrow> (\<forall>c. g_current s = Some c \<longrightarrow> tc_State (g_tasks s c) = TASK_RUNNING \<or> dead s c) \<and>
     (if g_current s = None then \<forall>t<g_task_count s. tc_State (g_tasks s t) = TASK_READY
      else runnable s 0)"

definition timer_ok :: "'c sched \<Rightarrow> nat \<Rightarrow> u64 \<Rightarrow> bool" where
  "timer_ok s t d \<longleftrightarrow> (tc_wake_tick (g_tasks s t) = d \<or>
     tc_wake_tick (g_tasks s t) = 0 \<and> d \<le> g_pit_ticks s \<and> tc_State (g_tasks s t) \<noteq> TASK_WAITING)"

definition blocked_ok :: "'c sched \<Rightarrow> blocked \<Rightarrow> nat \<Rightarrow> bool" where
  "blocked_ok s b t \<longleftrightarrow>
     (case b of NotBlocked \<Rightarrow> tc_State (g_tasks s t) \<noteq> TASK_WAITING
      | InWait m \<Rightarrow> tc_SigWait (g_tasks s t) = m
      | InSleep d \<Rightarrow> tc_SigWait (g_tasks s t) = 0 \<and> timer_ok s t d
      | InWaitTicks m d \<Rightarrow> tc_SigWait (g_tasks s t) = m \<and> timer_ok s t d)"

definition binv :: "'c sched \<Rightarrow> (nat \<Rightarrow> blocked) \<Rightarrow> bool" where
  "binv s b \<longleftrightarrow> (\<forall>t<g_task_count s. \<not> dead s t \<longrightarrow> blocked_ok s (b t) t)"

definition kinv :: "'c sched \<Rightarrow> (nat \<Rightarrow> blocked) \<Rightarrow> (nat \<Rightarrow> u64) \<Rightarrow> bool" where
  "kinv s b fr \<longleftrightarrow> sinv s \<and> swinv s fr \<and> curok s \<and> binv s b"

lemma kinvD:
  assumes "kinv s b fr"
  shows "sinv s" "swinv s fr" "curok s" "binv s b"
    and "\<And>c. g_current s = Some c \<Longrightarrow> c < g_task_count s \<and> runnable s 0"
  using assms by (auto simp: kinv_def swinv_def curok_def)

section \<open>Frame rules\<close>

definition same_switch :: "'c sched \<Rightarrow> 'c sched \<Rightarrow> bool" where
  "same_switch s s' \<longleftrightarrow> g_current s' = g_current s \<and> Task_SwitchNext s' = Task_SwitchNext s \<and>
     Task_SwitchPrev s' = Task_SwitchPrev s \<and> g_sched_switch_pending s' = g_sched_switch_pending s \<and>
     g_task_count s' = g_task_count s \<and> cpu_rsp s' = cpu_rsp s \<and> cpu_sc s' = cpu_sc s \<and> g_irq_depth s' = g_irq_depth s \<and>
     (\<forall>t. native_rsp (g_tasks s' t) = native_rsp (g_tasks s t))"

lemma swinv_frame:
  assumes "swinv s fr" and "same_switch s s'" and "\<And>t. dead s t \<Longrightarrow> dead s' t"
    and "\<And>t. Task_SwitchNext s = Some t \<Longrightarrow> \<not> dead s' t"
  shows "swinv s' fr"
proof -
  have l: "\<not> dead s' t \<Longrightarrow> \<not> dead s t" for t using assms(3) by blast
  have p: "phys s' = phys s" using assms(2) by (simp add: same_switch_def phys_def split: option.split)
  have e: "g_current s' = g_current s" "Task_SwitchNext s' = Task_SwitchNext s"
    "Task_SwitchPrev s' = Task_SwitchPrev s" "g_sched_switch_pending s' = g_sched_switch_pending s"
    "g_task_count s' = g_task_count s" "cpu_rsp s' = cpu_rsp s" "cpu_sc s' = cpu_sc s" "g_irq_depth s' = g_irq_depth s"
    "native_rsp (g_tasks s' t) = native_rsp (g_tasks s t)" for t
    using assms(2) by (simp_all add: same_switch_def)
  have o: "posok s' fr = posok s fr" unfolding posok_def e ..
  show ?thesis
    using assms(1,4) unfolding swinv_def p o e by (blast dest: l)
qed

definition calm :: "'c sched \<Rightarrow> 'c sched \<Rightarrow> bool" where
  "calm s s' \<longleftrightarrow> g_task_count s' = g_task_count s \<and> g_pit_ticks s' = g_pit_ticks s \<and>
     (\<forall>t. tc_SigWait (g_tasks s' t) = tc_SigWait (g_tasks s t) \<and>
          tc_wake_tick (g_tasks s' t) = tc_wake_tick (g_tasks s t) \<and> (dead s t \<longrightarrow> dead s' t) \<and>
          (tc_State (g_tasks s' t) = TASK_WAITING \<longrightarrow> tc_State (g_tasks s t) = TASK_WAITING))"

lemma blocked_ok_calm: "blocked_ok s b t \<Longrightarrow> calm s s' \<Longrightarrow> blocked_ok s' b t"
  by (cases b) (auto simp: blocked_ok_def timer_ok_def calm_def)

lemma binv_calm: "binv s b \<Longrightarrow> calm s s' \<Longrightarrow> binv s' b"
  unfolding binv_def using blocked_ok_calm [of s _ _ s'] by (auto simp: calm_def)

lemma kinv_quiet:
  assumes k: "kinv s b fr" and i: "sinv s'" and q: "quiet s s'" and c: "calm s s'"
  shows "kinv s' b fr"
proof -
  have "same_switch s s'" using q by (simp add: quiet_def same_switch_def)
  then have "swinv s' fr"
    using kinvD(2) [OF k] q by (rule_tac swinv_frame) (auto simp: quiet_def swinv_def)
  moreover have "curok s'"
  proof (cases "g_current s")
    case None
    have "tc_State (g_tasks s' t) = TASK_READY" if t: "t < g_task_count s" for t
    proof -
      have r: "tc_State (g_tasks s t) = TASK_READY" using kinvD(3) [OF k] None t by (simp add: curok_def)
      then have "runnable s t" using t by (simp add: runnable_def)
      then have "runnable s' t" using q by (simp add: quiet_def)
      moreover have "tc_State (g_tasks s' t) \<noteq> TASK_RUNNING" using q r by (simp add: quiet_def)
      ultimately show ?thesis by (simp add: runnable_def)
    qed
    with None q show ?thesis by (simp add: curok_def quiet_def)
  next
    case (Some x)
    with kinvD(3) [OF k] q show ?thesis by (simp add: curok_def quiet_def)
  qed
  ultimately show ?thesis using i binv_calm [OF kinvD(4) [OF k] c] by (simp add: kinv_def)
qed

text \<open>The outcome of a reschedule: nothing, or a switch to another live task armed.\<close>

definition moved :: "bool \<Rightarrow> 'c sched \<Rightarrow> 'c sched \<Rightarrow> bool" where
  "moved irq s s' \<longleftrightarrow> keeps s s' \<and> (\<forall>t. runnable s t \<longrightarrow> runnable s' t) \<and>
     (g_current s' = g_current s \<and> Task_SwitchNext s' = Task_SwitchNext s \<and>
      Task_SwitchPrev s' = Task_SwitchPrev s \<and> g_sched_switch_pending s' = g_sched_switch_pending s \<or>
      Task_SwitchNext s = None \<and> \<not> g_sched_switch_pending s \<and>
      (\<exists>p n. g_current s = Some p \<and> n \<noteq> p \<and> n < g_task_count s \<and> \<not> dead s n \<and> g_current s' = Some n \<and>
         Task_SwitchNext s' = Some n \<and> Task_SwitchPrev s' = Some p \<and> g_sched_switch_pending s' = (\<not> irq)))"

lemma moved_refl [simp]: "moved irq s s"
  by (simp add: moved_def)

lemma keepsD:
  assumes "keeps s s'"
  shows "g_task_count s' = g_task_count s" "native_rsp (g_tasks s' t) = native_rsp (g_tasks s t)"
    "dead s' t \<longleftrightarrow> dead s t" "cpu_rsp s' = cpu_rsp s" "g_irq_depth s' = g_irq_depth s"
    "g_pit_ticks s' = g_pit_ticks s" "cpu_sc s' = cpu_sc s"
    "tc_State (g_tasks s' t) = TASK_WAITING \<longleftrightarrow> tc_State (g_tasks s t) = TASK_WAITING"
  using assms by (simp_all add: keeps_def)

lemma calm_keeps: "keeps s s' \<Longrightarrow> calm s s'"
  by (simp add: keeps_def calm_def)

lemma swinv_moved:
  assumes w: "swinv s fr" and m: "moved irq s s'" and d: "irq \<Longrightarrow> 0 < g_irq_depth s"
  shows "swinv s' fr"
proof -
  have k: "keeps s s'" using m by (simp add: moved_def)
  consider (none) "same_switch s s'"
    | (armed) p n where "Task_SwitchNext s = None" "g_current s = Some p" "n \<noteq> p" "n < g_task_count s"
        "\<not> dead s n" "g_current s' = Some n" "Task_SwitchNext s' = Some n" "Task_SwitchPrev s' = Some p"
        "g_sched_switch_pending s' = (\<not> irq)"
    using m unfolding moved_def keeps_def same_switch_def by metis
  then show ?thesis
  proof cases
    case none
    have "\<not> dead s' t" if "Task_SwitchNext s = Some t" for t
      using w k that by (auto simp: swinv_def keeps_def)
    then show ?thesis using swinv_frame [OF w none] k by (simp add: keeps_def)
  next
    case armed
    have e: "cpu_sc s = SC_Entry" "cpu_sc s' = SC_Entry" using w k armed(1) by (auto simp: swinv_def posok_def keeps_def)
    then have "phys s = Some p" "phys s' = Some p" using w armed by (simp_all add: phys_def swinv_def)
    then show ?thesis using w k d armed e by (auto simp: swinv_def keeps_def posok_def)
  qed
qed

lemma kinv_moved:
  assumes k: "kinv s b fr" and i: "sinv s'" "curok s'" and m: "moved irq s s'"
    and d: "irq \<Longrightarrow> 0 < g_irq_depth s"
  shows "kinv s' b fr"
  using i swinv_moved [OF kinvD(2) [OF k] m d] binv_calm [OF kinvD(4) [OF k] calm_keeps] m
  by (simp add: kinv_def moved_def)

lemma curok_moved_none:
  assumes "curok s" and "keeps s s'" and "g_current s' = g_current s"
    and "\<And>t. tc_State (g_tasks s' t) = tc_State (g_tasks s t)"
  shows "curok s'"
  using assms by (auto simp: curok_def keeps_def runnable_def)

text \<open>The reschedule itself, when it must dispatch and in general.\<close>

lemma do_schedule_now:
  assumes i: "sinv s" and c: "g_current s = Some prev" "prev < g_task_count s" and r: "runnable s 0"
    and d: "\<not> g_sched_switch_pending s" "Task_SwitchNext s = None" "\<not> (irq \<and> nested (g_tasks s prev))"
    and p: "Task_SwitchPrev s = None"
  shows "\<exists>s'. do_schedule e irq s = Some s' \<and> sinv s' \<and> curok s' \<and> moved irq s s'"
proof -
  obtain s' n where s': "do_schedule e irq s = Some s'" "sinv s'" "keeps s s'" "g_current s' = Some n"
    "n < g_task_count s" "tc_State (g_tasks s' n) = TASK_RUNNING"
    and u: "\<And>u. runnable s u \<Longrightarrow> u = n \<or> tc_State (g_tasks s' u) = TASK_READY"
    and sw: "if n = prev
            then Task_SwitchNext s' = None \<and> Task_SwitchPrev s' = Task_SwitchPrev s \<and> \<not> g_sched_switch_pending s'
            else Task_SwitchNext s' = Some n \<and> Task_SwitchPrev s' = Some prev \<and>
                 g_sched_switch_pending s' = (\<not> irq)"
    using do_schedule_dispatch [OF i c d r, of e] by blast
  have run: "runnable s t \<longrightarrow> runnable s' t" for t
    using u [of t] s'(3,6) by (auto simp: runnable_def keeps_def)
  moreover have "curok s'" using s'(4,6) run [of 0] r by (simp add: curok_def)
  moreover have "\<not> dead s n" using s'(6) keepsD(3) [OF s'(3), of n] by simp
  then have "moved irq s s'"
    using run s'(3-5) sw c d(1,2) p unfolding moved_def by (cases "n = prev") simp_all
  ultimately show ?thesis using s'(1,2) by blast
qed

lemma do_schedule_ok:
  assumes k: "kinv s b fr" and d: "irq \<Longrightarrow> 0 < g_irq_depth s"
  shows "\<exists>s'. do_schedule e irq s = Some s' \<and> kinv s' b fr"
proof (cases "g_current s")
  case None
  then show ?thesis using k by (simp add: do_schedule_def)
next
  case (Some prev)
  have c: "prev < g_task_count s" "runnable s 0" using kinvD(5) [OF k Some] by auto
  show ?thesis
  proof (cases "g_sched_switch_pending s \<or> Task_SwitchNext s \<noteq> None \<or> irq \<and> nested (g_tasks s prev)")
    case True
    define s' where "s' = (upd prev (\<lambda>x. x\<lparr>cpu_ticks :=
             cpu_ticks x + (g_pit_ticks s - g_acct_last_tick s)\<rparr>) s)
           \<lparr>g_acct_last_tick := g_pit_ticks s,
            g_need_resched := (if g_sched_switch_pending s \<or> Task_SwitchNext s = None
                               then True else g_need_resched s)\<rparr>"
    have "sinv s'" unfolding s'_def
      by (rule sinv_cong [OF sinv_upd [OF kinvD(1) [OF k], of "\<lambda>x. x\<lparr>cpu_ticks :=
             cpu_ticks x + (g_pit_ticks s - g_acct_last_tick s)\<rparr>" prev]]) auto
    moreover have "quiet s s'" "calm s s'"
      by (auto simp: s'_def quiet_def calm_def runnable_def)
    ultimately show ?thesis
      using do_schedule_deferred [OF Some True, of e] kinv_quiet [OF k] by (auto simp: s'_def)
  next
    case False
    then have "Task_SwitchPrev s = None" using kinvD(2) [OF k] by (auto simp: swinv_def)
    then obtain s' where "do_schedule e irq s = Some s'" "sinv s'" "curok s'" "moved irq s s'"
      using do_schedule_now [OF kinvD(1) [OF k] Some c, of irq e] False by auto
    then show ?thesis using kinv_moved [OF k _ _ _ d] by blast
  qed
qed

section \<open>Operations keep the invariant\<close>

text \<open>The running task: the current one, on its own stack, with no switch armed.\<close>

definition user :: "'c sched \<Rightarrow> nat \<Rightarrow> bool" where
  "user s c \<longleftrightarrow> g_current s = Some c \<and> tc_State (g_tasks s c) = TASK_RUNNING \<and>
     g_irq_depth s = 0 \<and> Task_SwitchNext s = None"

lemma user_unarmed: "kinv s b fr \<Longrightarrow> user s c \<Longrightarrow>
    c < g_task_count s \<and> runnable s 0 \<and> Task_SwitchPrev s = None \<and> \<not> g_sched_switch_pending s \<and> phys s = Some c"
  using kinvD(2,5) [of s b fr] by (simp add: user_def swinv_def phys_def)

lemma calm_upd:
  assumes "\<And>x. tc_SigWait (f x) = tc_SigWait x" "\<And>x. tc_wake_tick (f x) = tc_wake_tick x"
    "\<And>x. tc_State (f x) = tc_State x"
  shows "calm s (upd t f s)"
  using assms by (simp add: calm_def)

lemma kinv_upd:
  assumes "kinv s b fr" and "\<And>x. tc_State (f x) = tc_State x" "\<And>x. ln_Pri (f x) = ln_Pri x"
    "\<And>x. parent (f x) = parent x" "\<And>x. native_rsp (f x) = native_rsp x"
    "\<And>x. tc_SigWait (f x) = tc_SigWait x" "\<And>x. tc_wake_tick (f x) = tc_wake_tick x"
    and "\<And>x. x = g_tasks s t \<Longrightarrow> tc_State x = TASK_WAITING \<Longrightarrow>
           tc_SigRecvd x AND tc_SigWait x = 0 \<Longrightarrow> tc_SigRecvd (f x) AND tc_SigWait (f x) = 0"
  shows "kinv (upd t f s) b fr"
  using assms by (intro kinv_quiet [OF assms(1)] sinv_upd kinvD(1) quiet_upd calm_upd) auto

lemma kinv_cong:
  assumes k: "kinv s b fr" and "lk s' = lk s" "g_ready_map s' = g_ready_map s"
    "g_task_count s' = g_task_count s" "g_eventpump_task s' = g_eventpump_task s"
    "g_current s' = g_current s" "g_tasks s' = g_tasks s" "Task_SwitchNext s' = Task_SwitchNext s"
    "Task_SwitchPrev s' = Task_SwitchPrev s" "g_sched_switch_pending s' = g_sched_switch_pending s"
    "cpu_rsp s' = cpu_rsp s" "cpu_sc s' = cpu_sc s" "g_irq_depth s' = g_irq_depth s" "g_pit_ticks s' = g_pit_ticks s"
  shows "kinv s' b fr"
  by (rule kinv_quiet [OF k sinv_cong [OF kinvD(1) [OF k]]])
     (use assms in \<open>auto simp: quiet_def calm_def runnable_def\<close>)

lemma kinv_Signal:
  assumes k: "kinv s b fr" and t: "t < g_task_count s"
  shows "kinv (Signal (Some t) m s) b fr"
proof (rule kinv_quiet [OF k sinv_Signal [OF kinvD(1) [OF k] t] quiet_Signal])
  show "calm s (Signal (Some t) m s)"
    using quiet_Signal [of s t m] by (auto simp: calm_def quiet_def Signal_cases)
qed

lemma kinv_SetTaskPri:
  assumes k: "kinv s b fr" and t: "t < g_task_count s"
  shows "kinv (SetTaskPri (Some t) p s) b fr"
proof (rule kinv_quiet [OF k sinv_SetTaskPri [OF kinvD(1) [OF k] t] quiet_SetTaskPri])
  show "calm s (SetTaskPri (Some t) p s)"
    by (auto simp: calm_def SetTaskPri_def Let_def ready_remove_def)
qed

lemma kinv_CheckResched:
  assumes k: "kinv s b fr"
  shows "\<exists>s'. Task_CheckResched e s = Some s' \<and> kinv s' b fr"
proof -
  have "kinv (s\<lparr>g_need_resched := False\<rparr>) b fr" by (rule kinv_cong [OF k]) simp_all
  from do_schedule_ok [OF this, of False e] k show ?thesis
    by (auto simp: Task_CheckResched_def split: option.split)
qed

lemma kinv_Forbid: "kinv s b fr \<Longrightarrow> kinv (Forbid s) b fr"
  by (auto simp: Forbid_def split: option.split intro!: kinv_upd)

lemma kinv_Permit:
  assumes k: "kinv s b fr"
  shows "\<exists>s'. Permit e s = Some s' \<and> kinv s' b fr"
proof (cases "g_current s")
  case (Some c)
  let ?s = "upd c (\<lambda>x. x\<lparr>tc_TDNestCnt := tc_TDNestCnt x - 1\<rparr>) s"
  have k1: "kinv ?s b fr" by (rule kinv_upd [OF k]) simp_all
  have k2: "kinv (upd c (\<lambda>x. x\<lparr>tc_TDNestCnt := 0\<rparr>) ?s) b fr" by (rule kinv_upd [OF k1]) simp_all
  show ?thesis
    using Some k1 kinv_CheckResched [OF k2, of e] by (simp add: Permit_def Let_def)
qed (use k in \<open>simp add: Permit_def\<close>)

lemma kinv_Disable: "kinv s b fr \<Longrightarrow> kinv (Disable s) b fr"
proof -
  assume k: "kinv s b fr"
  have "kinv (s\<lparr>cpu_if := False\<rparr>) b fr" by (rule kinv_cong [OF k]) simp_all
  then show ?thesis by (auto simp: Disable_def Let_def split: option.split intro!: kinv_upd)
qed

lemma kinv_Enable:
  assumes k: "kinv s b fr"
  shows "\<exists>s'. Enable e s = Some s' \<and> kinv s' b fr"
proof (cases "g_current s")
  case None
  have "kinv (s\<lparr>cpu_if := True\<rparr>) b fr" by (rule kinv_cong [OF k]) simp_all
  with None show ?thesis by (simp add: Enable_def)
next
  case (Some c)
  let ?s = "upd c (\<lambda>x. x\<lparr>tc_IDNestCnt := tc_IDNestCnt x - 1\<rparr>) s"
  let ?t = "upd c (\<lambda>x. x\<lparr>tc_IDNestCnt := 0\<rparr>) ?s"
  have k1: "kinv ?s b fr" by (rule kinv_upd [OF k]) simp_all
  have k2: "kinv ?t b fr" by (rule kinv_upd [OF k1]) simp_all
  have k3: "kinv (?t\<lparr>cpu_if := True\<rparr>) b fr" by (rule kinv_cong [OF k2]) simp_all
  show ?thesis
    using Some k1 kinv_CheckResched [OF k3, of e] by (simp add: Enable_def Let_def)
qed

lemma kinv_switch_away:
  assumes k: "kinv s b fr"
  shows "\<exists>sw s'. task_switch_away e s = Some (sw, s') \<and> kinv s' b fr"
  using do_schedule_ok [OF k, of False e] by (auto simp: task_switch_away_def)

lemma kinv_Yield:
  assumes k: "kinv s b fr"
  shows "\<exists>sw s'. Task_Yield e s = Some (sw, s') \<and> kinv s' b fr"
  using kinv_switch_away [OF k, of e] k by (auto simp: Task_Yield_def split: option.split)

lemma kinv_EventPump_Wake:
  assumes k: "kinv s b fr"
  shows "\<exists>s'. EventPump_Wake e s = Some s' \<and> kinv s' b fr"
proof -
  let ?s = "case g_eventpump_task s of None \<Rightarrow> s
     | Some t \<Rightarrow> if tc_State (g_tasks s t) \<noteq> TASK_REMOVED then Signal (Some t) SIGF_EVENTPUMP s else s"
  have "t < g_task_count s" if "g_eventpump_task s = Some t" for t
    using kinvD(1) [OF k] that qinvD(7) unfolding sinv_def by blast
  then have "kinv ?s b fr" using k by (auto split: option.split intro: kinv_Signal)
  then show ?thesis
    using do_schedule_ok [of ?s b fr True e] by (simp add: EventPump_Wake_def Let_def)
qed

lemma kinv_frame:
  assumes k: "kinv s b fr" and i: "sinv s'" and w: "same_switch s s'" and c: "calm s s'"
    and "Task_SwitchNext s = None" and "curok s'"
  shows "kinv s' b fr"
  using assms swinv_frame [OF kinvD(2) [OF k] w] binv_calm [OF kinvD(4) [OF k] c]
  by (simp add: kinv_def calm_def)

lemma curok_kill:
  assumes "curok s" and "g_current s' = g_current s" "g_current s \<noteq> None" "g_task_count s' = g_task_count s"
    and "\<And>u. u \<noteq> t \<Longrightarrow> tc_State (g_tasks s' u) = tc_State (g_tasks s u)" "dead s' t" "t \<noteq> 0"
  shows "curok s'"
  using assms unfolding curok_def runnable_def by (auto split: if_splits) (metis assms(5,6))+

lemma kinv_RemTask:
  assumes k: "kinv s b fr" and u: "user s c" and t: "t < g_task_count s" "t \<noteq> 0"
  shows "kinv (RemTask t s) b fr"
proof (rule kinv_frame [OF k sinv_RemTask [OF kinvD(1) [OF k] t(1)]])
  show "curok (RemTask t s)"
    by (rule curok_kill [OF kinvD(3) [OF k], where t = t])
       (use u t in \<open>auto simp: RemTask_def Let_def user_def\<close>)
qed (use u in \<open>auto simp: RemTask_def Let_def same_switch_def calm_def user_def\<close>)

lemma kinv_exit:
  assumes k: "kinv s b fr" and u: "user s c" "c \<noteq> 0"
  shows "kinv (set_state c TASK_REMOVED s) b fr"
proof (rule kinv_frame [OF k])
  obtain rq wq where q: "qinv {} s rq wq" using kinvD(1) [OF k] unfolding sinv_def by blast
  have c: "c < g_task_count s" using user_unarmed [OF k u(1)] by simp
  then have "c \<notin> set wq" using qinvD(4) [OF q c] u by (simp add: placed_def user_def)
  then show "sinv (set_state c TASK_REMOVED s)" using qinv_kill [OF q _ c] unfolding sinv_def by blast
  show "curok (set_state c TASK_REMOVED s)"
    by (rule curok_kill [OF kinvD(3) [OF k], where t = c]) (use u in \<open>auto simp: user_def\<close>)
qed (use u in \<open>auto simp: same_switch_def calm_def user_def\<close>)

lemma kinv_Exit_mark:
  assumes k: "kinv s b fr" and u: "user s c" "c \<noteq> 0"
  shows "kinv (Task_Exit_mark s) b fr"
proof -
  define s1 where "s1 = (if g_wait_tof_task s = Some c then s\<lparr>g_wait_tof_task := None\<rparr> else s)"
  define s2 where "s2 = (if ttype (g_tasks s1 c) = TASK_TYPE_M68K \<and> sint (m68k_vblank_sig (g_tasks s1 c)) \<ge> 0
     then upd c (\<lambda>x. x\<lparr>tc_SigAlloc := tc_SigAlloc x OR push_bit (unat (m68k_vblank_sig x)) 1,
             m68k_vblank_sig := -1\<rparr>) s1 else s1)"
  define s3 where "s3 = (if ttype (g_tasks s2 c) = TASK_TYPE_M68K then upd c (\<lambda>x. x\<lparr>m68k_ram := 0\<rparr>) s2 else s2)"
  have k1: "kinv s1 b fr" unfolding s1_def using k by (auto intro: kinv_cong)
  have k2: "kinv s2 b fr" unfolding s2_def using k1 by (auto intro: kinv_upd)
  have k3: "kinv s3 b fr" unfolding s3_def using k2 by (auto intro: kinv_upd)
  have "user s3 c" using u(1) by (auto simp: user_def s1_def s2_def s3_def)
  from kinv_exit [OF k3 this u(2)] have k4: "kinv (set_state c TASK_REMOVED s3) b fr" .
  moreover have "p < g_task_count s3" if p: "parent (g_tasks s3 c) = Some p" for p
  proof -
    have "c < g_task_count s3" using user_unarmed [OF k u(1)] by (simp add: s1_def s2_def s3_def)
    then show ?thesis using kinvD(1) [OF k3] qinvD(6) p unfolding sinv_def by blast
  qed
  moreover have "Task_Exit_mark s = (let s = set_state c TASK_REMOVED s3 in
      case parent (g_tasks s c) of None \<Rightarrow> s
      | Some p \<Rightarrow> if tc_State (g_tasks s p) \<noteq> TASK_REMOVED then Signal (Some p) SIGF_CHILD s else s)"
    using u(1) unfolding Task_Exit_mark_def user_def s3_def s2_def s1_def Let_def by simp
  ultimately show ?thesis by (auto simp: Let_def split: option.split intro!: kinv_Signal)
qed

section \<open>Interrupt work and epilogues\<close>

lemma kinv_tick:
  assumes k: "kinv s b fr" and n: "g_pit_ticks s + 1 \<noteq> 0"
  shows "kinv (s\<lparr>g_pit_ticks := g_pit_ticks s + 1\<rparr>) b fr"
proof -
  let ?s = "s\<lparr>g_pit_ticks := g_pit_ticks s + 1\<rparr>"
  have le: "g_pit_ticks s \<le> g_pit_ticks s + 1"
    using unatSuc [of "g_pit_ticks s"] n by (simp add: word_le_nat_alt add.commute)
  have "blocked_ok ?s (b t) t" if "blocked_ok s (b t) t" for t
    using that order_trans [OF _ le]
    by (cases "b t") (auto simp: blocked_ok_def timer_ok_def)
  then have "binv ?s b" using kinvD(4) [OF k] by (simp add: binv_def)
  moreover have "swinv ?s fr"
    using kinvD(2) [OF k] by (intro swinv_frame [OF kinvD(2) [OF k]]) (auto simp: same_switch_def swinv_def)
  moreover have "sinv ?s" by (rule sinv_cong [OF kinvD(1) [OF k]]) simp_all
  moreover have "curok ?s" using kinvD(3) [OF k] by (auto simp: curok_def runnable_def)
  ultimately show ?thesis by (simp add: kinv_def)
qed

lemma kinv_WakeTimers:
  assumes k: "kinv s b fr"
  shows "\<exists>s'. Task_WakeTimers s = Some s' \<and> kinv s' b fr"
proof -
  obtain rq wq where q: "qinv {} s rq wq" using kinvD(1) [OF k] unfolding sinv_def by blast
  obtain s' l m w v where r: "Task_WakeTimers s = Some s'"
    and i: "sinv s'"
    and s': "s' = s\<lparr>lk := l, g_ready_map := m, g_wait_count := w, g_tasks := wake_tasks s wq, g_strand_votes := v\<rparr>"
    using Task_WakeTimers_spec [OF q] unfolding sinv_def by blast
  have st: "tc_State (g_tasks s t) = TASK_WAITING" "t < g_task_count s" if "t \<in> set wq" for t
    using qinv_waiting [OF q that] qinv_wait [OF q that] by auto
  have d: "dead s' t \<longleftrightarrow> dead s t" for t using st [of t] by (auto simp: s' wake_tasks_def)
  have "swinv s' fr"
    using kinvD(2) [OF k] d by (intro swinv_frame [OF kinvD(2) [OF k]])
      (auto simp: same_switch_def s' wake_tasks_def swinv_def)
  moreover have "curok s'"
    using kinvD(3) [OF k] st by (auto simp: curok_def s' wake_tasks_def runnable_def) 
  moreover have "binv s' b"
    unfolding binv_def
  proof (intro allI impI)
    fix t assume t: "t < g_task_count s'" "\<not> dead s' t"
    then have ok: "blocked_ok s (b t) t" using kinvD(4) [OF k] d by (simp add: binv_def s')
    show "blocked_ok s' (b t) t"
    proof (cases "t \<in> set wq \<and> expired s t")
      case True
      then show ?thesis
        using ok st [of t] by (cases "b t") (auto simp: blocked_ok_def timer_ok_def s' wake_tasks_def expired_def)
    next
      case False
      then have "g_tasks s' t = g_tasks s t" by (auto simp: s' wake_tasks_def)
      then show ?thesis using ok by (cases "b t") (auto simp: blocked_ok_def timer_ok_def s')
    qed
  qed
  ultimately show ?thesis using r i by (auto simp: kinv_def)
qed

text \<open>Carrying out an armed switch: the outgoing task's frame is filed under its own name and
  the incoming task resumes at its own.\<close>

lemma kinv_commit:
  assumes k: "kinv s b fr" and a: "Task_SwitchNext s = Some n" "Task_SwitchPrev s = Some p" "cpu_sc s = SC_Entry"
    and d: "\<not> g_sched_switch_pending s"
  shows "kinv (commit_switch p n s) b fr"
proof -
  let ?u = "upd p (\<lambda>x. x\<lparr>native_rsp := cpu_rsp s\<rparr>) s"
  let ?s = "commit_switch p n s"
  note w = kinvD(2) [OF k]
  have f: "g_current s = Some n" "p \<noteq> n" "p < g_task_count s" "n < g_task_count s" "\<not> dead s n" "phys s = Some p"
    using w a by (auto simp: swinv_def phys_def)
  have pn: "native_rsp (g_tasks s n) = fr n" "cpu_rsp s = fr p" using w f by (auto simp: swinv_def)
  then have c: "cpu_rsp ?s = fr n" using f(2) by (simp add: commit_switch_def Let_def)
  have "sinv ?u" by (rule sinv_upd [OF kinvD(1) [OF k]]) simp_all
  then have "sinv ?s" by (rule sinv_cong) (simp_all add: commit_switch_def Let_def)
  moreover have "phys ?s = Some n" using f(1) by (simp add: phys_def commit_switch_def Let_def)
  then have "swinv ?s fr"
    using w f pn c d a(3) by (auto simp: swinv_def posok_def commit_switch_def Let_def)
  moreover have "curok ?s"
    using kinvD(3) [OF k] by (auto simp: curok_def runnable_def commit_switch_def Let_def)
  moreover have "binv ?s b"
    using binv_calm [OF kinvD(4) [OF k]] by (simp add: calm_def commit_switch_def Let_def)
  ultimately show "kinv ?s b fr" by (simp add: kinv_def)
qed

text \<open>An interrupt epilogue in front of the last stores: the queues are as before, but the pointer filed
  in the outgoing task is the incoming one's.\<close>

lemma kinv_commit_torn:
  assumes k: "kinv s b fr" and a: "Task_SwitchNext s = Some n" "Task_SwitchPrev s = Some p" "cpu_sc s = SC_Next"
    and d: "\<not> g_sched_switch_pending s"
  shows "kinv ((commit_switch p n s)\<lparr>cpu_sc := SC_Entry\<rparr>) b (fr(p := fr n, n := native_rsp (g_tasks s n)))"
    and "native_rsp (g_tasks (commit_switch p n s) p) = fr n"
proof -
  let ?u = "upd p (\<lambda>x. x\<lparr>native_rsp := cpu_rsp s\<rparr>) s"
  let ?s = "(commit_switch p n s)\<lparr>cpu_sc := SC_Entry\<rparr>"
  note w = kinvD(2) [OF k]
  have f: "g_current s = Some n" "p \<noteq> n" "p < g_task_count s" "n < g_task_count s" "\<not> dead s n" "phys s = Some n"
    using w a by (auto simp: swinv_def phys_def)
  have pn: "cpu_rsp s = fr n" using w f by (auto simp: swinv_def)
  then show "native_rsp (g_tasks (commit_switch p n s) p) = fr n" by (simp add: commit_switch_def Let_def)
  have "sinv ?u" by (rule sinv_upd [OF kinvD(1) [OF k]]) simp_all
  then have "sinv ?s" by (rule sinv_cong) (simp_all add: commit_switch_def Let_def)
  moreover have "phys ?s = Some n" using f(1) by (simp add: phys_def commit_switch_def Let_def)
  then have "swinv ?s (fr(p := fr n, n := native_rsp (g_tasks s n)))"
    using w f pn d a(3) by (auto simp: swinv_def posok_def commit_switch_def Let_def)
  moreover have "curok ?s"
    using kinvD(3) [OF k] by (auto simp: curok_def runnable_def commit_switch_def Let_def)
  moreover have "binv ?s b"
    using binv_calm [OF kinvD(4) [OF k]] by (simp add: calm_def commit_switch_def Let_def)
  ultimately show "kinv ?s b (fr(p := fr n, n := native_rsp (g_tasks s n)))" by (simp add: kinv_def)
qed

lemma syscall_step_calm: "calm s (syscall_epilogue (cpu_sc s) s)"
  by (cases "cpu_sc s") (auto simp: calm_def split: option.split)

lemma swinv_syscall_step:
  assumes w: "swinv s fr" and d: "g_irq_depth s = 0"
  shows "swinv (syscall_epilogue (cpu_sc s) s) fr"
proof (cases "Task_SwitchNext s")
  case None
  then have "cpu_sc s = SC_Entry" using w by (auto simp: swinv_def posok_def)
  then show ?thesis using w None by simp
next
  case (Some n)
  then obtain p where p: "Task_SwitchPrev s = Some p" "p \<noteq> n" "g_current s = Some n" "n < g_task_count s" "\<not> dead s n"
    using w by (auto simp: swinv_def)
  show ?thesis
  proof (cases "cpu_sc s")
    case SC_Entry
    then have "g_sched_switch_pending s" using w Some d by (auto simp: swinv_def)
    then show ?thesis using w Some p SC_Entry by (auto simp: swinv_def posok_def phys_def)
  next
    case (SC_Load m)
    then show ?thesis using w Some p by (auto simp: swinv_def posok_def phys_def)
  next
    case SC_Pending
    then show ?thesis using w Some p by (auto simp: swinv_def posok_def phys_def)
  next
    case SC_Next
    then show ?thesis using w Some p by (auto simp: swinv_def posok_def phys_def)
  qed
qed

lemma kinv_syscall_epilogue:
  assumes k: "kinv s b fr" and d: "g_irq_depth s = 0"
  shows "kinv (syscall_epilogue (cpu_sc s) s) b fr"
proof -
  let ?s = "syscall_epilogue (cpu_sc s) s"
  have "sinv ?s"
  proof (cases "cpu_sc s")
    case SC_Entry
    have "sinv (upd p (\<lambda>x. x\<lparr>native_rsp := cpu_rsp s\<rparr>) s)" for p by (rule sinv_upd [OF kinvD(1) [OF k]]) simp_all
    then have "sinv ((upd p (\<lambda>x. x\<lparr>native_rsp := cpu_rsp s\<rparr>) s)\<lparr>cpu_sc := q\<rparr>)" for p q by (rule sinv_cong) simp_all
    then show ?thesis using SC_Entry kinvD(1) [OF k] by (auto split: option.split)
  qed (rule sinv_cong [OF kinvD(1) [OF k]]; simp)+
  moreover have "curok ?s" using kinvD(3) [OF k]
    by (cases "cpu_sc s") (auto simp: curok_def runnable_def split: option.split)
  ultimately show ?thesis
    using swinv_syscall_step [OF kinvD(2) [OF k] d] binv_calm [OF kinvD(4) [OF k] syscall_step_calm] by (simp add: kinv_def)
qed

lemma kinv_irq_enter: "kinv s b fr \<Longrightarrow> kinv (s\<lparr>g_irq_depth := g_irq_depth s + 1\<rparr>) b fr"
proof -
  assume k: "kinv s b fr"
  let ?s = "s\<lparr>g_irq_depth := g_irq_depth s + 1\<rparr>"
  have "phys ?s = phys s" by (simp add: phys_def split: option.split)
  then have "swinv ?s fr" using kinvD(2) [OF k] by (auto simp: swinv_def posok_def)
  moreover have "sinv ?s" by (rule sinv_cong [OF kinvD(1) [OF k]]) simp_all
  moreover have "curok ?s" using kinvD(3) [OF k] by (auto simp: curok_def runnable_def)
  moreover have "binv ?s b" using binv_calm [OF kinvD(4) [OF k]] by (simp add: calm_def)
  ultimately show ?thesis by (simp add: kinv_def)
qed

lemma kinv_irq_leave:
  assumes k: "kinv s b fr" and d: "0 < g_irq_depth s"
    and n: "\<not> isr_commits (s\<lparr>g_irq_depth := g_irq_depth s - 1\<rparr>) \<or> cpu_sc s = SC_Next"
  shows "kinv (s\<lparr>g_irq_depth := g_irq_depth s - 1\<rparr>) b fr"
proof -
  let ?s = "s\<lparr>g_irq_depth := g_irq_depth s - 1\<rparr>"
  have p: "phys ?s = phys s" by (simp add: phys_def split: option.split)
  have "swinv ?s fr" using kinvD(2) [OF k] d n unfolding swinv_def p posok_def isr_commits_def by auto
  moreover have "sinv ?s" by (rule sinv_cong [OF kinvD(1) [OF k]]) simp_all
  moreover have "curok ?s" using kinvD(3) [OF k] by (auto simp: curok_def runnable_def)
  moreover have "binv ?s b" using binv_calm [OF kinvD(4) [OF k]] by (simp add: calm_def)
  ultimately show ?thesis by (simp add: kinv_def)
qed

lemma isr_epilogue_idle: "\<not> isr_commits s \<Longrightarrow> isr_epilogue s = s"
  by (auto simp: isr_commits_def isr_epilogue_def split: option.split)

text \<open>The return from an interrupt keeps the invariant, outside the window for the same frames.\<close>

lemma kinv_irq_exit:
  assumes k: "kinv s b fr" and d: "0 < g_irq_depth s"
  defines "t \<equiv> s\<lparr>g_irq_depth := g_irq_depth s - 1\<rparr>"
  shows "if isr_commits t \<and> cpu_sc s = SC_Next then \<exists>fr. kinv (isr_epilogue t) b fr
     else kinv (isr_epilogue t) b fr"
proof (cases "isr_commits t")
  case False
  then show ?thesis using kinv_irq_leave [OF k d] isr_epilogue_idle [OF False] by (simp add: t_def)
next
  case True
  have c: "\<not> g_sched_switch_pending s" "g_irq_depth s = 1" "Task_SwitchNext s \<noteq> None"
    using True by (simp_all add: isr_commits_def t_def)
  obtain n p where a: "Task_SwitchNext s = Some n" "Task_SwitchPrev s = Some p"
    using kinvD(2) [OF k] c by (auto simp: swinv_def)
  have q: "cpu_sc s = SC_Entry \<or> cpu_sc s = SC_Next"
    using kinvD(2) [OF k] c by (auto simp: swinv_def posok_def)
  have e: "isr_epilogue t = (commit_switch p n t)\<lparr>cpu_sc := SC_Entry\<rparr>"
    using c a by (simp add: isr_epilogue_def t_def)
  show ?thesis
  proof (cases "cpu_sc s = SC_Next")
    case N: True
    have "kinv t b fr" unfolding t_def by (rule kinv_irq_leave [OF k d]) (use N in simp)
    from kinv_commit_torn(1) [OF this, of n p] show ?thesis using a c N True unfolding e by (auto simp: t_def)
  next
    case False
    have e2: "isr_epilogue t = (commit_switch p n s)\<lparr>g_irq_depth := g_irq_depth (commit_switch p n s) - 1\<rparr>"
      using c q False unfolding e by (simp add: commit_switch_def Let_def upd_def t_def)
    have "kinv (commit_switch p n s) b fr" using kinv_commit [OF k a _ c(1)] q False by blast
    then have "kinv (isr_epilogue t) b fr"
      unfolding e2 by (rule kinv_irq_leave) (use c in \<open>simp_all add: commit_switch_def Let_def isr_commits_def\<close>)
    then show ?thesis using False by simp
  qed
qed

section \<open>Blocking\<close>

lemma kinv_set_wait:
  assumes k: "kinv s b fr" and u: "user s c" and ok: "blocked_ok (upd c f s) bl c"
    and f: "\<And>x. tc_State (f x) = tc_State x" "\<And>x. ln_Pri (f x) = ln_Pri x" "\<And>x. parent (f x) = parent x"
      "\<And>x. native_rsp (f x) = native_rsp x"
  shows "kinv (upd c f s) (b(c := bl)) fr"
proof -
  let ?s = "upd c f s"
  have "sinv ?s" by (rule sinv_upd [OF kinvD(1) [OF k] f(1-3)]) (use u in \<open>auto simp: user_def\<close>)
  moreover have "swinv ?s fr"
    using kinvD(2) [OF k] f by (intro swinv_frame [OF kinvD(2) [OF k]]) (auto simp: same_switch_def swinv_def)
  moreover have "curok ?s" using kinvD(3) [OF k] f(1) by (auto simp: curok_def runnable_def)
  moreover have "blocked_ok ?s (b t) t" if "t \<noteq> c" "blocked_ok s (b t) t" for t
    using that by (cases "b t") (auto simp: blocked_ok_def timer_ok_def)
  then have "binv ?s (b(c := bl))" using kinvD(4) [OF k] ok f(1) by (auto simp: binv_def)
  ultimately show ?thesis by (simp add: kinv_def)
qed

lemma kinv_enter:
  assumes k: "kinv s b fr" and u: "user s c"
  shows "Wait_enter m c s = (bl, s') \<Longrightarrow> kinv s' (b(c := bl)) fr"
    and "Task_SleepTicks_enter d c s = (bl, s') \<Longrightarrow> b c = NotBlocked \<Longrightarrow> kinv s' (b(c := bl)) fr"
    and "Task_WaitTicks_enter m d c s = (bl, s') \<Longrightarrow> b c = NotBlocked \<Longrightarrow> kinv s' (b(c := bl)) fr"
proof -
  show "kinv s' (b(c := bl)) fr" if "Wait_enter m c s = (bl, s')"
    using that kinv_set_wait [OF k u, of "\<lambda>x. x\<lparr>tc_SigWait := m\<rparr>" "InWait m"]
    by (auto simp: Wait_enter_def blocked_ok_def)
  have sl: "kinv s' (b(c := bl)) fr" if "Task_SleepTicks_enter d c s = (bl, s')" "b c = NotBlocked" for d bl s'
    using that k kinv_set_wait [OF k u, of "\<lambda>x. x\<lparr>tc_SigWait := 0, tc_wake_tick := g_pit_ticks s + d\<rparr>"
        "InSleep (g_pit_ticks s + d)"]
    by (auto simp: Task_SleepTicks_enter_def blocked_ok_def timer_ok_def Let_def fun_upd_idem split: if_splits)
  then show "Task_SleepTicks_enter d c s = (bl, s') \<Longrightarrow> b c = NotBlocked \<Longrightarrow> kinv s' (b(c := bl)) fr" .
  show "kinv s' (b(c := bl)) fr" if "Task_WaitTicks_enter m d c s = (bl, s')" "b c = NotBlocked"
    using that sl kinv_set_wait [OF k u, of "\<lambda>x. x\<lparr>tc_SigWait := m, tc_wake_tick := g_pit_ticks s + d\<rparr>"
        "InWaitTicks m (g_pit_ticks s + d)"]
    by (auto simp: Task_WaitTicks_enter_def blocked_ok_def timer_ok_def Let_def split: if_splits)
qed

text \<open>Parking the running task and switching away always finds another task: Idle is runnable.\<close>

lemma kinv_park:
  assumes k: "kinv s b fr" and u: "user s c" "c \<noteq> 0"
    and sg: "tc_SigRecvd (g_tasks s c) AND tc_SigWait (g_tasks s c) = 0"
    and ok: "blocked_ok (park_current c s) (b c) c"
  shows "\<exists>s'. task_switch_away e (park_current c s) = Some (True, s') \<and> kinv s' b fr \<and>
           tc_State (g_tasks s' c) = TASK_WAITING \<and> g_task_count s' = g_task_count s"
proof -
  define s1 where "s1 = park_current c s"
  have s1: "s1 = wait_enqueue c (set_state c TASK_WAITING s)"
    using u(1) by (simp add: s1_def park_current_def user_def)
  obtain rq wq where q: "qinv {} s rq wq" using kinvD(1) [OF k] unfolding sinv_def by blast
  have c: "c < g_task_count s" "runnable s 0" "Task_SwitchPrev s = None" "\<not> g_sched_switch_pending s"
    using user_unarmed [OF k u(1)] by auto
  have "\<not> queued rq wq c"
    using qinvD(4) [OF q c(1)] u(1) by (auto simp: placed_def queued_def in_ready_def user_def)
  then have q1: "qinv {c} s rq wq" using qinv_out [OF q c(1)] by simp
  have "qinv {c} (set_state c TASK_WAITING s) rq wq"
    by (rule qinv_frame [OF q1]) (use qinvD(5) [OF q1] in auto)
  from qinv_in_wait [OF this, of c] have i: "sinv s1" unfolding s1 sinv_def using sg by auto
  have r0: "runnable s1 0" using c(2) u(2) by (auto simp: runnable_def s1)
  have cur: "g_current s1 = Some c" "c < g_task_count s1" "\<not> g_sched_switch_pending s1"
    "Task_SwitchNext s1 = None" "Task_SwitchPrev s1 = None"
    using u(1) c by (auto simp: s1 user_def)
  obtain s' n where s': "do_schedule e False s1 = Some s'" "sinv s'" "keeps s1 s'" "g_current s' = Some n"
    "n < g_task_count s1" "tc_State (g_tasks s' n) = TASK_RUNNING"
    and run: "\<And>u. runnable s1 u \<Longrightarrow> u = n \<or> tc_State (g_tasks s' u) = TASK_READY"
    and sw: "if n = c
            then Task_SwitchNext s' = None \<and> Task_SwitchPrev s' = Task_SwitchPrev s1 \<and> \<not> g_sched_switch_pending s'
            else Task_SwitchNext s' = Some n \<and> Task_SwitchPrev s' = Some c \<and> g_sched_switch_pending s'"
    using do_schedule_dispatch [OF i cur(1-4), of False 0 e] r0 by auto
  have wt: "tc_State (g_tasks s' c) = TASK_WAITING" "g_task_count s' = g_task_count s"
    using keepsD(8) [OF s'(3), of c] keepsD(1) [OF s'(3)] by (simp_all add: s1)
  then have "n \<noteq> c" using s'(6) by auto
  have "swinv s1 fr"
    using kinvD(2) [OF k] u(1) by (intro swinv_frame [OF kinvD(2) [OF k]])
      (auto simp: same_switch_def s1 swinv_def user_def)
  moreover have m: "moved False s1 s'" "curok s'"
    using do_schedule_now [OF i cur(1,2) r0 cur(3,4) _ cur(5), of False e] s'(1) by auto
  ultimately have "swinv s' fr" using swinv_moved by blast
  moreover have "binv s1 b"
  proof -
    have "blocked_ok s1 (b t) t" if "t \<noteq> c" "blocked_ok s (b t) t" for t
      using that by (cases "b t") (auto simp: blocked_ok_def timer_ok_def s1)
    then show ?thesis using kinvD(4) [OF k] ok unfolding s1_def [symmetric] by (auto simp: binv_def s1)
  qed
  then have "binv s' b" using binv_calm calm_keeps [OF s'(3)] by blast
  ultimately have "kinv s' b fr" using s'(2) m(2) by (simp add: kinv_def)
  moreover have "task_switch_away e s1 = Some (True, s')"
    using s'(1) sw \<open>n \<noteq> c\<close> by (simp add: task_switch_away_def)
  ultimately show ?thesis using wt by (simp add: s1_def)
qed

lemma kinv_block_iter:
  assumes k: "kinv s b fr" and u: "user s c" "c \<noteq> 0"
  shows "(\<exists>r s'. block_iter e (b c) c s = Some (Done r s') \<and> kinv s' (b(c := NotBlocked)) fr) \<or>
         (\<exists>s'. block_iter e (b c) c s = Some (Parked True s') \<and> kinv s' b fr \<and>
            tc_State (g_tasks s' c) = TASK_WAITING \<and> g_task_count s' = g_task_count s)"
proof -
  have run: "tc_State (g_tasks s c) = TASK_RUNNING" and c: "c < g_task_count s"
    using u(1) user_unarmed [OF k u(1)] by (simp_all add: user_def)
  then have ok: "blocked_ok s (b c) c" using kinvD(4) [OF k] by (simp add: binv_def)
  have fin: "kinv (upd c f s) (b(c := NotBlocked)) fr"
    if "\<And>x. tc_State (f x) = tc_State x" "\<And>x. ln_Pri (f x) = ln_Pri x" "\<And>x. parent (f x) = parent x"
      "\<And>x. native_rsp (f x) = native_rsp x" for f
    by (rule kinv_set_wait [OF k u(1)]) (use that run in \<open>auto simp: blocked_ok_def\<close>)
  note park = kinv_park [OF k u, of e]
  show ?thesis
  proof (cases "b c")
    case NotBlocked
    then have "b(c := NotBlocked) = b" by auto
    then show ?thesis using k NotBlocked by (simp add: block_iter_def)
  next
    case (InWait m)
    then have w: "tc_SigWait (g_tasks s c) = m" using ok by (simp add: blocked_ok_def)
    show ?thesis
    proof (cases "tc_SigRecvd (g_tasks s c) AND m = 0")
      case True
      then have "blocked_ok (park_current c s) (b c) c"
        using InWait w run by (simp add: blocked_ok_def park_current_def)
      with park True w InWait show ?thesis by (auto simp: block_iter_def Wait_iter_def)
    qed (use fin InWait in \<open>simp add: block_iter_def Wait_iter_def\<close>)
  next
    case (InSleep d)
    then have w: "tc_SigWait (g_tasks s c) = 0" "timer_ok s c d" using ok by (simp_all add: blocked_ok_def)
    show ?thesis
    proof (cases "g_pit_ticks s < d")
      case True
      then have "blocked_ok (park_current c s) (b c) c"
        using InSleep w run by (auto simp: blocked_ok_def park_current_def timer_ok_def)
      with park True w InSleep show ?thesis by (auto simp: block_iter_def Task_SleepTicks_iter_def)
    qed (use fin InSleep in \<open>simp add: block_iter_def Task_SleepTicks_iter_def\<close>)
  next
    case (InWaitTicks m d)
    then have w: "tc_SigWait (g_tasks s c) = m" "timer_ok s c d" using ok by (simp_all add: blocked_ok_def)
    show ?thesis
    proof (cases "tc_SigRecvd (g_tasks s c) AND m = 0 \<and> g_pit_ticks s < d")
      case True
      then have "blocked_ok (park_current c s) (b c) c"
        using InWaitTicks w run by (auto simp: blocked_ok_def park_current_def timer_ok_def)
      with park True w InWaitTicks show ?thesis by (auto simp: block_iter_def Task_WaitTicks_iter_def)
    qed (use fin InWaitTicks in \<open>auto simp: block_iter_def Task_WaitTicks_iter_def\<close>)
  qed
qed

section \<open>Creation\<close>

lemma kinv_create:
  assumes k: "kinv s b fr" and a: "Task_SwitchNext s = None"
    and c: "\<And>c. g_current s = Some c \<Longrightarrow> \<not> dead s c"
    and f: "find_task_slot s = Some (slot, s1)"
    and s2: "s2 = init_task_slot km slot name pri s1"
    and s3: "s3 = s2\<lparr>task_stacks := st, g_tasks := (g_tasks s2)(slot := x)\<rparr>"
    and x: "parent x = parent (g_tasks s2 slot)"
  shows "kinv (ready_enqueue slot s3) (b(slot := NotBlocked)) (fr(slot := native_rsp x))"
proof -
  obtain rq wq where q: "qinv {} s rq wq" using kinvD(1) [OF k] unfolding sinv_def by blast
  note w = kinvD(2) [OF k]
  have cl: "c < g_task_count s" if "g_current s = Some c" for c using w that by (simp add: swinv_def)
  note sl = find_task_slot_bounds [OF f qinvD(2) [OF q]]
  obtain rq' where q2: "qinv {slot} s2 rq' wq" using qinv_init_task_slot [OF q f cl] s2 by blast
  have q3: "qinv {slot} s3 rq' wq"
  proof (rule qinv_frame [OF q2])
    fix u assume "u \<in> set wq"
    moreover from this have "u \<noteq> slot" using qinvD(3) [OF q2, of slot] by (auto simp: queued_def)
    ultimately show "tc_SigRecvd (g_tasks s3 u) AND tc_SigWait (g_tasks s3 u) = 0"
      using qinvD(5) [OF q2, of u] by (simp add: s3)
  qed (auto simp: s3 x)
  let ?s = "ready_enqueue slot s3"
  have i: "sinv ?s" using qinv_in_ready [OF q3 _ refl, of slot] unfolding sinv_def by auto
  obtain n where s1: "s1 = s\<lparr>g_task_count := n\<rparr>" using sl(9) by blast
  have t: "g_tasks ?s u = g_tasks s u" if "u \<noteq> slot" for u using that by (simp add: s3 s2 s1)
  have e: "g_current ?s = g_current s" "Task_SwitchNext ?s = None" "Task_SwitchPrev ?s = Task_SwitchPrev s"
    "g_sched_switch_pending ?s = g_sched_switch_pending s" "g_task_count ?s = n"
    "cpu_rsp ?s = cpu_rsp s" "g_irq_depth ?s = g_irq_depth s" "g_pit_ticks ?s = g_pit_ticks s"
    "cpu_sc ?s = SC_Entry"
    using a w by (simp_all add: s3 s2 s1 swinv_def posok_def)
  have n: "slot < n" "g_task_count s \<le> n" "\<And>u. u < n \<Longrightarrow> u \<noteq> slot \<Longrightarrow> u < g_task_count s"
    using sl(1,2,7) by (simp_all add: s1)
  have live: "u \<noteq> slot" if "u < g_task_count s" "\<not> dead s u" for u using sl(8) that by blast
  have ph: "phys ?s = g_current s" "phys s = g_current s" using w a e by (simp_all add: phys_def swinv_def)
  have nc: "g_current s \<noteq> Some slot" using live cl c by blast
  have ss: "tc_State (g_tasks ?s slot) = TASK_READY" "native_rsp (g_tasks ?s slot) = native_rsp x"
    by (simp_all add: s3)
  have "posok ?s (fr(slot := native_rsp x))" unfolding posok_def e by simp
  then have "swinv ?s (fr(slot := native_rsp x))"
    using w a nc n cl ss t unfolding swinv_def e ph by (auto split: if_splits)
  moreover have "curok ?s"
  proof (cases "g_current s")
    case None
    have "tc_State (g_tasks ?s u) = TASK_READY" if "u < n" for u
      using that None kinvD(3) [OF k] t [of u] n(3) ss(1) by (cases "u = slot") (auto simp: curok_def)
    then show ?thesis using None unfolding curok_def e by auto
  next
    case (Some c0)
    then have "runnable s 0" "c0 \<noteq> slot" using kinvD(5) [OF k] nc by auto
    then have "0 \<noteq> slot" using live [of 0] by (auto simp: runnable_def)
    then have "tc_State (g_tasks ?s 0) = tc_State (g_tasks s 0)" "tc_State (g_tasks ?s c0) = tc_State (g_tasks s c0)"
      using t \<open>c0 \<noteq> slot\<close> by metis+
    then show ?thesis using kinvD(3) [OF k] Some \<open>runnable s 0\<close> n(2)
      unfolding curok_def runnable_def e by auto
  qed
  moreover have "binv ?s (b(slot := NotBlocked))"
    unfolding binv_def
  proof (intro allI impI)
    fix u assume u: "u < g_task_count ?s" "\<not> dead ?s u"
    show "blocked_ok ?s ((b(slot := NotBlocked)) u) u"
    proof (cases "u = slot")
      case False
      then have "blocked_ok s (b u) u" using kinvD(4) [OF k] u(1) [unfolded e(5)] u(2) [unfolded t [OF False]] n(3) False
        by (simp add: binv_def)
      then show ?thesis
        using False by (cases "b u") (simp_all add: blocked_ok_def timer_ok_def t [OF False] e(8) del: ready_enqueue_sel)
    qed (simp add: blocked_ok_def ss)
  qed
  ultimately show ?thesis using i by (simp add: kinv_def)
qed

lemma Forbid_sel [simp]:
  "Task_SwitchNext (Forbid s) = Task_SwitchNext s" "g_current (Forbid s) = g_current s"
  "tc_State (g_tasks (Forbid s) t) = tc_State (g_tasks s t)"
  by (auto simp: Forbid_def split: option.split)

definition native_frame :: "kernel_map \<Rightarrow> nat \<Rightarrow> u64" where
  "native_frame km slot = entry_rsp_of km slot - 22 * 8"

definition x64_frame :: "kernel_map \<Rightarrow> nat \<Rightarrow> u64" where
  "x64_frame km slot = stack_addr km slot + of_nat TASK_STACK_SIZE - 22 * 8"

lemma kinv_CreateNative:
  assumes k: "kinv s b fr" and a: "Task_SwitchNext s = None"
    and c: "\<And>c. g_current s = Some c \<Longrightarrow> \<not> dead s c"
  shows "\<exists>s'. Task_CreateNative e km name pri entry arg s = Some (None, s') \<and> kinv s' b fr \<or>
     (\<exists>slot. Task_CreateNative e km name pri entry arg s = Some (Some slot, s') \<and>
        kinv s' (b(slot := NotBlocked)) (fr(slot := native_frame km slot)))"
proof -
  have k0: "kinv (Forbid s) b fr" by (rule kinv_Forbid [OF k])
  show ?thesis
  proof (cases "find_task_slot (Forbid s)")
    case None
    then show ?thesis using kinv_Permit [OF k0, of e] by (auto simp: Task_CreateNative_def Let_def)
  next
    case (Some r)
    obtain slot s1 where r: "r = (slot, s1)" by fastforce
    define s2 where "s2 = init_task_slot km slot name pri s1"
    define x where "x = (g_tasks s2 slot)\<lparr>ttype := TASK_TYPE_NATIVE, native_entry := entry,
        native_arg := arg, task_cwd := copy_cwd (Some []), native_rsp := native_frame km slot\<rparr>"
    define st where "st = (task_stacks s2)(slot :=
        store_frame (unat (native_frame km slot - stack_addr km slot))
          (interrupt_frame arg entry (entry_rsp_of km slot))
          (store64 (unat (entry_rsp_of km slot - stack_addr km slot)) (Task_Exit_addr km) (task_stacks s2 slot)))"
    define s3 where "s3 = s2\<lparr>task_stacks := st, g_tasks := (g_tasks s2)(slot := x)\<rparr>"
    have "kinv (ready_enqueue slot s3) (b(slot := NotBlocked)) (fr(slot := native_rsp x))"
      by (rule kinv_create [OF k0 _ _ Some [unfolded r] s2_def s3_def]) (use a c in \<open>auto simp: x_def\<close>)
    then have k3: "kinv (ready_enqueue slot s3) (b(slot := NotBlocked)) (fr(slot := native_frame km slot))"
      by (simp add: x_def)
    have "Task_CreateNative e km name pri entry arg s = map_option (Pair (Some slot)) (Permit e (ready_enqueue slot s3))"
      unfolding Task_CreateNative_def Let_def Some r prod.case option.case s2_def [symmetric] s3_def x_def st_def
      by (simp add: put_frame_def Let_def upd_def native_frame_def)
    then show ?thesis using kinv_Permit [OF k3, of e] by auto
  qed
qed

lemma kinv_CreateX64:
  assumes k: "kinv s b fr" and a: "Task_SwitchNext s = None"
    and c: "\<And>c. g_current s = Some c \<Longrightarrow> \<not> dead s c"
  shows "\<exists>s'. Task_CreateX64 e km name pri rip rsp cwd pf pc s = Some (None, s') \<and> kinv s' b fr \<or>
     (\<exists>slot. Task_CreateX64 e km name pri rip rsp cwd pf pc s = Some (Some slot, s') \<and>
        kinv s' (b(slot := NotBlocked)) (fr(slot := x64_frame km slot)))"
proof -
  have k0: "kinv (Forbid s) b fr" by (rule kinv_Forbid [OF k])
  show ?thesis
  proof (cases "find_task_slot (Forbid s)")
    case None
    then show ?thesis using kinv_Permit [OF k0, of e] by (auto simp: Task_CreateX64_def Let_def)
  next
    case (Some r)
    obtain slot s1 where r: "r = (slot, s1)" by fastforce
    define s2 where "s2 = init_task_slot km slot name pri s1"
    define x where "x = (g_tasks s2 slot)\<lparr>ttype := TASK_TYPE_X64, native_entry := Task_RunNewX64_addr km,
        native_arg := task_addr km slot, native_rip := rip, native_initial_rsp := rsp,
        task_cwd := copy_cwd cwd, native_print_fn := pf, native_print_ctx := pc,
        native_rsp := x64_frame km slot\<rparr>"
    define st where "st = (task_stacks s2)(slot :=
        store_frame (unat (x64_frame km slot - stack_addr km slot)) (interrupt_frame 0 rip rsp) (task_stacks s2 slot))"
    define s3 where "s3 = s2\<lparr>task_stacks := st, g_tasks := (g_tasks s2)(slot := x)\<rparr>"
    have "kinv (ready_enqueue slot s3) (b(slot := NotBlocked)) (fr(slot := native_rsp x))"
      by (rule kinv_create [OF k0 _ _ Some [unfolded r] s2_def s3_def]) (use a c in \<open>auto simp: x_def\<close>)
    then have k3: "kinv (ready_enqueue slot s3) (b(slot := NotBlocked)) (fr(slot := x64_frame km slot))"
      by (simp add: x_def)
    have "Task_CreateX64 e km name pri rip rsp cwd pf pc s =
        map_option (Pair (Some slot)) (Permit e (ready_enqueue slot s3))"
      unfolding Task_CreateX64_def Let_def Some r prod.case option.case s2_def [symmetric] s3_def x_def st_def
      by (simp add: put_frame_def Let_def upd_def x64_frame_def)
    then show ?thesis using kinv_Permit [OF k3, of e] by auto
  qed
qed

end
