(* ===== verification/Task_System.thy ===== *)
theory Task_System
  imports Task_Sched
begin

text \<open>
  Boot, the step relation of the scheduler, reachability, and that every reachable configuration
  satisfies the invariant.
\<close>

section \<open>Boot\<close>

text \<open>The scheduler's data before \<open>TaskScheduler_Init\<close>: static storage, all zero.\<close>

definition static_state :: "'c sched \<Rightarrow> bool" where
  "static_state s \<longleftrightarrow> (\<forall>t. ln_Succ (lk s) (Task t) = Null) \<and> Task_SwitchNext s = None \<and>
     Task_SwitchPrev s = None \<and> \<not> g_sched_switch_pending s \<and> g_irq_depth s = 0 \<and> g_eventpump_task s = None \<and>
     cpu_sc s = SC_Entry"

lemma init_heads:
  "ln_Succ (fold (\<lambda>i l. list_init (ReadyHead i) l) [0..<n] l) x =
     (if \<exists>i<n. x = ReadyHead i then x else ln_Succ l x)"
  "ln_Pred (fold (\<lambda>i l. list_init (ReadyHead i) l) [0..<n] l) x =
     (if \<exists>i<n. x = ReadyHead i then x else ln_Pred l x)"
  by (induction n) (auto simp: list_init_def less_Suc_eq)

lemma kinv_init:
  assumes "static_state s"
  shows "kinv (TaskScheduler_Init s) (\<lambda>_. NotBlocked) fr"
proof -
  let ?s = "TaskScheduler_Init s"
  have c: "g_task_count ?s = 0" "g_current ?s = None" by (simp_all add: TaskScheduler_Init_def Let_def)
  have l: "lk ?s = list_init WaitHead (fold (\<lambda>i l. list_init (ReadyHead i) l) [0..<256] (lk s))"
    by (simp add: TaskScheduler_Init_def Let_def)
  have "ring (lk ?s) (ReadyHead i) []" if "i < 256" for i
    using that unfolding l by (simp add: ring_def list_init_def init_heads)
  moreover have "ring (lk ?s) WaitHead []" unfolding l by (rule list_init_ring)
  moreover have "ln_Succ (lk ?s) (Task t) = Null" for t
    using assms unfolding l by (simp add: list_init_def init_heads static_state_def)
  ultimately have "qinv {} ?s (\<lambda>_. []) []"
    using assms by (auto simp: qinv_def wfq_def queues_def linked_def queued_def in_ready_def c
        static_state_def TaskScheduler_Init_def Let_def)
  then show ?thesis
    using assms by (auto simp: kinv_def sinv_def swinv_def posok_def curok_def binv_def c phys_def static_state_def
        TaskScheduler_Init_def Let_def)
qed

lemma kinv_StartFirst:
  assumes k: "kinv s b fr" and c: "g_current s = None" "0 < g_task_count s"
  shows "\<exists>s' n. Task_StartFirst s = Some s' \<and> g_current s' = Some n \<and> kinv s' b (fr(n := cpu_rsp s')) \<and>
           tc_State (g_tasks s' n) = TASK_RUNNING \<and> Task_SwitchNext s' = None \<and>
           g_irq_depth s' = g_irq_depth s \<and> g_task_count s' = g_task_count s \<and> n < g_task_count s \<and>
           (\<forall>u<g_task_count s. task_idx s u \<le> task_idx s n) \<and>
           (\<forall>u. tc_SigRecvd (g_tasks s' u) = tc_SigRecvd (g_tasks s u) \<and> nested (g_tasks s' u) = nested (g_tasks s u))"
proof -
  obtain rq wq where q: "qinv {} s rq wq" using kinvD(1) [OF k] unfolding sinv_def by blast
  have rd: "tc_State (g_tasks s t) = TASK_READY" if "t < g_task_count s" for t
    using kinvD(3) [OF k] c that by (simp add: curok_def)
  obtain x s2 where d: "ready_dequeue_highest s = Some (x, s2)"
    using rq.deq_terminates [OF qinvD(1) [OF q]] by force
  have "x \<noteq> None" using qinv_dequeue_None(3) [OF q, of s2 0] d rd c(2) by auto
  then obtain n where n: "x = Some n" by blast
  note D = qinv_dequeue_Some [OF q d [unfolded n]]
  obtain rq2 where q2: "qinv {n} s2 rq2 wq" using D(1) by auto
  obtain l m where s2: "s2 = s\<lparr>lk := l, g_ready_map := m\<rparr>" using D(2) unfolding same_but_queues_def by blast
  define s' where "s' = Task_RunNew n (set_state n TASK_RUNNING (s2\<lparr>g_current := Some n\<rparr>))"
  have "qinv {} (set_state n TASK_RUNNING (s2\<lparr>g_current := Some n\<rparr>)) rq2 wq"
    by (rule qinv_run [OF q2]) (use D(3,5) rd in \<open>auto simp: s2 keeps_def\<close>)
  then have "sinv (set_state n TASK_RUNNING (s2\<lparr>g_current := Some n\<rparr>))" unfolding sinv_def by blast
  then have "sinv s'" by (rule sinv_cong) (simp_all add: s'_def Task_RunNew_def Let_def)
  moreover have w: "Task_SwitchNext s = None" "Task_SwitchPrev s = None" "\<not> g_sched_switch_pending s"
    "phys s = None" "0 \<le> g_irq_depth s"
    using kinvD(2) [OF k] c by (auto simp: swinv_def phys_def posok_def)
  then have "swinv s' (fr(n := cpu_rsp s'))"
    using kinvD(2) [OF k] D(3) by (auto simp: swinv_def posok_def phys_def s'_def s2 Task_RunNew_def Let_def split: if_splits)
  moreover have "curok s'"
    using rd c(2) by (auto simp: curok_def runnable_def s'_def s2 Task_RunNew_def Let_def)
  moreover have "binv s' b"
    using binv_calm [OF kinvD(4) [OF k]] D(5) by (simp add: calm_def s'_def s2 Task_RunNew_def Let_def)
  moreover have "Task_StartFirst s = Some s'" "g_current s' = Some n"
    using d n by (simp_all add: Task_StartFirst_def s'_def Task_RunNew_def Let_def)
  moreover have "tc_State (g_tasks s' n) = TASK_RUNNING" "Task_SwitchNext s' = None"
    "g_irq_depth s' = g_irq_depth s" "g_task_count s' = g_task_count s"
    "\<forall>u. tc_SigRecvd (g_tasks s' u) = tc_SigRecvd (g_tasks s u) \<and> nested (g_tasks s' u) = nested (g_tasks s u)"
    using w by (simp_all add: s'_def s2 Task_RunNew_def Let_def nested_def)
  ultimately show ?thesis using D(3) D(6) rd by (auto simp: kinv_def)
qed

section \<open>Steps\<close>

text \<open>\<open>user s c\<close> guards the calls of the running task; \<open>b c = NotBlocked\<close> that it is not inside a
  blocking loop.  Interrupt work needs \<open>g_irq_depth > 0\<close>; everything an interrupt handler may do
  (wake tasks, advance the tick, run the timers, ask for a reschedule) is a step of its own, in
  any order, and an interrupt may come between any two steps.  A task's own instructions only move its
  stack pointer; the register frame an interrupt pushes and pops again is left out.

  What the relation assumes of the source.  A call is one step.  For \<open>Signal\<close>, the blocking loops,
  \<open>do_schedule\<close>, \<open>Task_WakeTimers\<close> and the queue operations the source ensures this with
  \<open>irq_save\<close>/\<open>irq_restore\<close>; \<open>Task_CreateNative\<close> and \<open>Task_CreateX64\<close> run under \<open>Forbid\<close> only, so interrupts
  between their stores are not covered.  The return path of a system call runs with interrupts enabled
  and is four steps.  \<open>RemTask\<close> is applied to another task, and Idle neither waits nor exits: the source does
  not check the first and its Idle loop has the second.  An interrupt return inside the window in front of
  \<open>SC_Next\<close> sets \<open>torn\<close>; from there on the outgoing task would resume on the incoming one's stack, and the
  execution is not followed further.\<close>

inductive step :: "('c m68k \<Rightarrow> 'c m68k) \<Rightarrow> kernel_map \<Rightarrow> 'c config \<Rightarrow> 'c config \<Rightarrow> bool"
  for e :: "'c m68k \<Rightarrow> 'c m68k" and km :: kernel_map
where
  boot_create: "g_current s = None \<Longrightarrow> Task_CreateNative e km nm pri entry arg s = Some (Some slot, s') \<Longrightarrow>
    step e km \<lparr>ks = s, blk = b, frame = f, torn = False\<rparr>
      \<lparr>ks = s', blk = b(slot := NotBlocked), frame = f(slot := native_frame km slot), torn = False\<rparr>"
| boot_start: "g_current s = None \<Longrightarrow> 0 < g_task_count s \<Longrightarrow> Task_StartFirst s = Some s' \<Longrightarrow>
    g_current s' = Some n \<Longrightarrow>
    step e km \<lparr>ks = s, blk = b, frame = f, torn = False\<rparr> \<lparr>ks = s', blk = b, frame = f(n := cpu_rsp s'), torn = False\<rparr>"
| run: "user s c \<Longrightarrow>
    step e km \<lparr>ks = s, blk = b, frame = f, torn = False\<rparr> \<lparr>ks = s\<lparr>cpu_rsp := r, cpu_if := i\<rparr>, blk = b, frame = f(c := r), torn = False\<rparr>"
| signal: "user s c \<Longrightarrow> b c = NotBlocked \<Longrightarrow> t < g_task_count s \<Longrightarrow>
    step e km \<lparr>ks = s, blk = b, frame = f, torn = False\<rparr> \<lparr>ks = Signal (Some t) m s, blk = b, frame = f, torn = False\<rparr>"
| set_signal: "user s c \<Longrightarrow> b c = NotBlocked \<Longrightarrow> SetSignal new m c s = (old, s') \<Longrightarrow>
    step e km \<lparr>ks = s, blk = b, frame = f, torn = False\<rparr> \<lparr>ks = s', blk = b, frame = f, torn = False\<rparr>"
| clear_signal: "user s c \<Longrightarrow> b c = NotBlocked \<Longrightarrow>
    step e km \<lparr>ks = s, blk = b, frame = f, torn = False\<rparr> \<lparr>ks = Task_ClearSig m s, blk = b, frame = f, torn = False\<rparr>"
| set_pri: "user s c \<Longrightarrow> b c = NotBlocked \<Longrightarrow> t < g_task_count s \<Longrightarrow>
    step e km \<lparr>ks = s, blk = b, frame = f, torn = False\<rparr> \<lparr>ks = SetTaskPri (Some t) p s, blk = b, frame = f, torn = False\<rparr>"
| rem_task: "user s c \<Longrightarrow> b c = NotBlocked \<Longrightarrow> t < g_task_count s \<Longrightarrow> t \<noteq> c \<Longrightarrow> t \<noteq> 0 \<Longrightarrow>
    step e km \<lparr>ks = s, blk = b, frame = f, torn = False\<rparr> \<lparr>ks = RemTask t s, blk = b, frame = f, torn = False\<rparr>"
| forbid: "user s c \<Longrightarrow> b c = NotBlocked \<Longrightarrow>
    step e km \<lparr>ks = s, blk = b, frame = f, torn = False\<rparr> \<lparr>ks = Forbid s, blk = b, frame = f, torn = False\<rparr>"
| permit: "user s c \<Longrightarrow> b c = NotBlocked \<Longrightarrow> Permit e s = Some s' \<Longrightarrow>
    step e km \<lparr>ks = s, blk = b, frame = f, torn = False\<rparr> \<lparr>ks = s', blk = b, frame = f, torn = False\<rparr>"
| disable: "user s c \<Longrightarrow> b c = NotBlocked \<Longrightarrow>
    step e km \<lparr>ks = s, blk = b, frame = f, torn = False\<rparr> \<lparr>ks = Disable s, blk = b, frame = f, torn = False\<rparr>"
| enable: "user s c \<Longrightarrow> b c = NotBlocked \<Longrightarrow> Enable e s = Some s' \<Longrightarrow>
    step e km \<lparr>ks = s, blk = b, frame = f, torn = False\<rparr> \<lparr>ks = s', blk = b, frame = f, torn = False\<rparr>"
| yield: "user s c \<Longrightarrow> b c = NotBlocked \<Longrightarrow> Task_Yield e s = Some (sw, s') \<Longrightarrow>
    step e km \<lparr>ks = s, blk = b, frame = f, torn = False\<rparr> \<lparr>ks = s', blk = b, frame = f, torn = False\<rparr>"
| create: "user s c \<Longrightarrow> b c = NotBlocked \<Longrightarrow>
    Task_CreateNative e km nm pri entry arg s = Some (Some slot, s') \<Longrightarrow>
    step e km \<lparr>ks = s, blk = b, frame = f, torn = False\<rparr>
      \<lparr>ks = s', blk = b(slot := NotBlocked), frame = f(slot := native_frame km slot), torn = False\<rparr>"
| create_full: "user s c \<Longrightarrow> b c = NotBlocked \<Longrightarrow>
    Task_CreateNative e km nm pri entry arg s = Some (None, s') \<Longrightarrow>
    step e km \<lparr>ks = s, blk = b, frame = f, torn = False\<rparr> \<lparr>ks = s', blk = b, frame = f, torn = False\<rparr>"
| create_x64: "user s c \<Longrightarrow> b c = NotBlocked \<Longrightarrow>
    Task_CreateX64 e km nm pri rip rsp cwd pf pc s = Some (Some slot, s') \<Longrightarrow>
    step e km \<lparr>ks = s, blk = b, frame = f, torn = False\<rparr>
      \<lparr>ks = s', blk = b(slot := NotBlocked), frame = f(slot := x64_frame km slot), torn = False\<rparr>"
| pump: "user s c \<Longrightarrow> b c = NotBlocked \<Longrightarrow>
    step e km \<lparr>ks = s, blk = b, frame = f, torn = False\<rparr> \<lparr>ks = s\<lparr>g_eventpump_task := Some c\<rparr>, blk = b, frame = f, torn = False\<rparr>"
| wait: "user s c \<Longrightarrow> c \<noteq> 0 \<Longrightarrow> b c = NotBlocked \<Longrightarrow> Wait_enter m c s = (bl, s') \<Longrightarrow>
    step e km \<lparr>ks = s, blk = b, frame = f, torn = False\<rparr> \<lparr>ks = s', blk = b(c := bl), frame = f, torn = False\<rparr>"
| sleep: "user s c \<Longrightarrow> c \<noteq> 0 \<Longrightarrow> b c = NotBlocked \<Longrightarrow> Task_SleepTicks_enter d c s = (bl, s') \<Longrightarrow>
    step e km \<lparr>ks = s, blk = b, frame = f, torn = False\<rparr> \<lparr>ks = s', blk = b(c := bl), frame = f, torn = False\<rparr>"
| wait_ticks: "user s c \<Longrightarrow> c \<noteq> 0 \<Longrightarrow> b c = NotBlocked \<Longrightarrow> Task_WaitTicks_enter m d c s = (bl, s') \<Longrightarrow>
    step e km \<lparr>ks = s, blk = b, frame = f, torn = False\<rparr> \<lparr>ks = s', blk = b(c := bl), frame = f, torn = False\<rparr>"
| resume: "user s c \<Longrightarrow> c \<noteq> 0 \<Longrightarrow> b c \<noteq> NotBlocked \<Longrightarrow> block_iter e (b c) c s = Some (Done r s') \<Longrightarrow>
    step e km \<lparr>ks = s, blk = b, frame = f, torn = False\<rparr> \<lparr>ks = s', blk = b(c := NotBlocked), frame = f, torn = False\<rparr>"
| park: "user s c \<Longrightarrow> c \<noteq> 0 \<Longrightarrow> b c \<noteq> NotBlocked \<Longrightarrow> block_iter e (b c) c s = Some (Parked sw s') \<Longrightarrow>
    step e km \<lparr>ks = s, blk = b, frame = f, torn = False\<rparr> \<lparr>ks = s', blk = b, frame = f, torn = False\<rparr>"
| exit: "user s c \<Longrightarrow> c \<noteq> 0 \<Longrightarrow> b c = NotBlocked \<Longrightarrow>
    step e km \<lparr>ks = s, blk = b, frame = f, torn = False\<rparr> \<lparr>ks = Task_Exit_mark s, blk = b, frame = f, torn = False\<rparr>"
| exit_switch: "g_current s = Some c \<Longrightarrow> dead s c \<Longrightarrow> g_irq_depth s = 0 \<Longrightarrow> Task_SwitchNext s = None \<Longrightarrow>
    task_switch_away e s = Some (sw, s') \<Longrightarrow>
    step e km \<lparr>ks = s, blk = b, frame = f, torn = False\<rparr> \<lparr>ks = s', blk = b, frame = f, torn = False\<rparr>"
| syscall_ret: "g_irq_depth s = 0 \<Longrightarrow>
    step e km \<lparr>ks = s, blk = b, frame = f, torn = False\<rparr> \<lparr>ks = syscall_epilogue (cpu_sc s) s, blk = b, frame = f, torn = False\<rparr>"
| irq_enter: "step e km \<lparr>ks = s, blk = b, frame = f, torn = False\<rparr>
    \<lparr>ks = s\<lparr>g_irq_depth := g_irq_depth s + 1\<rparr>, blk = b, frame = f, torn = False\<rparr>"
| irq_signal: "0 < g_irq_depth s \<Longrightarrow> t < g_task_count s \<Longrightarrow>
    step e km \<lparr>ks = s, blk = b, frame = f, torn = False\<rparr> \<lparr>ks = Signal (Some t) m s, blk = b, frame = f, torn = False\<rparr>"
| irq_tick: "0 < g_irq_depth s \<Longrightarrow> g_pit_ticks s + 1 \<noteq> 0 \<Longrightarrow>
    step e km \<lparr>ks = s, blk = b, frame = f, torn = False\<rparr> \<lparr>ks = s\<lparr>g_pit_ticks := g_pit_ticks s + 1\<rparr>, blk = b, frame = f, torn = False\<rparr>"
| irq_timers: "0 < g_irq_depth s \<Longrightarrow> Task_WakeTimers s = Some s' \<Longrightarrow>
    step e km \<lparr>ks = s, blk = b, frame = f, torn = False\<rparr> \<lparr>ks = s', blk = b, frame = f, torn = False\<rparr>"
| irq_pump: "0 < g_irq_depth s \<Longrightarrow> EventPump_Wake e s = Some s' \<Longrightarrow>
    step e km \<lparr>ks = s, blk = b, frame = f, torn = False\<rparr> \<lparr>ks = s', blk = b, frame = f, torn = False\<rparr>"
| irq_schedule: "0 < g_irq_depth s \<Longrightarrow> do_schedule e True s = Some s' \<Longrightarrow>
    step e km \<lparr>ks = s, blk = b, frame = f, torn = False\<rparr> \<lparr>ks = s', blk = b, frame = f, torn = False\<rparr>"
| irq_exit: "0 < g_irq_depth s \<Longrightarrow>
    step e km \<lparr>ks = s, blk = b, frame = f, torn = False\<rparr>
      \<lparr>ks = isr_epilogue (s\<lparr>g_irq_depth := g_irq_depth s - 1\<rparr>), blk = b, frame = f,
       torn = (isr_commits (s\<lparr>g_irq_depth := g_irq_depth s - 1\<rparr>) \<and> cpu_sc s = SC_Next)\<rparr>"

inductive reachable :: "('c m68k \<Rightarrow> 'c m68k) \<Rightarrow> kernel_map \<Rightarrow> 'c config \<Rightarrow> bool"
  for e :: "'c m68k \<Rightarrow> 'c m68k" and km :: kernel_map
where
  init: "static_state s \<Longrightarrow>
    reachable e km \<lparr>ks = TaskScheduler_Init s, blk = (\<lambda>_. NotBlocked), frame = f, torn = False\<rparr>"
| step: "reachable e km k \<Longrightarrow> step e km k k' \<Longrightarrow> reachable e km k'"

lemma user_live: "user s c \<Longrightarrow> g_current s = Some c' \<Longrightarrow> \<not> dead s c'"
  by (auto simp: user_def)

lemma kinv_run:
  assumes k: "kinv s b fr" and u: "user s c"
  shows "kinv (s\<lparr>cpu_rsp := r, cpu_if := i\<rparr>) b (fr(c := r))"
proof -
  let ?s = "s\<lparr>cpu_rsp := r, cpu_if := i\<rparr>"
  have "phys ?s = Some c" "phys s = Some c"
    using user_unarmed [OF k u] u by (auto simp: phys_def user_def)
  moreover have "cpu_sc s = SC_Entry" using kinvD(2) [OF k] u by (auto simp: swinv_def posok_def user_def)
  ultimately have "swinv ?s (fr(c := r))" using kinvD(2) [OF k] u by (auto simp: swinv_def posok_def user_def)
  moreover have "sinv ?s" by (rule sinv_cong [OF kinvD(1) [OF k]]) simp_all
  moreover have "curok ?s" using kinvD(3) [OF k] by (auto simp: curok_def runnable_def)
  moreover have "binv ?s b" using binv_calm [OF kinvD(4) [OF k]] by (simp add: calm_def)
  ultimately show ?thesis by (simp add: kinv_def)
qed

lemma kinv_pump:
  assumes k: "kinv s b fr" and u: "user s c"
  shows "kinv (s\<lparr>g_eventpump_task := Some c\<rparr>) b fr"
proof -
  let ?s = "s\<lparr>g_eventpump_task := Some c\<rparr>"
  obtain rq wq where q: "qinv {} s rq wq" using kinvD(1) [OF k] unfolding sinv_def by blast
  have w: "wfq ?s rq wq" using wfq_cong [of ?s s] qinvD(1) [OF q] by simp
  have "qinv {} ?s rq wq"
    by (rule qinvI) (use w qinvD [OF q] user_unarmed [OF k u] in \<open>auto simp: placed_def\<close>)
  then have "sinv ?s" unfolding sinv_def by blast
  then show ?thesis by (rule kinv_quiet [OF k]) (auto simp: quiet_def calm_def runnable_def)
qed

lemma step_kinv:
  assumes "step e km k k'" and "kinv (ks k) (blk k) (frame k)"
  shows "if torn k' then \<exists>fr. kinv (ks k') (blk k') fr else kinv (ks k') (blk k') (frame k')"
  using assms
proof (induction rule: step.induct)
  case (boot_create s nm pri entry arg slot s' b f)
  then show ?case
    using kinv_CreateNative [of s b f e km nm pri entry arg] kinvD(2) [of s b f] by (auto simp: swinv_def fun_upd_def)
next
  case (boot_start s s' n b f)
  then show ?case using kinv_StartFirst [of s b f] by (auto simp: fun_upd_def)
next
  case (set_signal s c b new m old s' f)
  then show ?case by (auto simp: SetSignal_def Let_def user_def intro!: kinv_upd)
next
  case (clear_signal s c b f m)
  then show ?case by (auto simp: Task_ClearSig_def user_def intro!: kinv_upd)
next
  case (create s c b nm pri entry arg slot s' f)
  then show ?case
    using kinv_CreateNative [of s b f e km nm pri entry arg] user_live [of s c]
    by (auto simp: user_def fun_upd_def)
next
  case (create_full s c b nm pri entry arg s' f)
  then show ?case
    using kinv_CreateNative [of s b f e km nm pri entry arg] user_live [of s c]
    by (auto simp: user_def fun_upd_def)
next
  case (create_x64 s c b nm pri rip rsp cwd pf pc slot s' f)
  then show ?case
    using kinv_CreateX64 [of s b f e km nm pri rip rsp cwd pf pc] user_live [of s c]
    by (auto simp: user_def fun_upd_def)
next
  case (permit s c b s' f)
  then show ?case using kinv_Permit [of s b f e] by auto
next
  case (enable s c b s' f)
  then show ?case using kinv_Enable [of s b f e] by auto
next
  case (yield s c b sw s' f)
  then show ?case using kinv_Yield [of s b f e] by auto
next
  case (resume s c b r s' f)
  then show ?case using kinv_block_iter [of s b f c e] by (auto simp: fun_upd_def)
next
  case (park s c b sw s' f)
  then show ?case using kinv_block_iter [of s b f c e] by (auto simp: fun_upd_def)
next
  case (exit_switch s c sw s' b f)
  then show ?case using kinv_switch_away [of s b f e] by auto
next
  case (irq_timers s s' b f)
  then show ?case using kinv_WakeTimers [of s b f] by auto
next
  case (irq_pump s s' b f)
  then show ?case using kinv_EventPump_Wake [of s b f e] by auto
next
  case (irq_schedule s s' b f)
  then show ?case using do_schedule_ok [of s b f True e] by auto
next
  case (irq_exit s b f)
  then show ?case using kinv_irq_exit [of s b f] by auto
qed (auto intro: kinv_run kinv_Signal kinv_SetTaskPri kinv_RemTask kinv_Forbid kinv_Disable kinv_pump
    kinv_enter kinv_Exit_mark kinv_syscall_epilogue kinv_irq_enter kinv_tick)

lemma step_torn: "step e km k k' \<Longrightarrow> \<not> torn k"
  by (induction rule: step.induct) simp_all

lemma reachable_inv:
  "reachable e km k \<Longrightarrow> if torn k then \<exists>fr. kinv (ks k) (blk k) fr else kinv (ks k) (blk k) (frame k)"
proof (induction rule: reachable.induct)
  case (init s f)
  then show ?case by (simp add: kinv_init)
next
  case (step k k')
  then show ?case using step_torn step_kinv by fastforce
qed

lemma reachable_kinv: "reachable e km k \<Longrightarrow> \<exists>fr. kinv (ks k) (blk k) fr"
  using reachable_inv by (cases "torn k") fastforce+

lemma reachable_frames: "reachable e km k \<Longrightarrow> \<not> torn k \<Longrightarrow> kinv (ks k) (blk k) (frame k)"
  using reachable_inv by fastforce

end
