(* ===== verification/Task_Props.thy ===== *)
theory Task_Props
  imports Task_System
begin

text \<open>
  The properties of the scheduler, with a booted system (Idle and the event pump created, the
  first task started) as the state their witnesses are evaluated in.
\<close>

section \<open>A booted system\<close>

definition zero_sched :: "unit sched" where
  "zero_sched = \<lparr>lk = \<lparr>ln_Succ = \<lambda>_. Null, ln_Pred = \<lambda>_. Null\<rparr>, g_tasks = \<lambda>_. zero_tcb, g_task_count = 0,
     g_task_bg_job = 0, g_current = None, Task_SwitchNext = None, Task_SwitchPrev = None,
     g_ctx_switches = 0, g_acct_last_tick = 0, g_need_resched = False, g_sched_switch_pending = False,
     g_eventpump_task = None, g_ready_map = \<lambda>_. 0, g_wait_count = 0, g_strand_votes = \<lambda>_. 0,
     g_wait_tof_task = None, g_pit_ticks = 0, g_irq_depth = 0, g_ram = 0, g_shared_ram = 0,
     musashi = \<lparr>m68k_ctx = (), m68ki_initial_cycles = 0, m68ki_remaining_cycles = 0\<rparr>,
     task_stacks = \<lambda>_ _. 0, cpu_rsp = 0, cpu_if = False, cpu_sc = SC_Entry\<rparr>"

definition demo_map :: kernel_map where
  "demo_map = \<lparr>stacks_base = 0x100000, tasks_base = 0x80000, sizeof_task = 1024,
     Task_Exit_addr = 0x2000, Task_RunNewX64_addr = 0x3000\<rparr>"

definition created :: "'c sched \<Rightarrow> (nat option \<times> 'c sched) option \<Rightarrow> 'c sched" where
  "created s r = (case r of Some (_, s') \<Rightarrow> s' | None \<Rightarrow> s)"

definition boot_idle :: "unit sched" where
  "boot_idle = created zero_sched (Task_CreateNative id demo_map (Some ''Idle'') (-128) 0x4000 0 (TaskScheduler_Init zero_sched))"

definition boot_pump :: "unit sched" where
  "boot_pump = created zero_sched (Task_CreateNative id demo_map (Some ''EventPump'') 0 0x5000 0 boot_idle)"

lemma boot_create_fresh:
  assumes k: "kinv s b fr" and c: "g_current s = None" "g_task_count s < MAX_TASKS"
  shows "\<exists>s'. Task_CreateNative e km nm pri entry arg s = Some (Some (g_task_count s), s') \<and>
           g_task_count s' = Suc (g_task_count s) \<and> g_current s' = None \<and>
           ln_Pri (g_tasks s' (g_task_count s)) = pri \<and> g_irq_depth s' = g_irq_depth s \<and>
           tc_SigRecvd (g_tasks s' (g_task_count s)) = 0 \<and> \<not> nested (g_tasks s' (g_task_count s)) \<and>
           (\<forall>t<g_task_count s. g_tasks s' t = g_tasks s t)"
proof -
  have F: "Forbid s = s" "Permit e s' = Some s'" if "g_current s' = None" for s' :: "'a sched"
    using c that by (simp_all add: Forbid_def Permit_def)
  have "first_index (\<lambda>i. dead s i) (g_task_count s) = None"
    using kinvD(3) [OF k] c by (auto simp: curok_def first_index_None)
  then have f: "find_task_slot s = Some (g_task_count s, s\<lparr>g_task_count := g_task_count s + 1\<rparr>)"
    using c(2) by (simp add: find_task_slot_def)
  show ?thesis
    unfolding Task_CreateNative_def Let_def F(1) [OF c(1)] f option.case prod.case
    using c by (subst F(2)) (auto simp: put_frame_def Let_def init_task_slot_def zero_tcb_def nested_def)
qed

definition boot_run :: "unit sched" where
  "boot_run = (case Task_StartFirst boot_pump of Some s \<Rightarrow> s | None \<Rightarrow> boot_pump)"

lemma boot_reachable:
  "\<exists>f. reachable id demo_map \<lparr>ks = boot_pump, blk = (\<lambda>_. NotBlocked), frame = f, torn = False\<rparr>"
  "g_task_count boot_pump = 2" "g_current boot_pump = None"
  "ln_Pri (g_tasks boot_pump 0) = -128" "ln_Pri (g_tasks boot_pump 1) = 0" "g_irq_depth boot_pump = 0"
  "tc_SigRecvd (g_tasks boot_pump 1) = 0" "\<not> nested (g_tasks boot_pump 1)"
proof -
  let ?s0 = "TaskScheduler_Init zero_sched"
  have st: "static_state zero_sched" by (simp add: static_state_def zero_sched_def)
  have r0: "reachable id demo_map \<lparr>ks = ?s0, blk = (\<lambda>_. NotBlocked), frame = (\<lambda>_. 0), torn = False\<rparr>"
    by (rule reachable.init [OF st])
  have c0: "g_current ?s0 = None" "g_task_count ?s0 = 0" "g_irq_depth ?s0 = 0"
    by (simp_all add: TaskScheduler_Init_def Let_def zero_sched_def)
  obtain s1 where s1: "Task_CreateNative id demo_map (Some ''Idle'') (-128) 0x4000 0 ?s0 = Some (Some 0, s1)"
    "g_task_count s1 = 1" "g_current s1 = None" "ln_Pri (g_tasks s1 0) = -128" "g_irq_depth s1 = 0"
    using boot_create_fresh [OF reachable_frames [OF r0, simplified] c0(1),
        of id demo_map "Some ''Idle''" "-128" "0x4000" 0] c0 by (auto simp: MAX_TASKS_def)
  have i1: "boot_idle = s1" using s1(1) by (simp add: boot_idle_def created_def)
  have b: "(\<lambda>_. NotBlocked)(t := NotBlocked) = (\<lambda>_. NotBlocked)" for t :: nat by auto
  have r1: "reachable id demo_map \<lparr>ks = s1, blk = (\<lambda>_. NotBlocked),
      frame = (\<lambda>_. 0)(0 := native_frame demo_map 0), torn = False\<rparr>"
    using reachable.step [OF r0 step.boot_create [OF c0(1) s1(1)]] unfolding b .
  obtain s2 where s2: "Task_CreateNative id demo_map (Some ''EventPump'') 0 0x5000 0 s1 = Some (Some 1, s2)"
    "g_task_count s2 = 2" "g_current s2 = None" "ln_Pri (g_tasks s2 0) = -128" "ln_Pri (g_tasks s2 1) = 0"
    "g_irq_depth s2 = 0" "tc_SigRecvd (g_tasks s2 1) = 0" "\<not> nested (g_tasks s2 1)"
    using boot_create_fresh [OF reachable_frames [OF r1, simplified] s1(3),
        of id demo_map "Some ''EventPump''" 0 "0x5000" 0] s1 by (auto simp: MAX_TASKS_def)
  have i2: "boot_pump = s2" using s2(1) by (simp add: boot_pump_def i1 created_def)
  show "\<exists>f. reachable id demo_map \<lparr>ks = boot_pump, blk = (\<lambda>_. NotBlocked), frame = f, torn = False\<rparr>"
    using reachable.step [OF r1 step.boot_create [OF s1(3) s2(1)]] unfolding b i2 by blast
  show "g_task_count boot_pump = 2" "g_current boot_pump = None"
    "ln_Pri (g_tasks boot_pump 0) = -128" "ln_Pri (g_tasks boot_pump 1) = 0" "g_irq_depth boot_pump = 0"
    "tc_SigRecvd (g_tasks boot_pump 1) = 0" "\<not> nested (g_tasks boot_pump 1)"
    using s2 by (simp_all add: i2)
qed

lemma boot_run:
  "\<exists>f. reachable id demo_map \<lparr>ks = boot_run, blk = (\<lambda>_. NotBlocked), frame = f, torn = False\<rparr>"
  "user boot_run 1" "g_task_count boot_run = 2" "g_current boot_run = Some 1"
  "tc_SigRecvd (g_tasks boot_run 1) = 0" "\<not> nested (g_tasks boot_run 1)"
proof -
  obtain f where r: "reachable id demo_map \<lparr>ks = boot_pump, blk = (\<lambda>_. NotBlocked), frame = f, torn = False\<rparr>"
    using boot_reachable(1) by blast
  note k = reachable_frames [OF r, simplified] and B = boot_reachable(2-)
  obtain s' n where s': "Task_StartFirst boot_pump = Some s'" "g_current s' = Some n"
    "tc_State (g_tasks s' n) = TASK_RUNNING" "Task_SwitchNext s' = None"
    "g_irq_depth s' = g_irq_depth boot_pump" "g_task_count s' = 2" "n < 2"
    "\<And>u. u < 2 \<Longrightarrow> task_idx boot_pump u \<le> task_idx boot_pump n"
    "\<And>u. tc_SigRecvd (g_tasks s' u) = tc_SigRecvd (g_tasks boot_pump u) \<and> nested (g_tasks s' u) = nested (g_tasks boot_pump u)"
    using kinv_StartFirst [OF k B(2)] B by auto
  have "n = 1"
  proof (rule ccontr)
    assume "n \<noteq> 1"
    then have "task_idx boot_pump 1 \<le> task_idx boot_pump 0" using s'(7) s'(8) [of 1] by (cases n) auto
    then show False using B(3,4) by (simp add: pri_to_idx_def)
  qed
  have e: "boot_run = s'" using s'(1) by (simp add: boot_run_def)
  show "\<exists>f. reachable id demo_map \<lparr>ks = boot_run, blk = (\<lambda>_. NotBlocked), frame = f, torn = False\<rparr>"
    using reachable.step [OF r step.boot_start [OF B(2) _ s'(1,2)]] B(1) unfolding e by auto
  show "user boot_run 1" "g_task_count boot_run = 2" "g_current boot_run = Some 1"
    "tc_SigRecvd (g_tasks boot_run 1) = 0" "\<not> nested (g_tasks boot_run 1)"
    using s' B(5-7) by (auto simp: e user_def \<open>n = 1\<close>)
qed

text \<open>The event pump blocked in \<open>Wait(SIGF_EVENTPUMP)\<close>: Idle runs.\<close>

lemma boot_parked:
  "\<exists>(s :: unit sched) f. reachable id demo_map \<lparr>ks = s, blk = (\<lambda>_. NotBlocked)(1 := InWait 512), frame = f, torn = False\<rparr> \<and>
     g_task_count s = 2 \<and> tc_State (g_tasks s 1) = TASK_WAITING"
proof -
  obtain f where r: "reachable id demo_map \<lparr>ks = boot_run, blk = (\<lambda>_. NotBlocked), frame = f, torn = False\<rparr>"
    using boot_run(1) by blast
  define s1 where "s1 = upd 1 (\<lambda>x. x\<lparr>tc_SigWait := 512\<rparr>) boot_run"
  have e: "Wait_enter 512 1 boot_run = (InWait 512, s1)" by (simp add: Wait_enter_def s1_def)
  let ?b = "(\<lambda>_ :: nat. NotBlocked)(1 := InWait 512)"
  have r1: "reachable id demo_map \<lparr>ks = s1, blk = ?b, frame = f, torn = False\<rparr>"
    using reachable.step [OF r step.wait [OF boot_run(2) _ _ e]] by simp
  have u: "user s1 1" using boot_run(2) by (simp add: user_def s1_def)
  have it: "block_iter id (?b 1) 1 s1 = map_option (\<lambda>(sw, s). Parked sw s) (task_switch_away id (park_current 1 s1))"
    using boot_run(5) by (simp add: block_iter_def Wait_iter_def s1_def)
  have nd: "block_iter id (?b 1) 1 s1 \<noteq> Some (Done v s')" for v s'
    unfolding it by (cases "task_switch_away id (park_current 1 s1)") auto
  have k: "kinv s1 ?b f" using reachable_frames [OF r1] by simp
  define B where "B = block_iter id (?b 1) 1 s1"
  have "B \<noteq> Some (Done v s')" for v s' using nd by (simp add: B_def)
  then obtain s' where p: "B = Some (Parked True s')"
    "tc_State (g_tasks s' 1) = TASK_WAITING" "g_task_count s' = g_task_count s1"
    using kinv_block_iter [OF k u one_neq_zero, of id, folded B_def] by blast
  have "reachable id demo_map \<lparr>ks = s', blk = ?b, frame = f, torn = False\<rparr>"
    by (rule reachable.step [OF r1 step.park [where b = ?b, OF u _ _ p(1) [unfolded B_def]]]) auto
  moreover have "g_task_count s' = 2" using p(3) boot_run(3) by (simp add: s1_def)
  ultimately show ?thesis using p(2) by blast
qed

section \<open>Properties\<close>

text \<open>(C1) In every reachable state (under the assumptions stated with the step relation) each task slot in use is where its state says: a WAITING task
  is in the wait queue and a READY one in the ready queue of its own priority level, nothing else
  is queued except removed tasks not yet swept from a ready queue, and only the current task is
  RUNNING; the linked representation (sentinel rings and occupancy bitmap) is well formed.\<close>

theorem sched_placement:
  assumes "reachable e km k"
  shows "\<exists>rq wq. wfq (ks k) rq wq \<and> (\<forall>t<g_task_count (ks k). placed (ks k) rq wq t)"
proof -
  obtain fr where "kinv (ks k) (blk k) fr" using reachable_kinv [OF assms] by blast
  from kinvD(1) [OF this] show ?thesis using qinvD(1,4) unfolding sinv_def by blast
qed

theorem sched_placement_witness:
  "\<exists>rq wq. wfq boot_run rq wq \<and> placed boot_run rq wq 0 \<and> placed boot_run rq wq 1"
proof -
  obtain f where r: "reachable id demo_map \<lparr>ks = boot_run, blk = (\<lambda>_. NotBlocked), frame = f, torn = False\<rparr>"
    using boot_run(1) by blast
  from sched_placement [OF r] obtain rq wq where w: "wfq boot_run rq wq"
    and p: "\<forall>t<g_task_count boot_run. placed boot_run rq wq t" by auto
  have "placed boot_run rq wq 0" "placed boot_run rq wq 1" using p boot_run(3) by simp_all
  with w show ?thesis by blast
qed

text \<open>(C2) No wake-up is lost: in every reachable state a WAITING task has no signal it waits for
  pending, it is inside a blocking call, the mask it is woken by is the one it asked for, and a
  timed wait has its timer armed for its deadline.\<close>

theorem no_lost_wakeup:
  assumes "reachable e km k" and "t < g_task_count (ks k)"
    and "tc_State (g_tasks (ks k) t) = TASK_WAITING"
  shows "tc_SigRecvd (g_tasks (ks k) t) AND tc_SigWait (g_tasks (ks k) t) = 0 \<and>
     (case blk k t of NotBlocked \<Rightarrow> False
      | InWait m \<Rightarrow> tc_SigWait (g_tasks (ks k) t) = m
      | InSleep d \<Rightarrow> tc_SigWait (g_tasks (ks k) t) = 0 \<and> tc_wake_tick (g_tasks (ks k) t) = d
      | InWaitTicks m d \<Rightarrow> tc_SigWait (g_tasks (ks k) t) = m \<and> tc_wake_tick (g_tasks (ks k) t) = d)"
proof -
  obtain fr where k: "kinv (ks k) (blk k) fr" using reachable_kinv [OF assms(1)] by blast
  obtain rq wq where q: "qinv {} (ks k) rq wq" using kinvD(1) [OF k] unfolding sinv_def by blast
  have "t \<in> set wq" using qinvD(4) [OF q assms(2)] assms(3) by (simp add: placed_def)
  moreover have "blocked_ok (ks k) (blk k t) t" using kinvD(4) [OF k] assms by (simp add: binv_def)
  moreover from calculation(1) have "tc_SigRecvd (g_tasks (ks k) t) AND tc_SigWait (g_tasks (ks k) t) = 0"
    by (rule qinvD(5) [OF q])
  ultimately show ?thesis
    using assms(3) by (cases "blk k t") (simp_all add: blocked_ok_def timer_ok_def)
qed

theorem no_lost_wakeup_witness:
  "\<exists>s :: unit sched. tc_State (g_tasks s 1) = TASK_WAITING \<and>
     tc_SigRecvd (g_tasks s 1) AND 512 = 0 \<and> tc_SigWait (g_tasks s 1) = 512"
proof -
  obtain s :: "unit sched" and f where
    r: "reachable id demo_map \<lparr>ks = s, blk = (\<lambda>_. NotBlocked)(1 := InWait 512), frame = f, torn = False\<rparr>"
    and s: "g_task_count s = 2" "tc_State (g_tasks s 1) = TASK_WAITING"
    using boot_parked by blast
  from no_lost_wakeup [OF r, of 1] s show ?thesis by auto
qed

text \<open>(C6) Saved stack frames stay intact unless an interrupt returns in the window of the system-call
  return path: with any interleaving of interrupts, yields and exits, between the stores of that path too,
  as long as no interrupt has returned between its clearing of \<open>g_sched_switch_pending\<close> and of
  \<open>Task_SwitchNext\<close> (the flag \<open>torn\<close> of the configuration), each live task that is off the CPU has as
  \<open>native_rsp\<close> the stack pointer it had when it lost the CPU, and the CPU is on the stack of the task that
  owns it.\<close>

theorem frames_intact:
  assumes "reachable e km k" "\<not> torn k"
  shows "(\<forall>p. phys (ks k) = Some p \<longrightarrow> cpu_rsp (ks k) = frame k p) \<and>
     (\<forall>t<g_task_count (ks k). \<not> dead (ks k) t \<longrightarrow> phys (ks k) \<noteq> Some t \<longrightarrow>
        native_rsp (g_tasks (ks k) t) = frame k t)"
  using kinvD(2) [OF reachable_frames [OF assms]] unfolding swinv_def by blast

theorem frames_intact_witness:
  "\<exists>f. reachable id demo_map \<lparr>ks = boot_run, blk = (\<lambda>_. NotBlocked), frame = f, torn = False\<rparr> \<and> cpu_rsp boot_run = f 1"
proof -
  obtain f where r: "reachable id demo_map \<lparr>ks = boot_run, blk = (\<lambda>_. NotBlocked), frame = f, torn = False\<rparr>"
    using boot_run(1) by blast
  have "phys boot_run = Some 1" using user_unarmed [OF _ boot_run(2)] reachable_frames [OF r] by fastforce
  with frames_intact [OF r] r show ?thesis by auto
qed

text \<open>The event pump yields to Idle, which was raised above it.\<close>

lemma boot_yield:
  "\<exists>s f. reachable id demo_map \<lparr>ks = s :: unit sched, blk = (\<lambda>_. NotBlocked), frame = f, torn = False\<rparr> \<and>
     cpu_sc s = SC_Entry \<and> g_irq_depth s = 0 \<and> cpu_if s \<and> Task_SwitchNext s = Some 0 \<and> Task_SwitchPrev s = Some 1 \<and>
     \<not> dead s 1 \<and> f 0 \<noteq> f 1"
proof -
  let ?b = "\<lambda>_ :: nat. NotBlocked"
  obtain f0 where r0: "reachable id demo_map \<lparr>ks = boot_run, blk = ?b, frame = f0, torn = False\<rparr>"
    using boot_run(1) by blast
  define f where "f = f0(1 := f0 0 + 1)"
  define s1 where "s1 = boot_run\<lparr>cpu_rsp := f0 0 + 1, cpu_if := True\<rparr>"
  define s2 where "s2 = SetTaskPri (Some 1) (-1) s1"
  define s3 where "s3 = SetTaskPri (Some 0) 10 s2"
  have u1: "user s1 1" "g_task_count s1 = 2" "\<not> nested (g_tasks s1 1)"
    using boot_run by (simp_all add: s1_def user_def)
  have s2: "s2 = upd 1 (\<lambda>x. x\<lparr>ln_Pri := -1\<rparr>) s1" using u1(1) by (simp add: s2_def SetTaskPri_def user_def)
  have u2: "user s2 1" "g_task_count s2 = 2" "\<not> nested (g_tasks s2 1)"
    using u1 by (simp_all add: s2 user_def nested_def)
  have r1: "reachable id demo_map \<lparr>ks = s1, blk = ?b, frame = f, torn = False\<rparr>"
    unfolding s1_def f_def by (rule reachable.step [OF r0 step.run [OF boot_run(2)]])
  have r2: "reachable id demo_map \<lparr>ks = s2, blk = ?b, frame = f, torn = False\<rparr>"
    unfolding s2_def by (rule reachable.step [OF r1 step.set_pri [OF u1(1)]]) (use u1(2) in simp_all)
  have r3: "reachable id demo_map \<lparr>ks = s3, blk = ?b, frame = f, torn = False\<rparr>"
    unfolding s3_def by (rule reachable.step [OF r2 step.set_pri [OF u2(1)]]) (use u2(2) in simp_all)
  have t3: "g_tasks s3 1 = g_tasks s2 1" "ln_Pri (g_tasks s3 0) = 10" "cpu_if s3"
    by (simp_all add: s3_def SetTaskPri_def ready_remove_def Let_def) (simp add: s2 s1_def)
  have u3: "user s3 1" "g_task_count s3 = 2" using quiet_SetTaskPri [of s2 0 10] u2(1,2) unfolding s3_def by (simp_all add: quiet_def user_def)
  note k3 = reachable_frames [OF r3, simplified] and U = u3(1) [unfolded user_def]
  have a3: "1 < g_task_count s3" "\<not> g_sched_switch_pending s3" "runnable s3 0" using user_unarmed [OF k3 u3(1)] by auto
  obtain s4 n where d: "do_schedule id False s3 = Some s4" "keeps s3 s4" "n < g_task_count s3" "task_idx s3 0 \<le> task_idx s3 n"
    and m: "n \<noteq> 1 \<Longrightarrow> Task_SwitchNext s4 = Some n \<and> Task_SwitchPrev s4 = Some 1"
    using do_schedule_dispatch [OF kinvD(1) [OF k3] _ a3(1,2) _ _ a3(3), of False id] U a3(3) by auto
  have "n \<noteq> 1" using d(4) t3(1,2) by (auto simp: pri_to_idx_def s2)
  then have n: "Task_SwitchNext s4 = Some 0" "Task_SwitchPrev s4 = Some 1" using d(3) u3(2) m by (cases n; simp)+
  then have y: "Task_Yield id s3 = Some (True, s4)"
    using U u2(3) t3(1) d(1) by (simp add: Task_Yield_def task_switch_away_def)
  have "reachable id demo_map \<lparr>ks = s4, blk = ?b, frame = f, torn = False\<rparr>"
    by (rule reachable.step [OF r3 step.yield [OF u3(1) _ y]]) simp
  moreover have "cpu_sc s3 = SC_Entry" using kinvD(2) [OF k3] U by (auto simp: swinv_def posok_def)
  ultimately show ?thesis using n d(2) U t3(3) by (intro exI [of _ s4] exI [of _ f]) (simp add: keeps_def f_def)
qed

text \<open>On its way back the return path has loaded Idle's stack pointer and cleared
  \<open>g_sched_switch_pending\<close>.\<close>

lemma boot_window:
  "\<exists>s f. reachable id demo_map \<lparr>ks = s :: unit sched, blk = (\<lambda>_. NotBlocked), frame = f, torn = False\<rparr> \<and>
     cpu_sc s = SC_Next \<and> g_irq_depth s = 0 \<and> cpu_if s \<and> Task_SwitchNext s = Some 0 \<and> Task_SwitchPrev s = Some 1 \<and>
     \<not> dead s 1 \<and> f 0 \<noteq> f 1"
proof -
  obtain s4 :: "unit sched" and f where r4: "reachable id demo_map \<lparr>ks = s4, blk = (\<lambda>_. NotBlocked), frame = f, torn = False\<rparr>"
    and s4: "cpu_sc s4 = SC_Entry" "g_irq_depth s4 = 0" "cpu_if s4" "Task_SwitchNext s4 = Some 0" "Task_SwitchPrev s4 = Some 1"
      "\<not> dead s4 1" "f 0 \<noteq> f 1"
    using boot_yield by blast
  let ?R = "\<lambda>s. reachable id demo_map \<lparr>ks = s, blk = (\<lambda>_. NotBlocked), frame = f, torn = False\<rparr>"
  have ret: "?R (syscall_epilogue (cpu_sc s) s)" if "?R s" "g_irq_depth s = 0" for s
    using reachable.step [OF that(1) step.syscall_ret [OF that(2)]] .
  define s5 where "s5 = (upd 1 (\<lambda>x. x\<lparr>native_rsp := cpu_rsp s4\<rparr>) s4)\<lparr>cpu_sc := SC_Load 0\<rparr>"
  define s6 where "s6 = s5\<lparr>cpu_rsp := native_rsp (g_tasks s5 0), cpu_sc := SC_Pending\<rparr>"
  define s7 where "s7 = s6\<lparr>g_sched_switch_pending := False, cpu_sc := SC_Next\<rparr>"
  have r5: "?R s5" using ret [OF r4 s4(2)] s4 by (simp add: s5_def)
  have r6: "?R s6" using ret [OF r5] s4(2) by (simp add: s5_def s6_def)
  have "?R s7" using ret [OF r6] s4(2) by (simp add: s5_def s6_def s7_def)
  then show ?thesis using s4 by (intro exI [of _ s7] exI [of _ f]) (simp add: s5_def s6_def s7_def)
qed

text \<open>(C7) The window of the system-call return path: when an interrupt is taken, with interrupts enabled,
  after the return path has cleared \<open>g_sched_switch_pending\<close> and before it clears \<open>Task_SwitchNext\<close>, the
  epilogue of that interrupt, even of one that does nothing, carries out the switch a second time.  The
  outgoing task, whose own stack pointer had been filed, is left with the incoming task's.\<close>

theorem syscall_window_misfiles:
  assumes "reachable e km k" "\<not> torn k" "cpu_sc (ks k) = SC_Next" "cpu_if (ks k)" "g_irq_depth (ks k) = 0"
    and "Task_SwitchNext (ks k) = Some n" "Task_SwitchPrev (ks k) = Some p" "\<not> dead (ks k) p"
  shows "native_rsp (g_tasks (ks k) p) = frame k p \<and>
    (\<exists>k1 k2. step e km k k1 \<and> step e km k1 k2 \<and> g_current (ks k2) = Some n \<and> frame k2 = frame k \<and>
       native_rsp (g_tasks (ks k2) p) = frame k n)"
proof -
  obtain s b f where k: "k = \<lparr>ks = s, blk = b, frame = f, torn = False\<rparr>" using assms(2) by (cases k) auto
  note i = reachable_frames [OF assms(1,2)]
  have c: "\<not> g_sched_switch_pending s" "g_current s = Some n" "p \<noteq> n" "p < g_task_count s" "phys s = Some n"
    using kinvD(2) [OF i] assms(3,6,7) by (auto simp: k swinv_def posok_def phys_def)
  let ?s1 = "s\<lparr>g_irq_depth := 1\<rparr>"
  have st1: "step e km k \<lparr>ks = ?s1, blk = b, frame = f, torn = False\<rparr>"
    using step.irq_enter [of e km s b f] assms(5) by (simp add: k)
  have e: "isr_epilogue (?s1\<lparr>g_irq_depth := g_irq_depth ?s1 - 1\<rparr>) = (commit_switch p n (s\<lparr>g_irq_depth := 0\<rparr>))\<lparr>cpu_sc := SC_Entry\<rparr>"
    using c(1) assms(6,7) by (simp add: isr_epilogue_def k)
  obtain w where "step e km \<lparr>ks = ?s1, blk = b, frame = f, torn = False\<rparr>
      \<lparr>ks = isr_epilogue (?s1\<lparr>g_irq_depth := g_irq_depth ?s1 - 1\<rparr>), blk = b, frame = f, torn = w\<rparr>"
    using step.irq_exit [of ?s1 e km b f] by auto
  note st2 = this [unfolded e]
  have v: "native_rsp (g_tasks s p) = f p" "cpu_rsp s = f n"
    using kinvD(2) [OF i] c assms(8) by (auto simp: k swinv_def)
  define k2 where "k2 = \<lparr>ks = (commit_switch p n (s\<lparr>g_irq_depth := 0\<rparr>))\<lparr>cpu_sc := SC_Entry\<rparr>, blk = b, frame = f, torn = w\<rparr>"
  have "g_current (ks k2) = Some n" "frame k2 = frame k" "native_rsp (g_tasks (ks k2) p) = frame k n"
    using c(2) v(2) by (simp_all add: k2_def k commit_switch_def Let_def)
  then show ?thesis using st1 st2 [folded k2_def] v(1) by (auto simp: k)
qed

theorem syscall_window_misfiles_witness:
  "\<exists>k :: unit config. reachable id demo_map k \<and> g_current (ks k) = Some 0 \<and> native_rsp (g_tasks (ks k) 1) \<noteq> frame k 1"
proof -
  obtain s f where r: "reachable id demo_map \<lparr>ks = s :: unit sched, blk = (\<lambda>_. NotBlocked), frame = f, torn = False\<rparr>"
    and s: "cpu_sc s = SC_Next" "g_irq_depth s = 0" "cpu_if s" "Task_SwitchNext s = Some 0" "Task_SwitchPrev s = Some 1"
      "\<not> dead s 1" "f 0 \<noteq> f 1"
    using boot_window by blast
  obtain k1 k2 where "step id demo_map \<lparr>ks = s, blk = (\<lambda>_. NotBlocked), frame = f, torn = False\<rparr> k1"
    "step id demo_map k1 k2" "g_current (ks k2) = Some 0" "frame k2 = f" "native_rsp (g_tasks (ks k2) 1) = f 0"
    using syscall_window_misfiles [OF r, of 0 1] s by auto
  then show ?thesis using reachable.step [OF reachable.step [OF r]] s(7) by (intro exI [of _ k2]) auto
qed

text \<open>(C8) A reschedule that is not deferred always finds a task to run, and it is one of the
  highest priority among the runnable ones; the new current task is RUNNING and every other
  runnable task, the outgoing one included, is READY.\<close>

theorem dispatch_highest:
  assumes "reachable e km k" and "g_current (ks k) = Some prev"
    and "\<not> g_sched_switch_pending (ks k)" and "Task_SwitchNext (ks k) = None"
    and "\<not> (irq \<and> nested (g_tasks (ks k) prev))"
  shows "\<exists>s' n. do_schedule e irq (ks k) = Some s' \<and> g_current s' = Some n \<and>
     tc_State (g_tasks s' n) = TASK_RUNNING \<and>
     (\<forall>u. runnable (ks k) u \<longrightarrow> sint (ln_Pri (g_tasks (ks k) u)) \<le> sint (ln_Pri (g_tasks (ks k) n)) \<and>
        (u = n \<or> tc_State (g_tasks s' u) = TASK_READY))"
proof -
  obtain fr where k: "kinv (ks k) (blk k) fr" using reachable_kinv [OF assms(1)] by blast
  have c: "prev < g_task_count (ks k)" "runnable (ks k) 0" using kinvD(5) [OF k assms(2)] by auto
  from do_schedule_dispatch [OF kinvD(1) [OF k] assms(2) c(1) assms(3-5) c(2), of e]
  show ?thesis unfolding pri_to_idx_mono by blast
qed

theorem dispatch_highest_witness:
  "\<exists>s' n. do_schedule id False boot_run = Some s' \<and> g_current s' = Some n \<and>
     tc_State (g_tasks s' n) = TASK_RUNNING \<and>
     sint (ln_Pri (g_tasks boot_run 1)) \<le> sint (ln_Pri (g_tasks boot_run n))"
proof -
  obtain f where r: "reachable id demo_map \<lparr>ks = boot_run, blk = (\<lambda>_. NotBlocked), frame = f, torn = False\<rparr>"
    using boot_run(1) by blast
  have u: "\<not> g_sched_switch_pending boot_run" "Task_SwitchNext boot_run = None"
    using user_unarmed [OF _ boot_run(2)] reachable_frames [OF r] boot_run(2) by (fastforce simp: user_def)+
  have "runnable boot_run 1" using boot_run(2,3) by (simp add: runnable_def user_def)
  with dispatch_highest [OF r, of 1 False] u boot_run(4) show ?thesis by fastforce
qed

end
