(* ===== verification/RamFS_Pool.thy ===== *)
theory RamFS_Pool
  imports Prelude
begin

text \<open>
  The data pool of \<^verbatim>\<open>kernel/dos/ramfs.c\<close>: an 8 MB byte array carved into chunks, each with a
  16-byte header (size, next), and a free list threaded through the headers.  The headers live
  in the same bytes the files are stored in, so that a wrong chunk size would show as a
  corrupted header.  A \<open>uint8_t *\<close> into the pool is the offset of its byte (\<open>None\<close> for NULL).
  The abstract view is the sequence of chunks from offset 0 up to the high-water mark.
\<close>

section \<open>Model\<close>

record pool =
  g_pool :: "nat \<Rightarrow> u8"
  g_pool_top :: u32
  g_free_head :: u32
  g_pool_used :: u32

definition POOL_HDR :: u32 where "POOL_HDR = 16"
definition POOL_ALIGN :: u32 where "POOL_ALIGN = 16"
definition POOL_NIL :: u32 where "POOL_NIL = 0xFFFFFFFF"
definition POOL_SZ :: u32 where "POOL_SZ = 8 * 1024 * 1024"

text \<open>The fields of the \<open>PoolChunk\<close> at a pool offset.\<close>

definition chunk_size :: "pool \<Rightarrow> u32 \<Rightarrow> u32" where
  "chunk_size s off = load32 (unat off) (g_pool s)"

definition chunk_next :: "pool \<Rightarrow> u32 \<Rightarrow> u32" where
  "chunk_next s off = load32 (unat off + 4) (g_pool s)"

definition set_size :: "u32 \<Rightarrow> u32 \<Rightarrow> pool \<Rightarrow> pool" where
  "set_size off v s = s\<lparr>g_pool := store32 (unat off) v (g_pool s)\<rparr>"

definition set_next :: "u32 \<Rightarrow> u32 \<Rightarrow> pool \<Rightarrow> pool" where
  "set_next off v s = s\<lparr>g_pool := store32 (unat off + 4) v (g_pool s)\<rparr>"

text \<open>\<^verbatim>\<open>if (prev == POOL_NIL) g_free_head = v; else prev->next = v;\<close>\<close>

definition link_free :: "u32 \<Rightarrow> u32 \<Rightarrow> pool \<Rightarrow> pool" where
  "link_free prev v s = (if prev = POOL_NIL then s\<lparr>g_free_head := v\<rparr> else set_next prev v s)"

text \<open>The body of the first-fit loop on a chunk that is large enough.\<close>

definition take_chunk :: "u32 \<Rightarrow> u32 \<Rightarrow> u32 \<Rightarrow> pool \<Rightarrow> u32 \<times> pool" where
  "take_chunk need prev cur s =
     (let rem = chunk_size s cur - need;
          s = (if rem \<ge> POOL_HDR + POOL_ALIGN
               then let s = set_size (cur + need) rem s;
                        s = set_next (cur + need) (chunk_next s cur) s;
                        s = set_size cur need s
                    in link_free prev (cur + need) s
               else link_free prev (chunk_next s cur) s)
      in (cur + POOL_HDR, s\<lparr>g_pool_used := g_pool_used s + chunk_size s cur\<rparr>))"

partial_function (option) alloc_scan ::
    "u32 \<Rightarrow> u32 \<Rightarrow> u32 \<Rightarrow> pool \<Rightarrow> (u32 option \<times> pool) option" where
  "alloc_scan need prev cur s =
     (if cur = POOL_NIL then Some (None, s)
      else if chunk_size s cur \<ge> need
      then (let (p, s) = take_chunk need prev cur s in Some (Some p, s))
      else alloc_scan need cur (chunk_next s cur) s)"

definition alloc_need :: "u32 \<Rightarrow> u32" where
  "alloc_need bytes = POOL_HDR + ((bytes + POOL_ALIGN - 1) AND NOT (POOL_ALIGN - 1))"

definition RamFS_AllocPool :: "u32 \<Rightarrow> pool \<Rightarrow> (u32 option \<times> pool) option" where
  "RamFS_AllocPool bytes s =
     (if bytes = 0 then Some (None, s)
      else let need = alloc_need bytes
           in case alloc_scan need POOL_NIL (g_free_head s) s of
                None \<Rightarrow> None
              | Some (Some p, s) \<Rightarrow> Some (Some p, s)
              | Some (None, s) \<Rightarrow>
                  if g_pool_top s + need > POOL_SZ then Some (None, s)
                  else let c = g_pool_top s;
                           s = s\<lparr>g_pool_top := g_pool_top s + need\<rparr>;
                           s = set_size c need s;
                           s = s\<lparr>g_pool_used := g_pool_used s + need\<rparr>
                       in Some (Some (c + POOL_HDR), s))"

text \<open>The search for the insertion point: \<open>(prev, cur)\<close> with \<open>cur\<close> the first free chunk not
  below \<open>off\<close>.\<close>

partial_function (option) free_scan :: "u32 \<Rightarrow> u32 \<Rightarrow> u32 \<Rightarrow> pool \<Rightarrow> (u32 \<times> u32) option" where
  "free_scan off prev cur s =
     (if cur \<noteq> POOL_NIL \<and> cur < off then free_scan off cur (chunk_next s cur) s
      else Some (prev, cur))"

text \<open>Merge with the following chunk when it is adjacent; then link in, merging with the preceding
  chunk when that is adjacent.\<close>

definition merge_next :: "u32 \<Rightarrow> u32 \<Rightarrow> pool \<Rightarrow> pool" where
  "merge_next off cur s =
     (if cur \<noteq> POOL_NIL \<and> off + chunk_size s off = cur
      then let s = set_size off (chunk_size s off + chunk_size s cur) s
           in set_next off (chunk_next s cur) s
      else set_next off cur s)"

definition merge_prev :: "u32 \<Rightarrow> u32 \<Rightarrow> pool \<Rightarrow> pool" where
  "merge_prev off prev s =
     (if prev \<noteq> POOL_NIL
      then if prev + chunk_size s prev = off
           then let s = set_size prev (chunk_size s prev + chunk_size s off) s
                in set_next prev (chunk_next s off) s
           else set_next prev off s
      else s\<lparr>g_free_head := off\<rparr>)"

definition RamFS_FreePool :: "u32 option \<Rightarrow> pool \<Rightarrow> pool option" where
  "RamFS_FreePool ptr s =
     (case ptr of
        None \<Rightarrow> Some s
      | Some p \<Rightarrow>
          let off = p - POOL_HDR;
              s = s\<lparr>g_pool_used := g_pool_used s - chunk_size s off\<rparr>
          in map_option (\<lambda>(prev, cur). merge_prev off prev (merge_next off cur s))
               (free_scan off POOL_NIL (g_free_head s) s))"

definition RamFS_Init_pool :: "pool \<Rightarrow> pool" where
  "RamFS_Init_pool s = s\<lparr>g_pool_top := 0, g_free_head := POOL_NIL, g_pool_used := 0\<rparr>"

section \<open>The chunks of a pool\<close>

text \<open>A chunk is \<open>(live, size)\<close>; the chunks tile the pool from offset 0.\<close>

type_synonym chunks = "(bool \<times> nat) list"

abbreviation span :: "chunks \<Rightarrow> nat" where "span bs \<equiv> sum_list (map snd bs)"

fun hdrs :: "(nat \<Rightarrow> u8) \<Rightarrow> nat \<Rightarrow> chunks \<Rightarrow> bool" where
  "hdrs m off [] = True"
| "hdrs m off ((l, n) # bs) = (load32 off m = of_nat n \<and> hdrs m (off + n) bs)"

fun frees :: "nat \<Rightarrow> chunks \<Rightarrow> nat list" where
  "frees off [] = []"
| "frees off ((l, n) # bs) = (if l then frees (off + n) bs else off # frees (off + n) bs)"

text \<open>A segment of the free list from \<open>h\<close> to \<open>m\<close>.\<close>

fun seg :: "(nat \<Rightarrow> u8) \<Rightarrow> u32 \<Rightarrow> nat list \<Rightarrow> u32 \<Rightarrow> bool" where
  "seg m h [] k = (h = k)"
| "seg m h (o1 # os) k = (h = of_nat o1 \<and> seg m (load32 (o1 + 4) m) os k)"

fun no_adjacent :: "chunks \<Rightarrow> bool" where
  "no_adjacent [] = True"
| "no_adjacent (c # bs) = ((fst c \<or> bs = [] \<or> fst (hd bs)) \<and> no_adjacent bs)"

fun chunk_ok :: "bool \<times> nat \<Rightarrow> bool" where
  "chunk_ok (l, n) = (32 \<le> n \<and> 16 dvd n)"

definition live_bytes :: "chunks \<Rightarrow> nat" where
  "live_bytes bs = span (filter fst bs)"

definition pool_rep :: "pool \<Rightarrow> chunks \<Rightarrow> bool" where
  "pool_rep s bs \<longleftrightarrow>
     list_all chunk_ok bs \<and> no_adjacent bs \<and> span bs \<le> unat POOL_SZ \<and>
     g_pool_top s = of_nat (span bs) \<and> g_pool_used s = of_nat (live_bytes bs) \<and>
     hdrs (g_pool s) 0 bs \<and> seg (g_pool s) (g_free_head s) (frees 0 bs) POOL_NIL"

section \<open>Reference allocator\<close>

fun alloc_chunks :: "nat \<Rightarrow> nat \<Rightarrow> chunks \<Rightarrow> (nat \<times> chunks) option" where
  "alloc_chunks need off [] = None"
| "alloc_chunks need off ((l, n) # bs) =
     (if \<not> l \<and> need \<le> n
      then Some (off, if 32 \<le> n - need then (True, need) # (False, n - need) # bs else (True, n) # bs)
      else map_option (\<lambda>(a, bs'). (a, (l, n) # bs')) (alloc_chunks need (off + n) bs))"

fun mark_free :: "nat \<Rightarrow> nat \<Rightarrow> chunks \<Rightarrow> chunks" where
  "mark_free a off [] = []"
| "mark_free a off ((l, n) # bs) =
     (if a = off then (False, n) # bs else (l, n) # mark_free a (off + n) bs)"

fun coalesce :: "chunks \<Rightarrow> chunks" where
  "coalesce ((False, n) # (False, k) # bs) = coalesce ((False, n + k) # bs)"
| "coalesce (c # bs) = c # coalesce bs"
| "coalesce [] = []"

text \<open>The offsets of the live chunks, and the data bytes of the chunk at an offset.\<close>

fun live_at :: "nat \<Rightarrow> nat \<Rightarrow> chunks \<Rightarrow> nat option" where
  "live_at a off [] = None"
| "live_at a off ((l, n) # bs) = (if a = off then if l then Some n else None else live_at a (off + n) bs)"

section \<open>Sizes\<close>

lemma alloc_need_unat:
  assumes "bytes \<noteq> 0" "unat bytes \<le> 2 ^ 32 - 2 ^ 24"
  shows "unat (alloc_need bytes) = 16 + 16 * ((unat bytes + 15) div 16)"
proof -
  have b: "unat (bytes + 15) = unat bytes + 15" using assms(2) by (simp add: unat_word_ariths)
  have s: "bytes + 16 - 1 = bytes + 15" by simp
  have "16 * ((unat bytes + 15) div 16) \<le> unat bytes + 15" by simp
  then have l: "16 * ((unat bytes + 15) div 16) + 16 < 4294967296" using assms(2) by simp
  have "unat ((bytes + 15) AND - 16) = 16 * ((unat bytes + 15) div 16)" using and_not_15 [of "bytes + 15"] by (simp add: b)
  then show ?thesis using l
    unfolding alloc_need_def POOL_HDR_def POOL_ALIGN_def s by (simp add: unat_word_ariths)
qed

section \<open>Header accesses\<close>

lemma aligned_apart: "16 dvd (a :: nat) \<Longrightarrow> 16 dvd b \<Longrightarrow> a \<noteq> b \<Longrightarrow> a + 16 \<le> b \<or> b + 16 \<le> a"
  by (elim dvdE) auto

lemma hdr_store:
  assumes "16 dvd a" "16 dvd b"
  shows "load32 a (store32 b v m) = (if a = b then v else load32 a m)"
    and "load32 (a + 4) (store32 (b + 4) v m) = (if a = b then v else load32 (a + 4) m)"
    and "load32 a (store32 (b + 4) v m) = load32 a m"
    and "load32 (a + 4) (store32 b v m) = load32 (a + 4) m"
  using aligned_apart [OF assms]
  by (cases "a = b", auto simp: load32_store32_other)+

lemma hdrs_append: "hdrs m off (xs @ ys) \<longleftrightarrow> hdrs m off xs \<and> hdrs m (off + span xs) ys"
  by (induction m off xs rule: hdrs.induct) (auto simp: add.assoc)

lemma frees_append: "frees off (xs @ ys) = frees off xs @ frees (off + span xs) ys"
  by (induction off xs rule: frees.induct) (auto simp: add.assoc)

lemma no_adjacent_append:
  "no_adjacent (xs @ ys) \<longleftrightarrow> no_adjacent xs \<and> no_adjacent ys \<and>
     (xs = [] \<or> ys = [] \<or> fst (last xs) \<or> fst (hd ys))"
  by (induction xs) auto

lemma span_dvd: "list_all chunk_ok bs \<Longrightarrow> 16 dvd span bs"
  by (induction bs) auto

lemma frees_bounds:
  assumes "a \<in> set (frees off bs)" "list_all chunk_ok bs" "16 dvd off"
  shows "16 dvd a \<and> off \<le> a \<and> a + 32 \<le> off + span bs"
  using assms
proof (induction off bs rule: frees.induct)
  case (2 off l n bs)
  have n: "32 \<le> n" "16 dvd n" "list_all chunk_ok bs" "16 dvd off + n" using 2 by auto
  have "a = off \<and> \<not> l \<or> a \<in> set (frees (off + n) bs)" using 2(3) by (auto split: if_splits)
  then show ?case
  proof
    assume "a \<in> set (frees (off + n) bs)"
    then have "16 dvd a \<and> off + n \<le> a \<and> a + 32 \<le> off + n + span bs"
      using 2(1,2) n by (cases l) auto
    then show ?thesis by auto
  qed (use 2 n in auto)
qed simp

lemma frees_sorted: "list_all chunk_ok bs \<Longrightarrow> 16 dvd off \<Longrightarrow> sorted_wrt (<) (frees off bs)"
proof (induction off bs rule: frees.induct)
  case (2 off l n bs)
  have "off < a" if "a \<in> set (frees (off + n) bs)" for a
    using frees_bounds [OF that] 2 by auto
  with 2 show ?case by (auto split: if_splits)
qed simp

lemma hdrs_frame:
  assumes "\<And>a. off \<le> a \<Longrightarrow> a < off + span bs \<Longrightarrow> 16 dvd a \<Longrightarrow> load32 a m' = load32 a m"
    and "list_all chunk_ok bs" "16 dvd off"
  shows "hdrs m' off bs = hdrs m off bs"
  using assms
proof (induction m off bs rule: hdrs.induct)
  case (2 m off l n bs)
  have "load32 off m' = load32 off m" using 2(2) [of off] 2(3-) by auto
  moreover have "hdrs m' (off + n) bs = hdrs m (off + n) bs"
    using 2(3-) by (intro 2(1) 2(2)) auto
  ultimately show ?case by simp
qed simp

lemma seg_append: "seg m h (xs @ ys) k \<longleftrightarrow> (\<exists>j. seg m h xs j \<and> seg m j ys k)"
  by (induction xs arbitrary: h) auto

lemma seg_frame:
  "(\<And>a. a \<in> set os \<Longrightarrow> load32 (a + 4) m' = load32 (a + 4) m) \<Longrightarrow> seg m' h os k = seg m h os k"
  by (induction os arbitrary: h) auto

definition free_offs :: "nat list \<Rightarrow> bool" where
  "free_offs os \<longleftrightarrow> sorted_wrt (<) os \<and> (\<forall>a\<in>set os. 16 dvd a \<and> a < 2 ^ 23)"

lemma frees_free_offs:
  assumes "list_all chunk_ok bs" "16 dvd off" "off + span bs \<le> 2 ^ 23"
  shows "free_offs (frees off bs)"
  using frees_bounds [OF _ assms(1,2)] frees_sorted [OF assms(1,2)] assms(3)
  by (fastforce simp: free_offs_def)

lemma unat_off: "a \<le> 2 ^ 23 \<Longrightarrow> unat (of_nat a :: u32) = a"
  by (simp add: unat_of_nat take_bit_nat_eq_self)

lemma off_not_nil: "a \<le> 2 ^ 23 \<Longrightarrow> (of_nat a :: u32) \<noteq> POOL_NIL"
proof
  assume "a \<le> 2 ^ 23" and e: "(of_nat a :: u32) = POOL_NIL"
  have "unat (of_nat a :: u32) = 0xFFFFFFFF" unfolding e by (simp add: POOL_NIL_def)
  with unat_off [OF \<open>a \<le> 2 ^ 23\<close>] \<open>a \<le> 2 ^ 23\<close> show False by simp
qed

definition tail_of :: "nat list \<Rightarrow> u32 \<Rightarrow> u32" where
  "tail_of os prev = (if os = [] then prev else of_nat (last os))"

lemma link_free_spec:
  assumes "seg (g_pool s) (g_free_head s) os k" "free_offs os"
    and s'_def: "s' = link_free (tail_of os POOL_NIL) v s"
  shows "seg (g_pool s') (g_free_head s') os v"
    and "\<And>b. 16 dvd b \<Longrightarrow> load32 b (g_pool s') = load32 b (g_pool s)"
    and "\<And>b. 16 dvd b \<Longrightarrow> b \<notin> set os \<Longrightarrow> load32 (b + 4) (g_pool s') = load32 (b + 4) (g_pool s)"
    and "g_pool_top s' = g_pool_top s" "g_pool_used s' = g_pool_used s"
proof -
  have *: "seg (g_pool s') (g_free_head s') os v \<and>
    (\<forall>b. 16 dvd b \<longrightarrow> load32 b (g_pool s') = load32 b (g_pool s)) \<and>
    (\<forall>b. 16 dvd b \<longrightarrow> b \<notin> set os \<longrightarrow> load32 (b + 4) (g_pool s') = load32 (b + 4) (g_pool s)) \<and>
    g_pool_top s' = g_pool_top s \<and> g_pool_used s' = g_pool_used s"
  proof (cases os rule: rev_cases)
    case Nil
    then show ?thesis using assms(1) by (simp add: s'_def tail_of_def link_free_def)
  next
    case (snoc ys y)
    have y: "16 dvd y" "y < 2 ^ 23" "y \<notin> set ys" "\<forall>b\<in>set ys. 16 dvd b"
      using assms(2) snoc by (auto simp: free_offs_def sorted_wrt_append)
    have u: "unat (of_nat y :: u32) = y" "(of_nat y :: u32) \<noteq> POOL_NIL"
      using unat_off off_not_nil y(2) by auto
    have s': "s' = s\<lparr>g_pool := store32 (y + 4) v (g_pool s)\<rparr>"
      using u by (simp add: s'_def snoc tail_of_def link_free_def set_next_def)
    obtain j where j: "seg (g_pool s) (g_free_head s) ys j" "j = of_nat y"
      using assms(1) by (auto simp: snoc seg_append)
    have "seg (g_pool s') (g_free_head s') ys j"
      using j(1) y by (subst seg_frame [of ys _ "g_pool s"]) (auto simp: s' hdr_store(2))
    then show ?thesis using y j by (auto simp: s' snoc seg_append hdr_store)
  qed
  show "seg (g_pool s') (g_free_head s') os v" using * by blast
  show "\<And>b. 16 dvd b \<Longrightarrow> load32 b (g_pool s') = load32 b (g_pool s)" using * by blast
  show "\<And>b. 16 dvd b \<Longrightarrow> b \<notin> set os \<Longrightarrow> load32 (b + 4) (g_pool s') = load32 (b + 4) (g_pool s)" using * by blast
  show "g_pool_top s' = g_pool_top s" "g_pool_used s' = g_pool_used s" using * by blast+
qed

lemma alloc_scan_skip:
  assumes "seg (g_pool s) cur (frees off xs) k" "hdrs (g_pool s) off xs" "list_all chunk_ok xs"
    "16 dvd off" "off + span xs \<le> 2 ^ 23" "\<forall>(l, n)\<in>set xs. l \<or> n < unat need"
  shows "alloc_scan need prev cur s = alloc_scan need (tail_of (frees off xs) prev) k s"
  using assms
proof (induction xs arbitrary: off cur prev)
  case Nil
  then show ?case by (simp add: tail_of_def)
next
  case (Cons c xs)
  obtain l n where c: "c = (l, n)" by (cases c)
  have n: "32 \<le> n" "16 dvd n" "16 dvd off + n" using Cons.prems by (auto simp: c)
  show ?case
  proof (cases l)
    case True
    then show ?thesis using Cons.IH [of cur "off + n" prev] Cons.prems n by (simp add: c add.assoc)
  next
    case False
    have cur: "cur = of_nat off" "unat (of_nat off :: u32) = off" "(of_nat off :: u32) \<noteq> POOL_NIL"
      using Cons.prems unat_off [of off] off_not_nil [of off] False by (auto simp: c)
    have sz: "chunk_size s cur = of_nat n" "unat (of_nat n :: u32) = n" "chunk_next s cur = load32 (off + 4) (g_pool s)"
      using Cons.prems cur unat_off [of n] by (auto simp: c chunk_size_def chunk_next_def)
    have "\<not> need \<le> chunk_size s cur"
      using Cons.prems(6) False by (auto simp: c word_le_nat_alt sz)
    then have "alloc_scan need prev cur s = alloc_scan need cur (chunk_next s cur) s"
      using cur(1,3) by (subst alloc_scan.simps) simp
    also have "\<dots> = alloc_scan need (tail_of (frees (off + n) xs) cur) k s"
      using Cons.IH [of "chunk_next s cur" "off + n" cur] Cons.prems False n unfolding sz(3) by (simp add: c add.assoc)
    finally show ?thesis using False cur(1) by (simp add: c tail_of_def)
  qed
qed


section \<open>Live chunks\<close>

lemma split_before:
  assumes "xs @ (l, n) # ys = pre @ zs" "length xs < length pre"
  shows "span xs + n \<le> span pre"
proof -
  have "take (Suc (length xs)) pre = take (Suc (length xs)) (pre @ zs)" using assms(2) by simp
  also have "\<dots> = xs @ [(l, n)]" unfolding assms(1) [symmetric] by simp
  finally obtain us where "pre = (xs @ [(l, n)]) @ us" by (metis append_take_drop_id)
  then show ?thesis by simp
qed

lemma split_apart:
  assumes "xs @ (l, n) # ys = pre @ (l', k) # post" "span xs \<noteq> span pre"
  shows "span xs + n \<le> span pre \<or> span pre + k \<le> span xs"
proof (cases "length xs" "length pre" rule: linorder_cases)
  case less
  from split_before [OF assms(1) less] show ?thesis by simp
next
  case equal
  with assms show ?thesis by simp
next
  case greater
  from split_before [OF assms(1) [symmetric] greater] show ?thesis by simp
qed

lemma live_at_split: "live_at a off bs = Some n \<Longrightarrow> \<exists>xs ys. bs = xs @ (True, n) # ys \<and> a = off + span xs"
proof (induction a off bs rule: live_at.induct)
  case (2 a off l k bs)
  show ?case
  proof (cases "a = off")
    case True
    then have "(l, k) # bs = [] @ (True, n) # bs \<and> a = off + span []" using 2(2) by (auto split: if_splits)
    then show ?thesis by blast
  next
    case False
    then obtain xs ys where "bs = xs @ (True, n) # ys" "a = off + k + span xs" using 2 by auto
    then have "(l, k) # bs = ((l, k) # xs) @ (True, n) # ys \<and> a = off + span ((l, k) # xs)" by simp
    then show ?thesis by blast
  qed
qed simp

lemma live_at_lower: "live_at a off bs = Some n \<Longrightarrow> off \<le> a \<and> a + n \<le> off + span bs"
  using live_at_split by fastforce

lemma live_at_below: "a < off \<Longrightarrow> live_at a off bs = None"
  using live_at_lower by (cases "live_at a off bs") (auto dest!: live_at_lower)

lemma live_at_append:
  assumes "list_all chunk_ok xs"
  shows "live_at a off (xs @ ys) =
    (if a < off + span xs then live_at a off xs else live_at a (off + span xs) ys)"
  using assms
proof (induction xs arbitrary: off)
  case (Cons c xs)
  then show ?case by (cases c) (auto simp: add.assoc)
qed (simp add: live_at_below)

definition same_live :: "chunks \<Rightarrow> (nat \<Rightarrow> u8) \<Rightarrow> (nat \<Rightarrow> u8) \<Rightarrow> bool" where
  "same_live bs m m' \<longleftrightarrow>
     (\<forall>a n i. live_at a 0 bs = Some n \<longrightarrow> a + 16 \<le> i \<longrightarrow> i < a + n \<longrightarrow> m' i = m i)"

lemma same_live_refl [simp]: "same_live bs m m" by (simp add: same_live_def)

lemma same_live_trans [trans]: "same_live bs m m' \<Longrightarrow> same_live bs m' m'' \<Longrightarrow> same_live bs m m''"
  by (simp add: same_live_def)

lemma same_live_store:
  assumes "bs = pre @ (l, k) # post" "list_all chunk_ok bs"
    "span pre \<le> w" "w + 4 \<le> span pre + (if l then 16 else k)"
  shows "same_live bs m (store32 w v m)"
  unfolding same_live_def
proof (intro allI impI)
  fix a n i assume a: "live_at a 0 bs = Some n" "a + 16 \<le> i" "i < a + n"
  obtain xs ys where x: "bs = xs @ (True, n) # ys" "a = span xs" using live_at_split [OF a(1)] by auto
  have "i < w \<or> w + 4 \<le> i"
  proof (cases "span xs = span pre")
    case True
    have "live_at a 0 bs = (if l then Some k else None)"
      unfolding assms(1) using assms True x(2) by (subst live_at_append) auto
    with a assms(3,4) x(2) True show ?thesis by (auto split: if_splits)
  next
    case False
    have k: "32 \<le> k" using assms(1,2) by auto
    from split_apart [OF x(1) [unfolded assms(1), symmetric] False] a x(2) assms(3,4) k
    show ?thesis by (auto split: if_splits)
  qed
  then show "store32 w v m i = m i" by (rule store32_apply)
qed

lemma same_live_storeI:
  assumes "same_live (pre @ (l, k) # post) m m'" "list_all chunk_ok (pre @ (l, k) # post)"
    "span pre \<le> w" "w + 4 \<le> span pre + (if l then 16 else k)"
  shows "same_live (pre @ (l, k) # post) m (store32 w v m')"
  using same_live_trans [OF assms(1) same_live_store [OF refl assms(2-)]] .

lemma same_live_store_above:
  assumes "span bs \<le> w" shows "same_live bs m (store32 w v m)"
  unfolding same_live_def using assms by (auto dest!: live_at_lower intro!: store32_apply)

section \<open>Allocation\<close>

lemma alloc_chunks_None:
  "alloc_chunks need off bs = None \<Longrightarrow> \<forall>(l, n)\<in>set bs. l \<or> n < need"
  by (induction need off bs rule: alloc_chunks.induct) (auto split: if_splits)

lemma alloc_chunks_Some:
  assumes "alloc_chunks need off bs = Some (a, bs')"
  shows "\<exists>pre n post. bs = pre @ (False, n) # post \<and> need \<le> n \<and> a = off + span pre \<and>
    (\<forall>(l, k)\<in>set pre. l \<or> k < need) \<and>
    bs' = pre @ (if 32 \<le> n - need then (True, need) # (False, n - need) # post else (True, n) # post)"
  using assms
proof (induction need off bs arbitrary: bs' rule: alloc_chunks.induct)
  case (2 need off l n bs)
  show ?case
  proof (cases "\<not> l \<and> need \<le> n")
    case True
    with 2(2) show ?thesis by (intro exI [of _ "[]"] exI [of _ n] exI [of _ bs]) auto
  next
    case False
    then obtain cs where cs: "alloc_chunks need (off + n) bs = Some (a, cs)" "bs' = (l, n) # cs"
      using 2(2) by auto
    from 2(1) [OF False cs(1)] obtain pre k post where
      "bs = pre @ (False, k) # post" "need \<le> k" "a = off + n + span pre"
      "\<forall>(l, k)\<in>set pre. l \<or> k < need"
      "cs = pre @ (if 32 \<le> k - need then (True, need) # (False, k - need) # post else (True, k) # post)"
      by (elim exE conjE) (rule that)
    moreover have "l \<or> n < need" using False by auto
    ultimately show ?thesis using cs(2)
      by (intro exI [of _ "(l, n) # pre"] exI [of _ k] exI [of _ post]) (simp add: add.assoc)
  qed
qed simp


lemma live_bytes_simps [simp]:
  "live_bytes [] = 0" "live_bytes ((l, n) # bs) = (if l then n else 0) + live_bytes bs"
  "live_bytes (xs @ ys) = live_bytes xs + live_bytes ys"
  by (simp_all add: live_bytes_def)

lemma pool_repD:
  assumes "pool_rep s bs"
  shows "list_all chunk_ok bs" "no_adjacent bs" "span bs \<le> 2 ^ 23" "g_pool_top s = of_nat (span bs)"
    "g_pool_used s = of_nat (live_bytes bs)" "hdrs (g_pool s) 0 bs"
    "seg (g_pool s) (g_free_head s) (frees 0 bs) POOL_NIL"
  using assms by (simp_all add: pool_rep_def POOL_SZ_def)

lemma pool_repI:
  assumes "list_all chunk_ok bs" "no_adjacent bs" "span bs \<le> 2 ^ 23" "g_pool_top s = of_nat (span bs)"
    "g_pool_used s = of_nat (live_bytes bs)" "hdrs (g_pool s) 0 bs"
    "seg (g_pool s) (g_free_head s) (frees 0 bs) POOL_NIL"
  shows "pool_rep s bs"
  using assms by (simp add: pool_rep_def POOL_SZ_def)

text \<open>The parts of the representation around one chunk.\<close>

lemma pool_rep_around:
  assumes "pool_rep s (pre @ (l, n) # post)"
  defines "a \<equiv> span pre" and "m \<equiv> g_pool s"
  shows "list_all chunk_ok pre" "list_all chunk_ok post" "32 \<le> n" "16 dvd n" "16 dvd a"
    "a + n + span post \<le> 2 ^ 23" "unat (of_nat a :: u32) = a" "unat (of_nat n :: u32) = n"
    "(of_nat a :: u32) \<noteq> POOL_NIL"
    "hdrs m 0 pre" "load32 a m = of_nat n" "hdrs m (a + n) post"
    "free_offs (frees 0 pre)" "free_offs (frees (a + n) post)"
    "\<forall>b\<in>set (frees 0 pre). 16 dvd b \<and> b < a" "\<forall>b\<in>set (frees (a + n) post). 16 dvd b \<and> a + n \<le> b"
    "no_adjacent pre" "no_adjacent post"
proof -
  note R = pool_repD [OF assms(1)]
  show ok: "list_all chunk_ok pre" "list_all chunk_ok post" "32 \<le> n" "16 dvd n" using R(1) by simp_all
  show d: "16 dvd a" using span_dvd [OF ok(1)] by (simp add: a_def)
  show s: "a + n + span post \<le> 2 ^ 23" using R(3) by (simp add: a_def)
  show "unat (of_nat a :: u32) = a" "unat (of_nat n :: u32) = n" "(of_nat a :: u32) \<noteq> POOL_NIL"
    using unat_off [of a] unat_off [of n] off_not_nil [of a] s by auto
  show "hdrs m 0 pre" "load32 a m = of_nat n" "hdrs m (a + n) post"
    using R(6) by (simp_all add: hdrs_append a_def m_def)
  have d': "16 dvd a + n" using d ok(4) by simp
  show "free_offs (frees 0 pre)" "free_offs (frees (a + n) post)"
    using s frees_free_offs [OF ok(1), of 0] frees_free_offs [OF ok(2) d'] by (auto simp: a_def)
  show "\<forall>b\<in>set (frees 0 pre). 16 dvd b \<and> b < a" "\<forall>b\<in>set (frees (a + n) post). 16 dvd b \<and> a + n \<le> b"
    using frees_bounds [OF _ ok(1), of _ 0] frees_bounds [OF _ ok(2) d'] by (fastforce simp: a_def)+
  show "no_adjacent pre" "no_adjacent post" using R(2) by (simp_all add: no_adjacent_append)
qed

lemma frees_split: "b \<in> set (frees off bs) \<Longrightarrow> \<exists>xs k ys. bs = xs @ (False, k) # ys \<and> b = off + span xs"
proof (induction off bs rule: frees.induct)
  case (2 off l n bs)
  show ?case
  proof (cases "b = off \<and> \<not> l")
    case True
    then have "(l, n) # bs = [] @ (False, n) # bs \<and> b = off + span []" by simp
    then show ?thesis by blast
  next
    case False
    then have "b \<in> set (frees (off + n) bs)" using 2(3) by (auto split: if_splits)
    then obtain xs k ys where "bs = xs @ (False, k) # ys" "b = off + n + span xs"
      using 2(1,2) by (cases l) auto
    then have "(l, n) # bs = ((l, n) # xs) @ (False, k) # ys \<and> b = off + span ((l, n) # xs)" by simp
    then show ?thesis by blast
  qed
qed simp

lemma link_free_same_live:
  assumes "list_all chunk_ok (pre @ rest)" "span pre \<le> 2 ^ 23" "g_pool s = m"
  shows "same_live (pre @ rest) m (g_pool (link_free (tail_of (frees 0 pre) POOL_NIL) v s))"
proof (cases "frees 0 pre = []")
  case True
  then show ?thesis by (simp add: tail_of_def link_free_def assms(3))
next
  case False
  then obtain xs k ys where x: "pre = xs @ (False, k) # ys" "last (frees 0 pre) = span xs"
    using frees_split [of "last (frees 0 pre)" 0 pre] by auto
  have k: "32 \<le> k" using assms(1) x(1) by simp
  have u: "unat (of_nat (span xs) :: u32) = span xs" "(of_nat (span xs) :: u32) \<noteq> POOL_NIL"
    using unat_off [of "span xs"] off_not_nil [of "span xs"] assms(2) x(1) by auto
  have "same_live (pre @ rest) m (store32 (span xs + 4) v m)"
    using assms(1) x(1) k by (intro same_live_store [of _ xs False k "ys @ rest"]) auto
  then show ?thesis using False x(2) u assms(3) by (simp add: tail_of_def link_free_def set_next_def)
qed

lemma take_chunk_split:
  assumes r: "pool_rep s (pre @ (False, n) # post)" and nd: "32 \<le> nd" "16 dvd nd" "n = nd + k" "32 \<le> k"
  defines "a \<equiv> span pre"
  shows "\<exists>s'. take_chunk (of_nat nd) (tail_of (frees 0 pre) POOL_NIL) (of_nat a) s = (of_nat a + 16, s') \<and>
    pool_rep s' (pre @ (True, nd) # (False, k) # post) \<and>
    same_live (pre @ (False, n) # post) (g_pool s) (g_pool s')"
proof -
  note R = pool_repD [OF r] and A = pool_rep_around [OF r, folded a_def]
  let ?m = "g_pool s"
  have w: "of_nat a + of_nat nd = (of_nat (a + nd) :: u32)" "of_nat n - of_nat nd = (of_nat k :: u32)"
    using nd by simp_all
  have u: "unat (of_nat (a + nd) :: u32) = a + nd" "unat (of_nat k :: u32) = k"
    using A(6) nd unat_off [of "a + nd"] unat_off [of k] by auto
  have d: "16 dvd a + nd" "16 dvd k" using A(4,5) nd by (auto simp: dvd_add_right_iff)
  define m3 where "m3 = store32 a (of_nat nd) (store32 (a + nd + 4) (load32 (a + 4) ?m)
    (store32 (a + nd) (of_nat k) ?m))"
  define s3 where "s3 = s\<lparr>g_pool := m3\<rparr>"
  define s4 where "s4 = link_free (tail_of (frees 0 pre) POOL_NIL) (of_nat (a + nd)) s3"
  have j: "seg ?m (g_free_head s) (frees 0 pre) (of_nat a)" "seg ?m (load32 (a + 4) ?m) (frees (a + n) post) POOL_NIL"
    using R(7) by (auto simp: frees_append seg_append a_def)
  have m3: "load32 b m3 = (if b = a then of_nat nd else if b = a + nd then of_nat k else load32 b ?m)"
    "load32 (b + 4) m3 = (if b = a + nd then load32 (a + 4) ?m else load32 (b + 4) ?m)" if "16 dvd b" for b
    using that A(5) d nd by (simp_all add: m3_def hdr_store)
  have "seg (g_pool s3) (g_free_head s3) (frees 0 pre) (of_nat a)"
    using j(1) A(15) unfolding s3_def by (subst seg_frame [of _ _ ?m]) (auto simp: m3)
  note L = link_free_spec [OF this A(13) s4_def]
  have l4: "load32 b (g_pool s4) = load32 b m3" if "16 dvd b" for b using L(2) [OF that] by (simp add: s3_def)
  have n4: "load32 (b + 4) (g_pool s4) = load32 (b + 4) m3" if "16 dvd b" "b \<ge> a" for b
    using L(3) [OF that(1)] that A(15) by (force simp: s3_def)
  have rem: "POOL_HDR + POOL_ALIGN \<le> (of_nat k :: u32)"
    using nd by (simp add: POOL_HDR_def POOL_ALIGN_def word_le_nat_alt u)
  have t: "take_chunk (of_nat nd) (tail_of (frees 0 pre) POOL_NIL) (of_nat a) s =
      (of_nat a + 16, s4\<lparr>g_pool_used := g_pool_used s + of_nat nd\<rparr>)"
  proof -
    have "load32 (a + 4) (store32 (a + nd) v ?m) = load32 (a + 4) ?m" for v using hdr_store(4) A(5) d by blast
    then have "take_chunk (of_nat nd) (tail_of (frees 0 pre) POOL_NIL) (of_nat a) s =
        (of_nat a + POOL_HDR, s4\<lparr>g_pool_used := g_pool_used s4 + chunk_size s4 (of_nat a)\<rparr>)"
      using rem by (simp add: take_chunk_def Let_def chunk_size_def chunk_next_def set_size_def set_next_def
          A(7,11) w u del: of_nat_add flip: m3_def s3_def s4_def)
    then show ?thesis using L(5) l4 [OF A(5)] m3 [OF A(5)] by (simp add: POOL_HDR_def chunk_size_def A(7) s3_def)
  qed
  have h1: "hdrs (g_pool s4) 0 pre"
    using A(10) by (subst hdrs_frame [of _ _ _ ?m]) (use A(1) nd in \<open>auto simp: l4 m3 a_def\<close>)
  have h2: "hdrs (g_pool s4) (a + n) post"
    using A(12) by (subst hdrs_frame [of _ _ _ ?m]) (use A nd in \<open>auto simp: l4 m3\<close>)
  have "seg (g_pool s4) (load32 (a + 4) ?m) (frees (a + n) post) POOL_NIL"
    using j(2) by (subst seg_frame [of _ _ ?m]) (use A(16) nd in \<open>auto simp: n4 m3\<close>)
  then have "seg (g_pool s4) (g_free_head s4) (frees 0 pre @ (a + nd) # frees (a + n) post) POOL_NIL"
    using L(1) n4 [OF d(1)] m3 [OF d(1)] by (auto simp: seg_append)
  then have q: "seg (g_pool s4) (g_free_head s4) (frees 0 (pre @ (True, nd) # (False, k) # post)) POOL_NIL"
    using nd(3) by (simp add: frees_append a_def add.assoc)
  have "pool_rep (s4\<lparr>g_pool_used := g_pool_used s + of_nat nd\<rparr>) (pre @ (True, nd) # (False, k) # post)"
  proof (rule pool_repI)
    show "list_all chunk_ok (pre @ (True, nd) # (False, k) # post)" using A(1,2) nd d(2) by simp
    show "no_adjacent (pre @ (True, nd) # (False, k) # post)" using R(2) by (simp add: no_adjacent_append)
    show "span (pre @ (True, nd) # (False, k) # post) \<le> 2 ^ 23" using R(3) nd(3) by simp
    show "hdrs (g_pool (s4\<lparr>g_pool_used := g_pool_used s + of_nat nd\<rparr>)) 0 (pre @ (True, nd) # (False, k) # post)"
      using h1 h2 nd A(5) d by (simp add: hdrs_append l4 m3 add.assoc flip: a_def)
  qed (use q R(4,5) L(4) nd(3) in \<open>simp_all add: s3_def\<close>)
  moreover have "same_live (pre @ (False, n) # post) ?m m3" unfolding m3_def
    by (intro same_live_storeI same_live_refl R(1)) (use nd in \<open>simp_all add: a_def\<close>)
  moreover have "same_live (pre @ (False, n) # post) m3 (g_pool s4)"
    using link_free_same_live [OF R(1), of s3 m3 "of_nat (a + nd)"] A(6) by (simp add: s3_def s4_def a_def)
  ultimately show ?thesis using t by (auto intro: same_live_trans)
qed


lemma take_chunk_whole:
  assumes r: "pool_rep s (pre @ (False, n) # post)" and nd: "nd \<le> n" "n - nd < 32"
  defines "a \<equiv> span pre"
  shows "\<exists>s'. take_chunk (of_nat nd) (tail_of (frees 0 pre) POOL_NIL) (of_nat a) s = (of_nat a + 16, s') \<and>
    pool_rep s' (pre @ (True, n) # post) \<and> same_live (pre @ (False, n) # post) (g_pool s) (g_pool s')"
proof -
  note R = pool_repD [OF r] and A = pool_rep_around [OF r, folded a_def]
  let ?m = "g_pool s"
  define s4 where "s4 = link_free (tail_of (frees 0 pre) POOL_NIL) (load32 (a + 4) ?m) s"
  have j: "seg ?m (g_free_head s) (frees 0 pre) (of_nat a)" "seg ?m (load32 (a + 4) ?m) (frees (a + n) post) POOL_NIL"
    using R(7) by (auto simp: frees_append seg_append a_def)
  note L = link_free_spec [OF j(1) A(13) s4_def]
  have w: "of_nat n - of_nat nd = (of_nat (n - nd) :: u32)" using nd by (simp add: of_nat_diff)
  have "\<not> POOL_HDR + POOL_ALIGN \<le> (of_nat n - of_nat nd :: u32)"
    using nd(2) unat_off [of "n - nd"] unfolding w by (simp add: POOL_HDR_def POOL_ALIGN_def word_le_nat_alt del: of_nat_diff)
  then have t: "take_chunk (of_nat nd) (tail_of (frees 0 pre) POOL_NIL) (of_nat a) s =
      (of_nat a + 16, s4\<lparr>g_pool_used := g_pool_used s + of_nat n\<rparr>)"
    using L(5) L(2) [OF A(5)] by (simp add: take_chunk_def Let_def chunk_size_def chunk_next_def POOL_HDR_def
        A(7,11) flip: s4_def)
  have h1: "hdrs (g_pool s4) 0 pre" using A(10) by (subst hdrs_frame [of _ _ _ ?m]) (use A(1) L(2) in auto)
  have h2: "hdrs (g_pool s4) (a + n) post"
    using A(12) by (subst hdrs_frame [of _ _ _ ?m]) (use A(2,4,5) L(2) in auto)
  have "seg (g_pool s4) (load32 (a + 4) ?m) (frees (a + n) post) POOL_NIL"
  proof (subst seg_frame [of _ _ ?m])
    fix b assume "b \<in> set (frees (a + n) post)"
    then have "16 dvd b" "b \<notin> set (frees 0 pre)" using A(15,16) by fastforce+
    then show "load32 (b + 4) (g_pool s4) = load32 (b + 4) ?m" by (rule L(3))
  qed (rule j(2))
  then have q: "seg (g_pool s4) (g_free_head s4) (frees 0 (pre @ (True, n) # post)) POOL_NIL"
    using L(1) by (auto simp: seg_append frees_append a_def)
  have "pool_rep (s4\<lparr>g_pool_used := g_pool_used s + of_nat n\<rparr>) (pre @ (True, n) # post)"
  proof (rule pool_repI)
    show "no_adjacent (pre @ (True, n) # post)" using R(2) by (simp add: no_adjacent_append)
    show "hdrs (g_pool (s4\<lparr>g_pool_used := g_pool_used s + of_nat n\<rparr>)) 0 (pre @ (True, n) # post)"
      using h1 h2 A(11) L(2) [OF A(5)] by (simp add: hdrs_append flip: a_def)
  qed (use q A(1-4) R(3-5) L(4) in simp_all)
  moreover have "same_live (pre @ (False, n) # post) ?m (g_pool s4)"
    unfolding s4_def by (rule link_free_same_live [OF R(1)]) (use R(3) in auto)
  ultimately show ?thesis using t by auto
qed

lemma alloc_scan_None:
  assumes "pool_rep s bs" "alloc_chunks (unat need) 0 bs = None"
  shows "alloc_scan need POOL_NIL (g_free_head s) s = Some (None, s)"
proof -
  note R = pool_repD [OF assms(1)]
  have "alloc_scan need POOL_NIL (g_free_head s) s = alloc_scan need (tail_of (frees 0 bs) POOL_NIL) POOL_NIL s"
    using alloc_chunks_None [OF assms(2)] by (intro alloc_scan_skip R) (use R in auto)
  then show ?thesis by (subst (asm) (2) alloc_scan.simps) simp
qed

lemma alloc_scan_Some:
  assumes r: "pool_rep s bs" and al: "alloc_chunks (unat need) 0 bs = Some (a, bs')"
    and nd: "32 \<le> unat need" "16 dvd unat need"
  shows "\<exists>s'. alloc_scan need POOL_NIL (g_free_head s) s = Some (Some (of_nat a + 16), s') \<and>
    pool_rep s' bs' \<and> same_live bs (g_pool s) (g_pool s')"
proof -
  obtain pre n post where p: "bs = pre @ (False, n) # post" "unat need \<le> n" "a = span pre"
    "\<forall>(l, k)\<in>set pre. l \<or> k < unat need"
    "bs' = pre @ (if 32 \<le> n - unat need then (True, unat need) # (False, n - unat need) # post else (True, n) # post)"
    using alloc_chunks_Some [OF al] by auto
  note r' = r [unfolded p(1)]
  note R = pool_repD [OF r'] and A = pool_rep_around [OF r', folded p(3)]
  have "seg (g_pool s) (g_free_head s) (frees 0 pre) (of_nat a)"
    using R(7) by (auto simp: frees_append seg_append p(3))
  then have "alloc_scan need POOL_NIL (g_free_head s) s = alloc_scan need (tail_of (frees 0 pre) POOL_NIL) (of_nat a) s"
    by (rule alloc_scan_skip) (use A p(3,4) in auto)
  also have "\<dots> = (let (p, s) = take_chunk need (tail_of (frees 0 pre) POOL_NIL) (of_nat a) s in Some (Some p, s))"
    using p(2) A(9) by (subst alloc_scan.simps) (simp add: chunk_size_def A(7,8,11) word_le_nat_alt)
  finally have e: "alloc_scan need POOL_NIL (g_free_head s) s =
    (let (p, s) = take_chunk need (tail_of (frees 0 pre) POOL_NIL) (of_nat a) s in Some (Some p, s))" .
  show ?thesis
  proof (cases "32 \<le> n - unat need")
    case True
    then show ?thesis using take_chunk_split [OF r' nd, of "n - unat need"] p by (auto simp: e)
  next
    case False
    then show ?thesis using take_chunk_whole [OF r' p(2)] p by (auto simp: e)
  qed
qed

text \<open>The result of \<open>RamFS_AllocPool\<close> on the chunk sequence.\<close>

definition alloc_result :: "nat \<Rightarrow> chunks \<Rightarrow> (nat \<times> chunks) option" where
  "alloc_result need bs =
     (case alloc_chunks need 0 bs of
        Some r \<Rightarrow> Some r
      | None \<Rightarrow> if span bs + need \<le> unat POOL_SZ then Some (span bs, bs @ [(True, need)]) else None)"

lemma alloc_pool_refines:
  assumes r: "pool_rep s bs" and b: "bytes \<noteq> 0" "unat bytes \<le> 2 ^ 32 - 2 ^ 24"
  shows "\<exists>s'. RamFS_AllocPool bytes s =
      Some (map_option (\<lambda>(a, _). of_nat a + 16) (alloc_result (unat (alloc_need bytes)) bs), s') \<and>
    (case alloc_result (unat (alloc_need bytes)) bs of None \<Rightarrow> s' = s | Some (_, bs') \<Rightarrow> pool_rep s' bs') \<and>
    same_live bs (g_pool s) (g_pool s')"
proof -
  note R = pool_repD [OF r]
  define need where "need = alloc_need bytes"
  have u: "unat need = 16 + 16 * ((unat bytes + 15) div 16)" unfolding need_def by (rule alloc_need_unat [OF b])
  have "unat bytes > 0" using b(1) by (simp add: unat_gt_0)
  then have nd: "32 \<le> unat need" "16 dvd unat need" unfolding u by auto
  have "16 * ((unat bytes + 15) div 16) \<le> unat bytes + 15" by simp
  then have nl: "unat need \<le> unat bytes + 31" using u by simp
  have tp: "unat (g_pool_top s) = span bs" using R(3,4) unat_off by simp
  have sum: "unat (g_pool_top s + need) = span bs + unat need"
    using R(3) nl b(2) by (simp add: unat_word_ariths tp)
  have full: "POOL_SZ < g_pool_top s + need \<longleftrightarrow> \<not> span bs + unat need \<le> unat POOL_SZ"
    by (auto simp: word_less_nat_alt sum)
  show ?thesis
  proof (cases "alloc_chunks (unat need) 0 bs")
    case (Some q)
    then show ?thesis using alloc_scan_Some [OF r _ nd, of "fst q" "snd q"] b(1)
      by (auto simp: RamFS_AllocPool_def alloc_result_def Let_def split_beta simp flip: need_def)
  next
    case None
    note sc = alloc_scan_None [OF r None]
    show ?thesis
    proof (cases "span bs + unat need \<le> unat POOL_SZ")
      case False
      then show ?thesis using None b(1) full sc
        by (simp add: RamFS_AllocPool_def alloc_result_def Let_def flip: need_def)
    next
      case True
      define s' where "s' = s\<lparr>g_pool_top := g_pool_top s + need, g_pool := store32 (span bs) need (g_pool s),
        g_pool_used := g_pool_used s + need\<rparr>"
      have e: "RamFS_AllocPool bytes s = Some (Some (of_nat (span bs) + 16), s')"
        using b(1) full True sc
        by (simp add: RamFS_AllocPool_def Let_def s'_def set_size_def unat_off [OF R(3)] POOL_HDR_def R(4) flip: need_def)
      have d: "16 dvd span bs" by (rule span_dvd [OF R(1)])
      have h: "hdrs (g_pool s') 0 bs" using R(6)
        by (subst hdrs_frame [of _ _ _ "g_pool s"]) (use R(1) d in \<open>auto simp: s'_def hdr_store\<close>)
      have q: "seg (g_pool s') (g_free_head s') (frees 0 bs) POOL_NIL"
        using R(7) frees_bounds [OF _ R(1), of _ 0] d unfolding s'_def
        by simp (subst seg_frame [of _ _ "g_pool s"]; fastforce simp: hdr_store)
      have "pool_rep s' (bs @ [(True, unat need)])"
        using R(1-5) True nd h q
        by (intro pool_repI) (simp_all add: no_adjacent_append hdrs_append frees_append POOL_SZ_def, simp_all add: s'_def)
      moreover have "same_live bs (g_pool s) (g_pool s')"
        unfolding s'_def by (simp add: same_live_store_above)
      ultimately show ?thesis using e None True by (simp add: alloc_result_def flip: need_def)
    qed
  qed
qed

end
