(* ===== verification/RamFS_Buffers.thy ===== *)
theory RamFS_Buffers
  imports RamFS_Pool
begin

text \<open>
  Freeing in the RAM-disk pool, the contract the pool offers to the file system (locale
  \<open>buffer_pool\<close>, interpreted on \<open>RamFS_AllocPool\<close> and \<open>RamFS_FreePool\<close>) and the properties of
  sequences of pool calls.
\<close>

section \<open>Freeing\<close>

lemma free_scan_skip:
  assumes "seg (g_pool s) cur os k" "free_offs os" "\<forall>b\<in>set os. b < a" "a \<le> 2 ^ 23"
  shows "free_scan (of_nat a) prev cur s = free_scan (of_nat a) (tail_of os prev) k s"
  using assms(1-3)
proof (induction os arbitrary: cur prev)
  case (Cons b os)
  have b: "cur = of_nat b" "unat (of_nat b :: u32) = b" "(of_nat b :: u32) \<noteq> POOL_NIL" "b < a"
    using Cons.prems unat_off [of b] off_not_nil [of b] by (auto simp: free_offs_def)
  have "(of_nat b :: u32) < of_nat a" using b unat_off [OF assms(4)] by (simp add: word_less_nat_alt)
  then have "free_scan (of_nat a) prev cur s = free_scan (of_nat a) cur (load32 (b + 4) (g_pool s)) s"
    using b by (subst free_scan.simps) (simp add: chunk_next_def)
  also have "\<dots> = free_scan (of_nat a) (tail_of os cur) k s"
    using Cons by (intro Cons.IH) (auto simp: free_offs_def)
  finally show ?case by (simp add: tail_of_def b(1))
qed (simp add: tail_of_def)

lemma free_scan_stop:
  assumes "seg (g_pool s) k os POOL_NIL" "free_offs os" "\<forall>b\<in>set os. a \<le> b" "a \<le> 2 ^ 23"
  shows "free_scan (of_nat a) prev k s = Some (prev, k)"
proof (cases os)
  case (Cons b os')
  then have "k = of_nat b" "unat (of_nat b :: u32) = b" "a \<le> b" using assms unat_off [of b] by (auto simp: free_offs_def)
  then show ?thesis using unat_off [OF assms(4)] by (subst free_scan.simps) (simp add: word_less_nat_alt)
qed (use assms in \<open>subst free_scan.simps, simp\<close>)

text \<open>A pool whose chunk after \<open>pre\<close> is free but not yet linked: \<open>c\<close> is where the list before it
  points.\<close>

definition unlinked :: "pool \<Rightarrow> chunks \<Rightarrow> nat \<Rightarrow> chunks \<Rightarrow> u32 \<Rightarrow> bool" where
  "unlinked s pre n post c \<longleftrightarrow>
     list_all chunk_ok (pre @ (False, n) # post) \<and> no_adjacent pre \<and> no_adjacent ((False, n) # post) \<and>
     span (pre @ (False, n) # post) \<le> 2 ^ 23 \<and> g_pool_top s = of_nat (span (pre @ (False, n) # post)) \<and>
     g_pool_used s = of_nat (live_bytes (pre @ post)) \<and> hdrs (g_pool s) 0 (pre @ (False, n) # post) \<and>
     seg (g_pool s) (g_free_head s) (frees 0 pre) c \<and>
     seg (g_pool s) (load32 (span pre + 4) (g_pool s)) (frees (span pre + n) post) POOL_NIL"

lemma merge_next_adjacent:
  assumes r: "pool_rep s (pre @ (True, n) # (False, k) # post)"
  defines "a \<equiv> span pre" and "s0 \<equiv> s\<lparr>g_pool_used := g_pool_used s - of_nat n\<rparr>"
  defines "s1 \<equiv> merge_next (of_nat a) (of_nat (a + n)) s0"
  shows "unlinked s1 pre (n + k) post (of_nat (a + n))"
    "same_live (pre @ (True, n) # (False, k) # post) (g_pool s) (g_pool s1)"
proof -
  note R = pool_repD [OF r] and A = pool_rep_around [OF r, folded a_def]
  have r': "pool_rep s ((pre @ [(True, n)]) @ (False, k) # post)" using r by simp
  have sp: "span (pre @ [(True, n)]) = a + n" by (simp add: a_def)
  note B = pool_rep_around [OF r', unfolded sp]
  let ?m = "g_pool s"
  have m: "g_pool s1 = store32 (a + 4) (load32 (a + n + 4) ?m) (store32 a (of_nat (n + k)) ?m)"
    and f: "g_free_head s1 = g_free_head s" "g_pool_top s1 = g_pool_top s" "g_pool_used s1 = g_pool_used s - of_nat n"
    using B(7,9) A(5) B(5)
    by (simp_all add: s1_def s0_def merge_next_def Let_def chunk_size_def chunk_next_def set_size_def set_next_def
        A(7,11) B(11) hdr_store)
  have h: "load32 b (g_pool s1) = (if b = a then of_nat (n + k) else load32 b ?m)"
    "load32 (b + 4) (g_pool s1) = (if b = a then load32 (a + n + 4) ?m else load32 (b + 4) ?m)" if "16 dvd b" for b
    using that A(5) unfolding m by (simp_all add: hdr_store)
  have j: "seg ?m (g_free_head s) (frees 0 pre) (of_nat (a + n))"
    "seg ?m (load32 (a + n + 4) ?m) (frees (a + n + k) post) POOL_NIL"
    using R(7) by (auto simp: frees_append seg_append a_def)
  have "seg (g_pool s1) (g_free_head s1) (frees 0 pre) (of_nat (a + n))"
    unfolding f using j(1) A(15) by (subst seg_frame [of _ _ ?m]) (auto simp: h)
  moreover have "seg (g_pool s1) (load32 (a + 4) (g_pool s1)) (frees (a + (n + k)) post) POOL_NIL"
    using j(2) B(16) by (subst seg_frame [of _ _ ?m]) (use A(3,5) in \<open>auto simp: h add.assoc\<close>)
  moreover have "hdrs (g_pool s1) 0 pre"
    using A(10) by (subst hdrs_frame [of _ _ _ ?m]) (use A(1) in \<open>auto simp: h a_def\<close>)
  moreover have "hdrs (g_pool s1) (a + n + k) post"
    using B(12) by (subst hdrs_frame [of _ _ _ ?m]) (use A(3) B(2,4,5) in \<open>auto simp: h\<close>)
  ultimately show "unlinked s1 pre (n + k) post (of_nat (a + n))"
    using A(1,3-6) B(2-4) R(2-5) h(1) [OF A(5)]
    by (simp add: unlinked_def f hdrs_append add.assoc no_adjacent_append flip: a_def)
  show "same_live (pre @ (True, n) # (False, k) # post) ?m (g_pool s1)"
    unfolding m by (intro same_live_storeI same_live_refl R(1)) (simp_all add: a_def)
qed

lemma merge_next_apart:
  assumes r: "pool_rep s (pre @ (True, n) # post)" and p: "post = [] \<or> fst (hd post)"
  defines "a \<equiv> span pre" and "s0 \<equiv> s\<lparr>g_pool_used := g_pool_used s - of_nat n\<rparr>"
  assumes c: "seg (g_pool s) (g_free_head s) (frees 0 pre) c" "seg (g_pool s) c (frees (a + n) post) POOL_NIL"
  defines "s1 \<equiv> merge_next (of_nat a) c s0"
  shows "unlinked s1 pre n post c" "same_live (pre @ (True, n) # post) (g_pool s) (g_pool s1)"
proof -
  note R = pool_repD [OF r] and A = pool_rep_around [OF r, folded a_def]
  let ?m = "g_pool s"
  have "a + n < b" if "b \<in> set (frees (a + n) post)" for b
  proof (cases post)
    case (Cons d post')
    obtain k where d: "d = (True, k)" "32 \<le> k" "16 dvd k" using p A(2) by (cases d) (auto simp: Cons)
    show ?thesis using frees_bounds [of b "a + n + k" post'] that A(2,4,5) d by (auto simp: Cons)
  qed (use that in simp)
  then have na: "\<not> (c \<noteq> POOL_NIL \<and> of_nat a + of_nat n = c)"
  proof (cases "frees (a + n) post")
    case (Cons b os)
    then have "c = of_nat b" "a + n < b" "b < 2 ^ 23"
      using c(2) \<open>\<And>b. b \<in> set (frees (a + n) post) \<Longrightarrow> a + n < b\<close> A(14) by (auto simp: free_offs_def)
    then show ?thesis using unat_off [of b] unat_off [of "a + n"] by (metis less_imp_le_nat less_le_trans nat_neq_iff of_nat_add)
  qed (use c(2) in simp)
  have m: "g_pool s1 = store32 (a + 4) c ?m"
    and f: "g_free_head s1 = g_free_head s" "g_pool_top s1 = g_pool_top s" "g_pool_used s1 = g_pool_used s - of_nat n"
    using na by (auto simp add: s1_def s0_def merge_next_def chunk_size_def set_next_def A(7,11))
  have h: "load32 b (g_pool s1) = load32 b ?m"
    "load32 (b + 4) (g_pool s1) = (if b = a then c else load32 (b + 4) ?m)" if "16 dvd b" for b
    using that A(5) unfolding m by (simp_all add: hdr_store)
  have "seg (g_pool s1) (g_free_head s1) (frees 0 pre) c"
    unfolding f using c(1) A(15) by (subst seg_frame [of _ _ ?m]) (auto simp: h)
  moreover have "seg (g_pool s1) (load32 (a + 4) (g_pool s1)) (frees (a + n) post) POOL_NIL"
    using c(2) A(16) by (subst seg_frame [of _ _ ?m]) (use A(3,5) in \<open>auto simp: h\<close>)
  moreover have "hdrs (g_pool s1) 0 (pre @ (False, n) # post)"
    using R(6) A(5,10-12) by (subst hdrs_frame [of _ _ _ ?m]) (use R(1) in \<open>auto simp: h hdrs_append a_def\<close>)
  ultimately show "unlinked s1 pre n post c"
    using A(1-6,17,18) R(2-5) p
    by (auto simp add: unlinked_def f add.assoc simp flip: a_def)
  show "same_live (pre @ (True, n) # post) ?m (g_pool s1)"
    unfolding m by (intro same_live_storeI same_live_refl R(1)) (simp_all add: a_def)
qed


lemma unlinkedD:
  assumes "unlinked s pre n post c"
  defines "a \<equiv> span pre"
  shows "list_all chunk_ok pre" "list_all chunk_ok post" "32 \<le> n" "16 dvd n" "16 dvd a"
    "no_adjacent pre" "no_adjacent ((False, n) # post)" "a + n + span post \<le> 2 ^ 23"
    "g_pool_top s = of_nat (a + n + span post)" "g_pool_used s = of_nat (live_bytes (pre @ post))"
    "hdrs (g_pool s) 0 pre" "load32 a (g_pool s) = of_nat n" "hdrs (g_pool s) (a + n) post"
    "seg (g_pool s) (g_free_head s) (frees 0 pre) c"
    "seg (g_pool s) (load32 (a + 4) (g_pool s)) (frees (a + n) post) POOL_NIL"
    "unat (of_nat a :: u32) = a" "(of_nat a :: u32) \<noteq> POOL_NIL" "free_offs (frees 0 pre)"
    "\<forall>b\<in>set (frees 0 pre). 16 dvd b \<and> b < a" "\<forall>b\<in>set (frees (a + n) post). 16 dvd b \<and> a + n \<le> b"
proof -
  note U = assms(1) [unfolded unlinked_def, folded a_def]
  show ok: "list_all chunk_ok pre" "list_all chunk_ok post" "32 \<le> n" "16 dvd n" using U by simp_all
  show d: "16 dvd a" using span_dvd [OF ok(1)] by (simp add: a_def)
  show s: "a + n + span post \<le> 2 ^ 23" using U by (simp add: a_def)
  show "no_adjacent pre" "no_adjacent ((False, n) # post)" using U by blast+
  show "g_pool_top s = of_nat (a + n + span post)" using U by (simp add: a_def add.assoc)
  show "g_pool_used s = of_nat (live_bytes (pre @ post))" using U by blast
  show "hdrs (g_pool s) 0 pre" "load32 a (g_pool s) = of_nat n" "hdrs (g_pool s) (a + n) post"
    using U by (simp_all add: hdrs_append a_def)
  show "seg (g_pool s) (g_free_head s) (frees 0 pre) c"
    "seg (g_pool s) (load32 (a + 4) (g_pool s)) (frees (a + n) post) POOL_NIL" using U by blast+
  show "unat (of_nat a :: u32) = a" "(of_nat a :: u32) \<noteq> POOL_NIL" using unat_off [of a] off_not_nil [of a] s by auto
  have d': "16 dvd a + n" using d ok(4) by simp
  show "free_offs (frees 0 pre)" using s frees_free_offs [OF ok(1), of 0] by (auto simp: a_def)
  show "\<forall>b\<in>set (frees 0 pre). 16 dvd b \<and> b < a" "\<forall>b\<in>set (frees (a + n) post). 16 dvd b \<and> a + n \<le> b"
    using frees_bounds [OF _ ok(1), of _ 0] frees_bounds [OF _ ok(2) d'] by (fastforce simp: a_def)+
qed

lemma hdrs_at: "hdrs m off (xs @ (l, n) # ys) \<Longrightarrow> load32 (off + span xs) m = of_nat n"
  by (simp add: hdrs_append)

lemma merge_prev_is_link:
  assumes u: "unlinked s pre n post c" and p: "pre = [] \<or> fst (last pre)"
  shows "merge_prev (of_nat (span pre)) (tail_of (frees 0 pre) POOL_NIL) s =
    link_free (tail_of (frees 0 pre) POOL_NIL) (of_nat (span pre)) s"
proof (cases "frees 0 pre = []")
  case True
  then show ?thesis by (simp add: merge_prev_def link_free_def tail_of_def)
next
  case False
  note U = unlinkedD [OF u]
  obtain xs k ys where x: "pre = xs @ (False, k) # ys" "last (frees 0 pre) = span xs"
    using frees_split [of "last (frees 0 pre)" 0 pre] False by auto
  have "ys \<noteq> []" using p x(1) by auto
  then obtain z zs where z: "ys = z # zs" by (cases ys) auto
  have "32 \<le> snd z" using U(1) x(1) z by (cases z) auto
  then have lt: "span xs + k < span pre" using x(1) z by simp
  have b: "unat (of_nat (span xs) :: u32) = span xs" using unat_off [of "span xs"] U(8) lt by simp
  have "load32 (span xs) (g_pool s) = of_nat k" using U(11) hdrs_at [of _ 0 xs] x(1) by fastforce
  moreover have "(of_nat (span xs + k) :: u32) \<noteq> of_nat (span pre)"
    using lt unat_off [of "span xs + k"] U(8,16) by (metis less_or_eq_imp_le nat_less_le order_trans le_add1 add.assoc)
  ultimately show ?thesis using False x(2) b by (simp add: merge_prev_def link_free_def tail_of_def chunk_size_def)
qed

lemma merge_prev_apart:
  assumes u: "unlinked s pre n post c" and p: "pre = [] \<or> fst (last pre)"
  defines "s' \<equiv> merge_prev (of_nat (span pre)) (tail_of (frees 0 pre) POOL_NIL) s"
  shows "pool_rep s' (pre @ (False, n) # post)"
    "list_all chunk_ok (pre @ rest) \<Longrightarrow> same_live (pre @ rest) (g_pool s) (g_pool s')"
proof -
  define a where "a = span pre"
  note U = unlinkedD [OF u, folded a_def]
  have s': "s' = link_free (tail_of (frees 0 pre) POOL_NIL) (of_nat a) s"
    unfolding s'_def a_def by (rule merge_prev_is_link [OF u p])
  note L = link_free_spec [OF U(14) U(18) s']
  have nx: "load32 (b + 4) (g_pool s') = load32 (b + 4) (g_pool s)" if "16 dvd b" "a \<le> b" for b
    using L(3) [OF that(1)] U(19) that(2) by force
  have "seg (g_pool s') (load32 (a + 4) (g_pool s')) (frees (a + n) post) POOL_NIL"
    using U(15) by (subst seg_frame [of _ _ "g_pool s"]) (use U(5,20) in \<open>auto simp: nx\<close>)
  then have q: "seg (g_pool s') (g_free_head s') (frees 0 (pre @ (False, n) # post)) POOL_NIL"
    using L(1) by (auto simp: seg_append frees_append a_def)
  have "hdrs (g_pool s') 0 pre" "hdrs (g_pool s') (a + n) post"
    using U(11,13) by (subst hdrs_frame [of _ _ _ "g_pool s"]; use U(1,2,4,5) L(2) in auto)+
  then show "pool_rep s' (pre @ (False, n) # post)"
    using U(1-10,12) L(2) [OF U(5)] L(4,5) p q
    by (intro pool_repI) (auto simp: hdrs_append no_adjacent_append add.assoc simp flip: a_def)
  show "same_live (pre @ rest) (g_pool s) (g_pool s')" if "list_all chunk_ok (pre @ rest)"
    unfolding s' using that U(8) by (intro link_free_same_live) (auto simp: a_def)
qed

lemma merge_prev_adjacent:
  assumes u: "unlinked s (pre @ [(False, j)]) n post c"
  defines "s' \<equiv> merge_prev (of_nat (span pre + j)) (tail_of (frees 0 (pre @ [(False, j)])) POOL_NIL) s"
  shows "pool_rep s' (pre @ (False, j + n) # post)"
    "list_all chunk_ok (pre @ (False, j) # rest) \<Longrightarrow> same_live (pre @ (False, j) # rest) (g_pool s) (g_pool s')"
proof -
  define a where "a = span pre"
  let ?m = "g_pool s"
  have sp: "span (pre @ [(False, j)]) = a + j" by (simp add: a_def)
  note U = unlinkedD [OF u, unfolded sp]
  have d: "32 \<le> j" "16 dvd j" "16 dvd a" "list_all chunk_ok pre" using U(1,5) by (auto simp: dvd_add_left_iff)
  have j: "load32 a ?m = of_nat j" using U(11) by (simp add: hdrs_append a_def)
  have w: "unat (of_nat a :: u32) = a" "(of_nat a :: u32) \<noteq> POOL_NIL"
    using unat_off [of a] off_not_nil [of a] U(8) by auto
  have t: "tail_of (frees 0 (pre @ [(False, j)])) POOL_NIL = of_nat a" by (simp add: tail_of_def frees_append a_def)
  have s': "s' = s\<lparr>g_pool := store32 (a + 4) (load32 (a + j + 4) ?m) (store32 a (of_nat (j + n)) ?m)\<rparr>"
    using w U(16) U(5) d(3) hdr_store(4) [of "a + j" a "of_nat j + of_nat n" ?m]
    by (simp add: s'_def t merge_prev_def Let_def chunk_size_def chunk_next_def set_size_def set_next_def j U(12)
        flip: a_def)
  have h: "load32 b (g_pool s') = (if b = a then of_nat (j + n) else load32 b ?m)"
    "load32 (b + 4) (g_pool s') = (if b = a then load32 (a + j + 4) ?m else load32 (b + 4) ?m)" if "16 dvd b" for b
    using that d(3) unfolding s' by (simp_all add: hdr_store)
  have b: "\<forall>b\<in>set (frees 0 pre). 16 dvd b \<and> b < a"
    using frees_bounds [OF _ d(4), of _ 0] by (fastforce simp: a_def)
  have "seg ?m (g_free_head s) (frees 0 pre) (of_nat a)" using U(14) by (simp add: frees_append seg_append a_def)
  then have "seg (g_pool s') (g_free_head s') (frees 0 pre) (of_nat a)"
    using b by (subst seg_frame [of _ _ ?m]) (auto simp: h, simp add: s')
  moreover have "seg (g_pool s') (load32 (a + 4) (g_pool s')) (frees (a + j + n) post) POOL_NIL"
    using U(15) by (subst seg_frame [of _ _ ?m]) (use U(20) d in \<open>auto simp: h\<close>)
  ultimately have q: "seg (g_pool s') (g_free_head s') (frees 0 (pre @ (False, j + n) # post)) POOL_NIL"
    by (auto simp: seg_append frees_append a_def add.assoc)
  have "hdrs ?m 0 pre" using U(11) by (simp add: hdrs_append)
  then have "hdrs (g_pool s') 0 pre" "hdrs (g_pool s') (a + j + n) post"
    using U(13) by (subst hdrs_frame [of _ _ _ ?m]; use U(2,4,5) d in \<open>auto simp: h a_def\<close>)+
  then show "pool_rep s' (pre @ (False, j + n) # post)"
    using U(1-10) d q h(1) [OF d(3)]
    by (intro pool_repI) (auto simp: hdrs_append no_adjacent_append add.assoc s' simp flip: a_def)
  show "same_live (pre @ (False, j) # rest) ?m (g_pool s')" if "list_all chunk_ok (pre @ (False, j) # rest)"
    unfolding s' using that d(1) by simp (intro same_live_storeI same_live_refl; simp add: a_def)
qed


lemma coalesce_id: "no_adjacent bs \<Longrightarrow> coalesce bs = bs"
  by (induction bs rule: coalesce.induct) auto

lemma coalesce_live: "coalesce ((True, n) # bs) = (True, n) # coalesce bs"
  by (cases bs) auto

lemma coalesce_append:
  "no_adjacent xs \<Longrightarrow> xs = [] \<or> fst (last xs) \<Longrightarrow> coalesce (xs @ ys) = xs @ coalesce ys"
proof (induction xs)
  case (Cons x xs)
  obtain l n where x: "x = (l, n)" by (cases x)
  show ?case
  proof (cases l)
    case True
    then show ?thesis using Cons by (auto simp: x coalesce_live split: if_splits)
  next
    case False
    then obtain k xs' where "xs = (True, k) # xs'" using Cons.prems by (cases xs) (auto simp: x)
    then show ?thesis using Cons False by (auto simp: x coalesce_live split: if_splits)
  qed
qed simp

lemma mark_free_split:
  "list_all chunk_ok pre \<Longrightarrow> mark_free (off + span pre) off (pre @ (l, n) # post) = pre @ (False, n) # post"
proof (induction pre arbitrary: off)
  case (Cons c pre)
  then show ?case by (cases c) (auto simp: add.assoc [symmetric])
qed simp

lemma coalesce_free:
  assumes "no_adjacent (pre @ (True, n) # post)"
  defines "n' \<equiv> n + (if post \<noteq> [] \<and> \<not> fst (hd post) then snd (hd post) else 0)"
    and "post' \<equiv> (if post \<noteq> [] \<and> \<not> fst (hd post) then tl post else post)"
  shows "coalesce (pre @ (False, n) # post) =
    (if pre \<noteq> [] \<and> \<not> fst (last pre) then butlast pre @ (False, snd (last pre) + n') # post' else pre @ (False, n') # post')"
proof -
  have na: "no_adjacent pre" "no_adjacent post" using assms(1) by (simp_all add: no_adjacent_append)
  have c: "coalesce ((False, k + n) # post) = (False, k + n') # post'" for k
  proof (cases post)
    case (Cons d post2)
    obtain l j where d: "d = (l, j)" by (cases d)
    show ?thesis
    proof (cases l)
      case True
      then show ?thesis using na(2) by (simp add: Cons d n'_def post'_def coalesce_live coalesce_id)
    next
      case False
      have "coalesce ((False, k + n) # (False, j) # post2) = (False, k + n + j) # post2"
        using na(2) False by (cases post2) (auto simp: Cons d coalesce_live coalesce_id)
      then show ?thesis using False by (simp add: Cons d n'_def post'_def)
    qed
  qed (simp add: n'_def post'_def)
  show ?thesis
  proof (cases "pre \<noteq> [] \<and> \<not> fst (last pre)")
    case True
    then obtain q j where q: "pre = q @ [(False, j)]" by (cases pre rule: rev_cases) auto
    have "coalesce (q @ (False, j) # (False, n) # post) = q @ coalesce ((False, j) # (False, n) # post)"
      using na(1) by (intro coalesce_append) (auto simp: q no_adjacent_append)
    then show ?thesis using c [of j] by (simp add: q)
  next
    case False
    then show ?thesis using c [of 0] coalesce_append [OF na(1)] by auto
  qed
qed

theorem free_pool_refines:
  assumes r: "pool_rep s bs" and l: "live_at a 0 bs = Some n"
  shows "\<exists>s'. RamFS_FreePool (Some (of_nat a + 16)) s = Some s' \<and>
    pool_rep s' (coalesce (mark_free a 0 bs)) \<and> same_live bs (g_pool s) (g_pool s')"
proof -
  obtain pre post where b: "bs = pre @ (True, n) # post" and a: "a = span pre" using live_at_split [OF l] by auto
  note r' = r [unfolded b]
  note R = pool_repD [OF r'] and A = pool_rep_around [OF r', folded a]
  define s0 where "s0 = s\<lparr>g_pool_used := g_pool_used s - of_nat n\<rparr>"
  obtain c where c: "seg (g_pool s) (g_free_head s) (frees 0 pre) c" "seg (g_pool s) c (frees (a + n) post) POOL_NIL"
    using R(7) by (auto simp: frees_append seg_append a)
  let ?t = "tail_of (frees 0 pre) POOL_NIL"
  have "free_scan (of_nat a) POOL_NIL (g_free_head s) s0 = free_scan (of_nat a) ?t c s0"
    by (rule free_scan_skip) (use c A(6,13,15) in \<open>auto simp: s0_def\<close>)
  also have "\<dots> = Some (?t, c)"
    by (rule free_scan_stop [of _ _ "frees (a + n) post"]) (use c A(6,14,16) in \<open>auto simp: s0_def\<close>)
  finally have e: "RamFS_FreePool (Some (of_nat a + 16)) s = Some (merge_prev (of_nat a) ?t (merge_next (of_nat a) c s0))"
    by (simp add: RamFS_FreePool_def POOL_HDR_def Let_def chunk_size_def A(7,11) flip: s0_def)
  define s1 where "s1 = merge_next (of_nat a) c s0"
  define n' where "n' = n + (if post \<noteq> [] \<and> \<not> fst (hd post) then snd (hd post) else 0)"
  define post' where "post' = (if post \<noteq> [] \<and> \<not> fst (hd post) then tl post else post)"
  have u: "unlinked s1 pre n' post' c \<and> same_live bs (g_pool s) (g_pool s1)"
  proof (cases "post \<noteq> [] \<and> \<not> fst (hd post)")
    case True
    then obtain k p where p: "post = (False, k) # p" by (cases post) auto
    have "c = of_nat (a + n)" using c(2) by (simp add: p)
    then show ?thesis using merge_next_adjacent [of s pre n k p] r b
      by (simp add: p a n'_def post'_def s1_def s0_def)
  next
    case False
    then show ?thesis using merge_next_apart [OF r' _ c [unfolded a]] b
      by (auto simp: a n'_def post'_def s1_def s0_def)
  qed
  define s2 where "s2 = merge_prev (of_nat a) ?t s1"
  have m: "coalesce (mark_free a 0 bs) =
    (if pre \<noteq> [] \<and> \<not> fst (last pre) then butlast pre @ (False, snd (last pre) + n') # post' else pre @ (False, n') # post')"
    using mark_free_split [OF A(1), of 0] coalesce_free [OF R(2)] by (simp add: b a n'_def post'_def)
  have "pool_rep s2 (coalesce (mark_free a 0 bs)) \<and> same_live bs (g_pool s1) (g_pool s2)"
  proof (cases "pre \<noteq> [] \<and> \<not> fst (last pre)")
    case True
    then obtain q j where q: "pre = q @ [(False, j)]" by (cases pre rule: rev_cases) auto
    show ?thesis using merge_prev_adjacent(1) [of s1 q j n' post' c]
        merge_prev_adjacent(2) [of s1 q j n' post' c "(True, n) # post"] u R(1)
      unfolding m by (simp add: q s2_def b a)
  next
    case False
    then show ?thesis using merge_prev_apart(1) [of s1 pre n' post' c]
        merge_prev_apart(2) [of s1 pre n' post' c "(True, n) # post"] u R(1)
      unfolding m by (auto simp: s2_def b a)
  qed
  then show ?thesis using e u same_live_trans by (auto simp: s1_def [symmetric] s2_def [symmetric])
qed

text \<open>Freeing a chunk taken from the free list gives the chunk sequence back.\<close>

lemma alloc_free_restores:
  assumes "no_adjacent bs" "list_all chunk_ok bs" "alloc_chunks need 0 bs = Some (a, bs')"
  shows "coalesce (mark_free a 0 bs') = bs"
proof -
  obtain pre n post where p: "bs = pre @ (False, n) # post" "need \<le> n" "a = 0 + span pre"
    "bs' = pre @ (if 32 \<le> n - need then (True, need) # (False, n - need) # post else (True, n) # post)"
    using alloc_chunks_Some [OF assms(3)] by blast
  have ok: "list_all chunk_ok pre" using assms(2) p(1) by simp
  have na: "pre = [] \<or> fst (last pre)" "no_adjacent pre" "no_adjacent ((False, n) # post)"
    using assms(1) by (simp_all add: p(1) no_adjacent_append)
  show ?thesis
  proof (cases "32 \<le> n - need")
    case True
    then have "mark_free a 0 bs' = pre @ (False, need) # (False, n - need) # post"
      using mark_free_split [OF ok, of 0] by (simp add: p)
    then have "coalesce (mark_free a 0 bs') = pre @ coalesce ((False, n) # post)"
      using na p(2) coalesce_append by simp
    then show ?thesis using na(3) by (simp add: coalesce_id p(1))
  next
    case False
    then have "mark_free a 0 bs' = bs" using mark_free_split [OF ok, of 0] by (simp add: p)
    then show ?thesis using assms(1) by (simp add: coalesce_id)
  qed
qed

section \<open>Live buffers\<close>

lemma live_at_coalesce:
  "list_all chunk_ok bs \<Longrightarrow> live_at b off (coalesce bs) = live_at b off bs"
  by (induction bs arbitrary: off rule: coalesce.induct) (auto simp: live_at_below add.assoc)

lemma live_at_mark_free: "live_at b off (mark_free a off bs) = (if b = a then None else live_at b off bs)"
  by (induction a off bs rule: mark_free.induct) auto

lemma mark_free_ok: "list_all chunk_ok bs \<Longrightarrow> list_all chunk_ok (mark_free a off bs)"
  by (induction a off bs rule: mark_free.induct) auto

lemma live_at_above: "list_all chunk_ok bs \<Longrightarrow> off + span bs \<le> a \<Longrightarrow> live_at a off bs = None"
  by (induction a off bs rule: live_at.induct) auto

lemma live_at_alloc_result:
  assumes ok: "list_all chunk_ok bs" and al: "alloc_result need bs = Some (a, bs')" and nd: "32 \<le> need"
  shows "live_at a 0 bs = None" "\<exists>n\<ge>need. live_at a 0 bs' = Some n"
    "b \<noteq> a \<Longrightarrow> live_at b 0 bs' = live_at b 0 bs"
proof -
  have *: "live_at a 0 bs = None \<and> (\<exists>n\<ge>need. live_at a 0 bs' = Some n) \<and> (\<forall>b. b \<noteq> a \<longrightarrow> live_at b 0 bs' = live_at b 0 bs)"
  proof (cases "alloc_chunks need 0 bs")
    case None
    then have "a = span bs" "bs' = bs @ [(True, need)]" using al by (auto simp: alloc_result_def split: if_splits)
    then show ?thesis using live_at_above [OF ok, of 0] by (auto simp: live_at_append [OF ok])
  next
    case (Some r)
    then have "alloc_chunks need 0 bs = Some (a, bs')" using al by (simp add: alloc_result_def)
    from alloc_chunks_Some [OF this] obtain pre n post where p: "bs = pre @ (False, n) # post" "need \<le> n" "a = 0 + span pre"
      "bs' = pre @ (if 32 \<le> n - need then (True, need) # (False, n - need) # post else (True, n) # post)" by blast
    have ok': "list_all chunk_ok pre" using ok p(1) by simp
    show ?thesis using p nd ok' live_at_below [of _ "span pre + n" post]
      by (auto simp: live_at_append [OF ok'])
  qed
  then show "live_at a 0 bs = None" "\<exists>n\<ge>need. live_at a 0 bs' = Some n"
    "b \<noteq> a \<Longrightarrow> live_at b 0 bs' = live_at b 0 bs" by blast+
qed

text \<open>The live buffers of a pool, by the data offset handed out and with the usable size.\<close>

definition buffers :: "chunks \<Rightarrow> u32 \<Rightarrow> nat option" where
  "buffers bs p = (if 16 \<le> p then map_option (\<lambda>n. n - 16) (live_at (unat p - 16) 0 bs) else None)"

definition pool_live :: "pool \<Rightarrow> (u32 \<Rightarrow> nat option) \<Rightarrow> bool" where
  "pool_live s L \<longleftrightarrow> (\<exists>bs. pool_rep s bs \<and> L = buffers bs)"

definition pool_byte :: "pool \<Rightarrow> nat \<Rightarrow> u8" where "pool_byte s i = g_pool s i"

definition pool_put :: "nat \<Rightarrow> u8 \<Rightarrow> pool \<Rightarrow> pool" where
  "pool_put i v s = s\<lparr>g_pool := (g_pool s)(i := v)\<rparr>"

text \<open>The copy loop \<^verbatim>\<open>for (i = 0; i < len; i++) p[i] = data[i]\<close>.\<close>

fun copy_in :: "nat \<Rightarrow> u8 list \<Rightarrow> pool \<Rightarrow> pool" where
  "copy_in a [] s = s"
| "copy_in a (v # vs) s = copy_in (Suc a) vs (pool_put a v s)"

lemma unat_data: "a + 32 \<le> 2 ^ 23 \<Longrightarrow> unat (of_nat a + 16 :: u32) = a + 16"
  using unat_off [of "a + 16"] by simp

lemma buffers_Some:
  assumes "pool_rep s bs" "buffers bs p = Some k"
  obtains a n where "live_at a 0 bs = Some n" "k + 16 = n" "unat p = a + 16" "p = of_nat a + 16" "a + n \<le> 2 ^ 23"
proof -
  have p: "16 \<le> p" and l: "\<exists>n. live_at (unat p - 16) 0 bs = Some n \<and> k = n - 16"
    using assms(2) by (auto simp: buffers_def split: if_splits)
  then obtain n where n: "live_at (unat p - 16) 0 bs = Some n" "k = n - 16" by blast
  have u: "16 \<le> unat p" using p by (simp add: word_le_nat_alt)
  obtain xs ys where x: "bs = xs @ (True, n) # ys" "unat p - 16 = span xs" using live_at_split [OF n(1)] by auto
  have "32 \<le> n" using pool_repD(1) [OF assms(1)] x(1) by simp
  moreover have "span xs + n \<le> 2 ^ 23" using pool_repD(3) [OF assms(1)] x(1) by simp
  moreover have "p = of_nat (unat p - 16) + 16" using u by (simp add: of_nat_diff)
  ultimately show ?thesis using that [of "unat p - 16" n] n u x(2) by simp
qed

lemma buffers_data: "a + 32 \<le> 2 ^ 23 \<Longrightarrow> buffers bs (of_nat a + 16) = map_option (\<lambda>n. n - 16) (live_at a 0 bs)"
  using unat_data [of a] by (simp add: buffers_def word_le_nat_alt)

lemma hdrs_cong:
  "(\<And>xs l k ys. bs = xs @ (l, k) # ys \<Longrightarrow> load32 (off + span xs) m' = load32 (off + span xs) m) \<Longrightarrow>
   hdrs m' off bs = hdrs m off bs"
proof (induction m off bs rule: hdrs.induct)
  case (2 m off l n bs)
  have "load32 off m' = load32 off m" using 2(2) [of "[]"] by simp
  moreover have "hdrs m' (off + n) bs = hdrs m (off + n) bs"
  proof (rule 2(1))
    show "load32 (off + n + span xs) m' = load32 (off + n + span xs) m" if "bs = xs @ (l', k) # ys" for xs l' k ys
      using 2(2) [of "(l, n) # xs" l' k ys] that by (simp add: add.assoc)
  qed
  ultimately show ?case by simp
qed simp

lemma pool_put_rep:
  assumes r: "pool_rep s bs" and l: "live_at a 0 bs = Some n" "a + 16 \<le> x" "x < a + n"
  shows "pool_rep (pool_put x v s) bs"
proof -
  note R = pool_repD [OF r]
  obtain us vs where u: "bs = us @ (True, n) # vs" "a = span us" using live_at_split [OF l(1)] by auto
  have far: "x < span xs \<or> span xs + 8 \<le> x" if "bs = xs @ (h, k) # ys" for xs h k ys
  proof (cases "span us = span xs")
    case False
    have "32 \<le> k" using R(1) that by simp
    with split_apart [OF u(1) [unfolded that, symmetric] False] l u(2) show ?thesis by auto
  qed (use l u(2) in simp)
  have ld: "load32 (span xs) ((g_pool s)(x := v)) = load32 (span xs) (g_pool s)"
    "load32 (span xs + 4) ((g_pool s)(x := v)) = load32 (span xs + 4) (g_pool s)" if "bs = xs @ (h, k) # ys" for xs h k ys
    using far [OF that] by (auto intro!: load32_cong)
  have "hdrs ((g_pool s)(x := v)) 0 bs" using R(6) by (subst hdrs_cong [of _ _ _ "g_pool s"]) (auto simp: ld)
  moreover have "load32 (b + 4) ((g_pool s)(x := v)) = load32 (b + 4) (g_pool s)" if "b \<in> set (frees 0 bs)" for b
    using frees_split [OF that] ld(2) by fastforce
  then have "seg ((g_pool s)(x := v)) (g_free_head s) (frees 0 bs) POOL_NIL"
    using R(7) by (subst seg_frame [of _ _ "g_pool s"]) auto
  ultimately show ?thesis using R by (intro pool_repI) (simp_all add: pool_put_def)
qed

lemma copy_in_rep:
  assumes "pool_rep s bs" "live_at a 0 bs = Some n" "a + 16 \<le> x" "x + length vs \<le> a + n"
  shows "pool_rep (copy_in x vs s) bs"
  using assms
proof (induction x vs s rule: copy_in.induct)
  case (2 x v vs s)
  have "pool_rep (pool_put x v s) bs" using 2(2-) by (intro pool_put_rep) auto
  from 2(1) [OF this] 2(3-) show ?case by simp
qed simp

lemma byte_copy_in:
  "pool_byte (copy_in a vs s) j = (if a \<le> j \<and> j < a + length vs then vs ! (j - a) else pool_byte s j)"
  by (induction a vs s rule: copy_in.induct) (auto simp: pool_byte_def pool_put_def nth_Cons' Suc_diff_le)

section \<open>The interface\<close>

text \<open>What the file system relies on: buffers handed out are disjoint and keep their bytes while
  others are allocated, freed or written.  \<open>rep s L\<close> says that the live buffers of \<open>s\<close> are \<open>L\<close>.\<close>

locale buffer_pool =
  fixes rep :: "'s \<Rightarrow> (u32 \<Rightarrow> nat option) \<Rightarrow> bool"
    and byte :: "'s \<Rightarrow> nat \<Rightarrow> u8"
    and copy :: "nat \<Rightarrow> u8 list \<Rightarrow> 's \<Rightarrow> 's"
    and alloc :: "u32 \<Rightarrow> 's \<Rightarrow> (u32 option \<times> 's) option"
    and release :: "u32 option \<Rightarrow> 's \<Rightarrow> 's option"
  assumes alloc_law: "rep s L \<Longrightarrow> bytes \<noteq> 0 \<Longrightarrow> unat bytes \<le> 2 ^ 32 - 2 ^ 24 \<Longrightarrow>
      \<exists>r s'. alloc bytes s = Some (r, s') \<and>
        (case r of None \<Rightarrow> s' = s | Some p \<Rightarrow> L p = None \<and> (\<exists>n\<ge>unat bytes. rep s' (L(p \<mapsto> n)))) \<and>
        (\<forall>q n i. L q = Some n \<longrightarrow> i < n \<longrightarrow> byte s' (unat q + i) = byte s (unat q + i))"
    and release_null: "release None s = Some s"
    and release_law: "rep s L \<Longrightarrow> L p = Some n \<Longrightarrow>
      \<exists>s'. release (Some p) s = Some s' \<and> rep s' (L(p := None)) \<and>
        (\<forall>q n i. L q = Some n \<longrightarrow> i < n \<longrightarrow> byte s' (unat q + i) = byte s (unat q + i))"
    and apart: "rep s L \<Longrightarrow> L p = Some n \<Longrightarrow> L q = Some k \<Longrightarrow> p \<noteq> q \<Longrightarrow>
      unat p + n \<le> unat q \<or> unat q + k \<le> unat p"
    and copy_rep: "rep s L \<Longrightarrow> L p = Some n \<Longrightarrow> off + length vs \<le> n \<Longrightarrow> rep (copy (unat p + off) vs s) L"
    and byte_copy: "byte (copy a vs s) j = (if a \<le> j \<and> j < a + length vs then vs ! (j - a) else byte s j)"
begin

definition bytes_at :: "'s \<Rightarrow> u32 \<Rightarrow> nat \<Rightarrow> u8 list" where
  "bytes_at s p n = map (\<lambda>i. byte s (unat p + i)) [0..<n]"

lemma copy_same: "bytes_at (copy (unat p) vs s) p (length vs) = vs"
  by (auto simp: bytes_at_def byte_copy intro: nth_equalityI)

lemma copy_other:
  assumes "rep s L" "L p = Some n" "L q = Some k" "p \<noteq> q" "off + length vs \<le> n" "i < k"
  shows "byte (copy (unat p + off) vs s) (unat q + i) = byte s (unat q + i)"
  using apart [OF assms(1-4)] assms(5,6) by (auto simp: byte_copy)

lemma copy_other_bytes:
  assumes "rep s L" "L p = Some n" "L q = Some k" "p \<noteq> q" "off + length vs \<le> n" "j \<le> k"
  shows "bytes_at (copy (unat p + off) vs s) q j = bytes_at s q j"
  using copy_other [OF assms(1-5)] assms(6) by (auto simp: bytes_at_def)

end


lemma buffers_upd:
  assumes "pool_rep s bs" "a + 32 \<le> 2 ^ 23"
    and "\<And>b. b \<noteq> a \<Longrightarrow> live_at b 0 bs' = live_at b 0 bs"
  shows "buffers bs' = (buffers bs)(of_nat a + 16 := map_option (\<lambda>n. n - 16) (live_at a 0 bs'))"
proof
  fix p
  show "buffers bs' p = ((buffers bs)(of_nat a + 16 := map_option (\<lambda>n. n - 16) (live_at a 0 bs'))) p"
  proof (cases "p = of_nat a + 16")
    case True
    then show ?thesis using buffers_data [OF assms(2)] by simp
  next
    case False
    have "unat p - 16 \<noteq> a" if "16 \<le> p"
    proof
      assume "unat p - 16 = a"
      then have "unat p = a + 16" using that by (simp add: word_le_nat_alt)
      then have "of_nat (unat p) = (of_nat (a + 16) :: u32)" by simp
      with False show False by simp
    qed
    then show ?thesis using False assms(3) by (simp add: buffers_def)
  qed
qed

lemma same_live_buffers:
  assumes "pool_rep s bs" "same_live bs m m'" "buffers bs q = Some k" "i < k"
  shows "m' (unat q + i) = m (unat q + i)"
proof -
  obtain a n where "live_at a 0 bs = Some n" "k + 16 = n" "unat q = a + 16" by (rule buffers_Some [OF assms(1,3)])
  then show ?thesis using assms(2,4) by (auto simp: same_live_def)
qed

lemma alloc_need_bounds:
  assumes "bytes \<noteq> 0" "unat bytes \<le> 2 ^ 32 - 2 ^ 24"
  shows "32 \<le> unat (alloc_need bytes)" "16 dvd unat (alloc_need bytes)" "unat bytes + 16 \<le> unat (alloc_need bytes)"
  using alloc_need_unat [OF assms] assms(1) by (auto simp: unat_eq_zero [symmetric])

lemma alloc_result_fits:
  assumes "pool_rep s bs" "alloc_result need bs = Some (a, bs')" "32 \<le> need"
  shows "a + need \<le> 2 ^ 23"
proof (cases "alloc_chunks need 0 bs")
  case (Some r)
  then have "alloc_chunks need 0 bs = Some (a, bs')" using assms(2) by (simp add: alloc_result_def)
  from alloc_chunks_Some [OF this] obtain pre n post where
    "bs = pre @ (False, n) # post" "need \<le> n" "a = 0 + span pre" by blast
  then show ?thesis using pool_repD(3) [OF assms(1)] by simp
qed (use assms(2) in \<open>auto simp: alloc_result_def POOL_SZ_def split: if_splits\<close>)

lemma pool_alloc_law:
  assumes L: "pool_live s L" and b: "bytes \<noteq> 0" "unat bytes \<le> 2 ^ 32 - 2 ^ 24"
  shows "\<exists>r s'. RamFS_AllocPool bytes s = Some (r, s') \<and>
    (case r of None \<Rightarrow> s' = s | Some p \<Rightarrow> L p = None \<and> (\<exists>n\<ge>unat bytes. pool_live s' (L(p \<mapsto> n)))) \<and>
    (\<forall>q n i. L q = Some n \<longrightarrow> i < n \<longrightarrow> pool_byte s' (unat q + i) = pool_byte s (unat q + i))"
proof -
  obtain bs where r: "pool_rep s bs" and L: "L = buffers bs" using L by (auto simp: pool_live_def)
  note nb = alloc_need_bounds [OF b]
  obtain s' where s': "RamFS_AllocPool bytes s =
      Some (map_option (\<lambda>(a, _). of_nat a + 16) (alloc_result (unat (alloc_need bytes)) bs), s')"
    "case alloc_result (unat (alloc_need bytes)) bs of None \<Rightarrow> s' = s | Some (_, bs') \<Rightarrow> pool_rep s' bs'"
    "same_live bs (g_pool s) (g_pool s')"
    using alloc_pool_refines [OF r b] by blast
  have k: "\<forall>q n i. L q = Some n \<longrightarrow> i < n \<longrightarrow> pool_byte s' (unat q + i) = pool_byte s (unat q + i)"
    using same_live_buffers [OF r s'(3)] by (simp add: L pool_byte_def)
  show ?thesis
  proof (cases "alloc_result (unat (alloc_need bytes)) bs")
    case (Some q)
    obtain a bs' where q: "q = (a, bs')" by (cases q)
    note al = Some [unfolded q]
    note A = live_at_alloc_result [OF pool_repD(1) [OF r] al nb(1)]
    obtain n where n: "unat (alloc_need bytes) \<le> n" "live_at a 0 bs' = Some n" using A(2) by blast
    have a: "a + 32 \<le> 2 ^ 23" using alloc_result_fits [OF r al nb(1)] nb(1) by simp
    have "buffers bs' = L(of_nat a + 16 \<mapsto> n - 16)"
      using buffers_upd [OF r a A(3)] n(2) by (simp add: L)
    moreover have "L (of_nat a + 16) = None" using buffers_data [OF a] A(1) by (simp add: L)
    ultimately have "L (of_nat a + 16) = None \<and> (\<exists>n\<ge>unat bytes. pool_live s' (L(of_nat a + 16 \<mapsto> n)))"
      using s'(2) al n(1) nb(3) unfolding pool_live_def by (auto intro!: exI [of _ "n - 16"])
    then show ?thesis using s'(1) k al by auto
  qed (use s' k in auto)
qed

lemma pool_release_law:
  assumes L: "pool_live s L" and p: "L p = Some n"
  shows "\<exists>s'. RamFS_FreePool (Some p) s = Some s' \<and> pool_live s' (L(p := None)) \<and>
    (\<forall>q n i. L q = Some n \<longrightarrow> i < n \<longrightarrow> pool_byte s' (unat q + i) = pool_byte s (unat q + i))"
proof -
  obtain bs where r: "pool_rep s bs" and L: "L = buffers bs" using L by (auto simp: pool_live_def)
  obtain a k where a: "live_at a 0 bs = Some k" "n + 16 = k" "p = of_nat a + 16" "a + k \<le> 2 ^ 23"
    using buffers_Some [OF r p [unfolded L]] by blast
  obtain xs ys where x: "bs = xs @ (True, k) # ys" using live_at_split [OF a(1)] by auto
  have "32 \<le> k" using pool_repD(1) [OF r] x by simp
  then have a32: "a + 32 \<le> 2 ^ 23" using a(4) by simp
  obtain s' where s': "RamFS_FreePool (Some p) s = Some s'" "pool_rep s' (coalesce (mark_free a 0 bs))"
    "same_live bs (g_pool s) (g_pool s')"
    using free_pool_refines [OF r a(1)] a(3) by blast
  have ok: "list_all chunk_ok (mark_free a 0 bs)" using pool_repD(1) [OF r] by (rule mark_free_ok)
  have v: "live_at b 0 (coalesce (mark_free a 0 bs)) = (if b = a then None else live_at b 0 bs)" for b
    by (simp add: live_at_coalesce [OF ok] live_at_mark_free)
  then have "buffers (coalesce (mark_free a 0 bs)) = L(p := None)"
    using buffers_upd [OF r a32, of "coalesce (mark_free a 0 bs)"] by (simp add: L a(3))
  then have "pool_live s' (L(p := None))" using s'(2) unfolding pool_live_def by metis
  then show ?thesis using s' same_live_buffers [OF r s'(3)] by (simp add: L pool_byte_def)
qed

lemma pool_apart:
  assumes L: "pool_live s L" and p: "L p = Some n" "L q = Some k" "p \<noteq> q"
  shows "unat p + n \<le> unat q \<or> unat q + k \<le> unat p"
proof -
  obtain bs where r: "pool_rep s bs" and L: "L = buffers bs" using L by (auto simp: pool_live_def)
  obtain a i where a: "live_at a 0 bs = Some i" "n + 16 = i" "unat p = a + 16" "p = of_nat a + 16"
    using buffers_Some [OF r p(1) [unfolded L]] by blast
  obtain b j where b: "live_at b 0 bs = Some j" "k + 16 = j" "unat q = b + 16" "q = of_nat b + 16"
    using buffers_Some [OF r p(2) [unfolded L]] by blast
  obtain xs ys where x: "bs = xs @ (True, i) # ys" "a = span xs" using live_at_split [OF a(1)] by auto
  obtain us vs where u: "bs = us @ (True, j) # vs" "b = span us" using live_at_split [OF b(1)] by auto
  have "a \<noteq> b" using p(3) a(4) b(4) by auto
  with split_apart [OF x(1) [unfolded u(1), symmetric]] x(2) u(2) a b show ?thesis by auto
qed

lemma pool_copy_rep:
  assumes "pool_live s L" "L p = Some n" "off + length vs \<le> n"
  shows "pool_live (copy_in (unat p + off) vs s) L"
proof -
  obtain bs where r: "pool_rep s bs" and L: "L = buffers bs" using assms(1) by (auto simp: pool_live_def)
  obtain a i where a: "live_at a 0 bs = Some i" "n + 16 = i" "unat p = a + 16"
    using buffers_Some [OF r assms(2) [unfolded L]] by blast
  have "pool_rep (copy_in (unat p + off) vs s) bs"
    using a assms(3) by (intro copy_in_rep [OF r a(1)]) auto
  then show ?thesis using L by (auto simp: pool_live_def)
qed

interpretation fsp: buffer_pool pool_live pool_byte copy_in RamFS_AllocPool RamFS_FreePool
  by unfold_locales
    (fact pool_alloc_law, simp add: RamFS_FreePool_def, fact pool_release_law, fact pool_apart,
     fact pool_copy_rep, fact byte_copy_in)

section \<open>Sequences of calls\<close>

datatype pool_op = AllocOp u32 | FreeOp u32

text \<open>The results of a sequence of calls, and the chunk sequence it should leave.  The reference
  run is undefined (\<open>None\<close>) on a free of a pointer that is not live, and on sizes above
  \<open>2\<^sup>32 - 2\<^sup>24\<close>, where the size computation of the code can wrap (last section) and no
  sequence of disjoint chunks describes its result.\<close>

fun run_pool :: "pool_op list \<Rightarrow> pool \<Rightarrow> (u32 option list \<times> pool) option" where
  "run_pool [] s = Some ([], s)"
| "run_pool (AllocOp b # ops) s =
     (case RamFS_AllocPool b s of None \<Rightarrow> None
      | Some (r, s) \<Rightarrow> map_option (\<lambda>(rs, s). (r # rs, s)) (run_pool ops s))"
| "run_pool (FreeOp p # ops) s =
     (case RamFS_FreePool (Some p) s of None \<Rightarrow> None
      | Some s \<Rightarrow> map_option (\<lambda>(rs, s). (None # rs, s)) (run_pool ops s))"

fun run_chunks :: "pool_op list \<Rightarrow> chunks \<Rightarrow> (u32 option list \<times> chunks) option" where
  "run_chunks [] bs = Some ([], bs)"
| "run_chunks (AllocOp b # ops) bs =
     (if b = 0 then map_option (\<lambda>(rs, bs). (None # rs, bs)) (run_chunks ops bs)
      else if unat b > 2 ^ 32 - 2 ^ 24 then None
      else case alloc_result (unat (alloc_need b)) bs of
             None \<Rightarrow> map_option (\<lambda>(rs, bs). (None # rs, bs)) (run_chunks ops bs)
           | Some (a, bs) \<Rightarrow> map_option (\<lambda>(rs, bs). (Some (of_nat a + 16) # rs, bs)) (run_chunks ops bs))"
| "run_chunks (FreeOp p # ops) bs =
     (if buffers bs p = None then None
      else map_option (\<lambda>(rs, bs). (None # rs, bs)) (run_chunks ops (coalesce (mark_free (unat p - 16) 0 bs))))"

lemma run_refines:
  assumes "pool_rep s bs" "run_chunks ops bs = Some (rs, bs')"
  shows "\<exists>s'. run_pool ops s = Some (rs, s') \<and> pool_rep s' bs'"
  using assms
proof (induction ops arbitrary: s bs rs)
  case (Cons op ops)
  show ?case
  proof (cases op)
    case (AllocOp b)
    show ?thesis
    proof (cases "b = 0")
      case True
      then show ?thesis using Cons.IH [OF Cons.prems(1)] Cons.prems(2)
        by (auto simp: AllocOp RamFS_AllocPool_def)
    next
      case False
      then have b: "unat b \<le> 2 ^ 32 - 2 ^ 24" using Cons.prems(2) by (auto simp: AllocOp split: if_splits)
      obtain s1 where s1: "RamFS_AllocPool b s =
          Some (map_option (\<lambda>(a, _). of_nat a + 16) (alloc_result (unat (alloc_need b)) bs), s1)"
        "case alloc_result (unat (alloc_need b)) bs of None \<Rightarrow> s1 = s | Some (_, bs') \<Rightarrow> pool_rep s1 bs'"
        using alloc_pool_refines [OF Cons.prems(1) False b] by blast
      show ?thesis
        using False b s1 Cons.prems Cons.IH [of s1]
        by (cases "alloc_result (unat (alloc_need b)) bs") (fastforce simp: AllocOp)+
    qed
  next
    case (FreeOp p)
    then obtain k where k: "buffers bs p = Some k" using Cons.prems(2) by (auto split: if_splits)
    obtain a n where a: "live_at a 0 bs = Some n" "unat p = a + 16" "p = of_nat a + 16"
      by (rule buffers_Some [OF Cons.prems(1) k])
    obtain s1 where s1: "RamFS_FreePool (Some p) s = Some s1" "pool_rep s1 (coalesce (mark_free a 0 bs))"
      using free_pool_refines [OF Cons.prems(1) a(1)] a(3) by blast
    show ?thesis using s1(1) Cons.IH [OF s1(2)] Cons.prems(2) k by (fastforce simp: FreeOp a(2))
  qed
qed auto

lemma pool_rep_Init: "pool_rep (RamFS_Init_pool s) []"
  by (rule pool_repI) (simp_all add: RamFS_Init_pool_def)

section \<open>Properties\<close>

text \<open>(C9) The RAM-disk pool implements its reference allocator: from \<open>RamFS_Init\<close>, any sequence
  of \<open>RamFS_AllocPool\<close> and \<open>RamFS_FreePool\<close> calls terminates, returns exactly the addresses of
  first fit with splitting over a sequence of chunks that coalesces on free, and leaves the
  in-band headers and the free list describing that sequence.\<close>

theorem pool_refines_chunks:
  assumes "run_chunks ops [] = Some (rs, bs)"
  shows "\<exists>s'. run_pool ops (RamFS_Init_pool s) = Some (rs, s') \<and> pool_rep s' bs"
  by (rule run_refines [OF pool_rep_Init assms])

lemmas pool_eval = alloc_result_def alloc_need_def buffers_def POOL_HDR_def POOL_ALIGN_def POOL_SZ_def

definition pool_demo :: "pool_op list" where
  "pool_demo = [AllocOp 100, AllocOp 40, FreeOp 16, AllocOp 60]"

theorem pool_refines_chunks_witness:
  "run_chunks pool_demo [] = Some ([Some 16, Some 144, None, Some 16], [(True, 80), (False, 48), (True, 64)]) \<and>
   (\<forall>s. \<exists>s'. run_pool pool_demo (RamFS_Init_pool s) = Some ([Some 16, Some 144, None, Some 16], s') \<and>
      pool_rep s' [(True, 80), (False, 48), (True, 64)])"
proof -
  have "run_chunks pool_demo [] = Some ([Some 16, Some 144, None, Some 16], [(True, 80), (False, 48), (True, 64)])"
    by (simp add: pool_demo_def pool_eval)
  then show ?thesis using pool_refines_chunks by blast
qed

text \<open>(C30) Allocating from the free list and freeing again is the identity on the pool: the chunk
  sequence, hence every later allocation, is what it was before, and no live byte changed.\<close>

theorem pool_alloc_free_roundtrip:
  assumes "pool_rep s bs" "bytes \<noteq> 0" "unat bytes \<le> 2 ^ 32 - 2 ^ 24"
    and "alloc_chunks (unat (alloc_need bytes)) 0 bs \<noteq> None"
  shows "\<exists>p s1 s2. RamFS_AllocPool bytes s = Some (Some p, s1) \<and> RamFS_FreePool (Some p) s1 = Some s2 \<and>
     pool_rep s2 bs \<and> same_live bs (g_pool s) (g_pool s2)"
proof -
  obtain a bs' where al: "alloc_chunks (unat (alloc_need bytes)) 0 bs = Some (a, bs')" using assms(4) by auto
  then have ar: "alloc_result (unat (alloc_need bytes)) bs = Some (a, bs')" by (simp add: alloc_result_def)
  obtain s1 where s1: "RamFS_AllocPool bytes s = Some (Some (of_nat a + 16), s1)" "pool_rep s1 bs'"
    "same_live bs (g_pool s) (g_pool s1)"
    using alloc_pool_refines [OF assms(1-3)] by (auto simp: ar)
  note R = pool_repD [OF assms(1)]
  note A = live_at_alloc_result [OF R(1) ar alloc_need_bounds(1) [OF assms(2,3)]]
  obtain n where n: "live_at a 0 bs' = Some n" using A(2) by blast
  obtain s2 where s2: "RamFS_FreePool (Some (of_nat a + 16)) s1 = Some s2"
    "pool_rep s2 (coalesce (mark_free a 0 bs'))" "same_live bs' (g_pool s1) (g_pool s2)"
    using free_pool_refines [OF s1(2) n] by blast
  have "same_live bs (g_pool s1) (g_pool s2)"
    unfolding same_live_def
  proof (intro allI impI)
    fix b k i assume b: "live_at b 0 bs = Some k" "b + 16 \<le> i" "i < b + k"
    then have "live_at b 0 bs' = Some k" using A(1,3) by (cases "b = a") auto
    then show "g_pool s2 i = g_pool s1 i" using s2(3) b(2,3) by (auto simp: same_live_def)
  qed
  then show ?thesis using s1 s2 alloc_free_restores [OF R(2,1) al] by (auto intro: same_live_trans)
qed

lemma pool_demo_state: "\<exists>s. pool_rep s [(True, 128), (False, 64), (True, 80)]"
proof -
  have "run_chunks [AllocOp 100, AllocOp 40, AllocOp 60, FreeOp 144] [] =
      Some ([Some 16, Some 144, Some 208, None], [(True, 128), (False, 64), (True, 80)])"
    by (simp add: pool_eval)
  from run_refines [OF pool_rep_Init this] show ?thesis by blast
qed

theorem pool_alloc_free_roundtrip_witness:
  "\<exists>s p s1 s2. pool_rep s [(True, 128), (False, 64), (True, 80)] \<and> RamFS_AllocPool 10 s = Some (Some p, s1) \<and>
     RamFS_FreePool (Some p) s1 = Some s2 \<and> pool_rep s2 [(True, 128), (False, 64), (True, 80)]"
proof -
  obtain s where s: "pool_rep s [(True, 128), (False, 64), (True, 80)]" using pool_demo_state by blast
  have "alloc_chunks (unat (alloc_need 10)) 0 [(True, 128), (False, 64), (True, 80)] \<noteq> None"
    by (simp add: pool_eval)
  with pool_alloc_free_roundtrip [OF s, of 10] s show ?thesis by auto
qed

section \<open>Sizes that wrap\<close>

lemma alloc_chunks_large: "span bs < need \<Longrightarrow> alloc_chunks need off bs = None"
  by (induction need off bs rule: alloc_chunks.induct) auto

text \<open>Storing a header at the old end of the chunks leaves the search for a free chunk as it was.\<close>

lemma alloc_scan_above:
  assumes r: "pool_rep s bs" and none: "alloc_chunks (unat need) 0 bs = None"
    and s'_def: "s' = s\<lparr>g_pool_top := t, g_pool := store32 (span bs) v (g_pool s), g_pool_used := u\<rparr>"
  shows "alloc_scan need POOL_NIL (g_free_head s') s' = Some (None, s')"
proof -
  note R = pool_repD [OF r]
  have d: "16 dvd span bs" by (rule span_dvd [OF R(1)])
  have h: "hdrs (g_pool s') 0 bs" using R(6)
    by (subst hdrs_frame [of _ _ _ "g_pool s"]) (use R(1) d in \<open>auto simp: s'_def hdr_store\<close>)
  have q: "seg (g_pool s') (g_free_head s') (frees 0 bs) POOL_NIL"
    using R(7) frees_bounds [OF _ R(1), of _ 0] d unfolding s'_def
    by simp (subst seg_frame [of _ _ "g_pool s"]; fastforce simp: hdr_store)
  have "alloc_scan need POOL_NIL (g_free_head s') s' = alloc_scan need (tail_of (frees 0 bs) POOL_NIL) POOL_NIL s'"
    using alloc_chunks_None [OF none] R(1,3) by (intro alloc_scan_skip [OF q h]) auto
  then show ?thesis by (subst (asm) (2) alloc_scan.simps) simp
qed

text \<open>(C37) The sum of the high-water mark and the chunk size in \<open>RamFS_AllocPool\<close> is not checked for
  overflow.  Take any pool and any request \<open>bytes\<close> whose chunk size makes that sum reach \<open>2 ^ 32\<close>,
  which is a request far beyond the size of the pool.  The request succeeds, returns the end
  of the chunks as a buffer, and moves the high-water mark down below that end.  From then on every
  request that no free chunk can serve and that fits above the lowered mark is placed there, on top
  of the chunks that are already in use.\<close>

theorem pool_size_wraps:
  assumes "pool_rep s bs" "2 ^ 32 \<le> span bs + unat (alloc_need bytes)"
  shows "\<exists>s'. RamFS_AllocPool bytes s = Some (Some (of_nat (span bs) + POOL_HDR), s') \<and>
    unat (g_pool_top s') + 2 ^ 32 = span bs + unat (alloc_need bytes) \<and> unat (g_pool_top s') < span bs \<and>
    (\<forall>b. b \<noteq> 0 \<and> alloc_chunks (unat (alloc_need b)) 0 bs = None \<and>
        unat (g_pool_top s') + unat (alloc_need b) \<le> unat POOL_SZ \<longrightarrow>
      map_option fst (RamFS_AllocPool b s') = Some (Some (g_pool_top s' + POOL_HDR)))"
proof -
  note R = pool_repD [OF assms(1)]
  define need where "need = alloc_need bytes"
  define s' where "s' = s\<lparr>g_pool_top := g_pool_top s + need, g_pool := store32 (span bs) need (g_pool s),
    g_pool_used := g_pool_used s + need\<rparr>"
  have nl: "unat need < 2 ^ 32" using unsigned_less [of need, where 'a = nat] by simp
  have sp: "unat (g_pool_top s) = span bs" using R(3,4) unat_off by simp
  have nz: "bytes \<noteq> 0" using assms(2) R(3) by (auto simp: alloc_need_def POOL_HDR_def POOL_ALIGN_def)
  have top: "unat (g_pool_top s + need) = span bs + unat need - 2 ^ 32"
    using assms(2) nl R(3) by (simp add: unat_word_ariths sp need_def mod_if)
  have none: "alloc_chunks (unat need) 0 bs = None"
    using assms(2) R(3) by (intro alloc_chunks_large) (simp add: need_def)
  have room: "\<not> POOL_SZ < g_pool_top s + need" using top nl R(3) by (simp add: word_less_nat_alt POOL_SZ_def)
  have alloc: "RamFS_AllocPool bytes s = Some (Some (of_nat (span bs) + POOL_HDR), s')"
    using nz room alloc_scan_None [OF assms(1) none]
    by (simp add: RamFS_AllocPool_def Let_def s'_def set_size_def unat_off [OF R(3)] R(4) flip: need_def)
  have next1: "map_option fst (RamFS_AllocPool b s') = Some (Some (g_pool_top s' + POOL_HDR))"
    if b: "b \<noteq> 0" "alloc_chunks (unat (alloc_need b)) 0 bs = None" "unat (g_pool_top s') + unat (alloc_need b) \<le> unat POOL_SZ" for b
  proof -
    have "unat (g_pool_top s' + alloc_need b) = unat (g_pool_top s') + unat (alloc_need b)"
      using b(3) by (simp add: unat_word_ariths POOL_SZ_def)
    then have "\<not> POOL_SZ < g_pool_top s' + alloc_need b" using b(3) by (simp add: word_less_nat_alt)
    then show ?thesis using b(1) alloc_scan_above [OF assms(1) b(2) s'_def]
      by (simp add: RamFS_AllocPool_def Let_def)
  qed
  show ?thesis
    by (rule exI [of _ s']) (use alloc next1 top nl assms(2) in \<open>simp add: s'_def need_def\<close>)
qed

theorem pool_size_wraps_witness:
  "\<exists>s s'. pool_rep s [(True, 128), (False, 64), (True, 80)] \<and>
     RamFS_AllocPool 0xFFFFFF00 s = Some (Some 288, s') \<and> g_pool_top s' = 32 \<and>
     map_option fst (RamFS_AllocPool 64 s') = Some (Some 48)"
proof -
  let ?bs = "[(True, 128), (False, 64), (True, 80)]"
  obtain s where s: "pool_rep s ?bs" using pool_demo_state by blast
  have e: "alloc_need 0xFFFFFF00 = 0xFFFFFF10" "alloc_need 64 = 80" by (simp_all add: alloc_need_def POOL_HDR_def POOL_ALIGN_def)
  have f: "alloc_chunks 80 0 ?bs = None" by simp
  from pool_size_wraps [OF s, of "0xFFFFFF00"] obtain s' where s': "RamFS_AllocPool 0xFFFFFF00 s = Some (Some 288, s')"
    "unat (g_pool_top s') = 32"
    "\<forall>b. b \<noteq> 0 \<and> alloc_chunks (unat (alloc_need b)) 0 ?bs = None \<and> unat (g_pool_top s') + unat (alloc_need b) \<le> unat POOL_SZ \<longrightarrow>
      map_option fst (RamFS_AllocPool b s') = Some (Some (g_pool_top s' + POOL_HDR))"
    by (auto simp: e POOL_HDR_def)
  have t: "g_pool_top s' = 32" using s'(2) by (simp add: word_unat_eq_iff)
  show ?thesis using s s' t spec [OF s'(3), of 64] f by (auto simp: e POOL_HDR_def POOL_SZ_def)
qed

end
