(* ===== verification/RamFS_Defs.thy ===== *)
theory RamFS_Defs
  imports RamFS_Buffers "HOL-Library.Monad_Syntax"
begin

text \<open>
  The node tree of \<^verbatim>\<open>kernel/dos/ramfs.c\<close> and the RAM-backed file operations of
  \<^verbatim>\<open>kernel/dos/vfs.c\<close> (\<open>VFS_Read\<close>, \<open>VFS_Write\<close>, \<open>VFS_Seek\<close>, \<open>VFS_Size\<close>).  A \<open>RamFsNode *\<close> is an
  index of \<open>g_nodes\<close> and a \<open>RamFsVol *\<close> one of \<open>g_vols\<close> (\<open>None\<close> for NULL); C strings are character
  lists without the terminator.  The pointer walks have no bound in the code and are
  \<open>partial_function\<close>s: \<open>None\<close> means that the walk never ends.  \<open>ntp_get_epoch()\<close> is the argument
  \<open>now\<close>; the block devices behind proxy files are the argument \<open>devs\<close>, whose \<open>ops_read\<close> is the
  driver's transfer (a result code and the bytes it stored in the buffer).
\<close>

section \<open>Strings\<close>

definition lower :: "char \<Rightarrow> char" where
  "lower c = (if 65 \<le> (of_char c :: nat) \<and> (of_char c :: nat) \<le> 90 then char_of ((of_char c :: nat) + 32) else c)"

fun seq_ci :: "string \<Rightarrow> string \<Rightarrow> bool" where
  "seq_ci (a # as) (b # bs) = (lower a = lower b \<and> seq_ci as bs)"
| "seq_ci [] [] = True"
| "seq_ci _ _ = False"

definition scopy :: "string \<Rightarrow> nat \<Rightarrow> string" where
  "scopy src lim = take (lim - 1) src"

definition RAMFS_MAX_NODES :: nat where "RAMFS_MAX_NODES = 1024"
definition RAMFS_MAX_NAME :: nat where "RAMFS_MAX_NAME = 32"
definition RAMFS_MAX_FILESIZE :: u32 where "RAMFS_MAX_FILESIZE = 524288"
definition MAX_VOLS :: nat where "MAX_VOLS = 16"

text \<open>\<open>next_component\<close>: the component and the rest of the path, \<open>None\<close> for its result 0.\<close>

definition next_component :: "string \<Rightarrow> (string \<times> string) option" where
  "next_component p =
     (let cn = take (RAMFS_MAX_NAME - 1) (takeWhile (\<lambda>c. c \<noteq> CHR ''/'') p);
          rest = drop (length cn) p;
          rest = (if rest \<noteq> [] \<and> hd rest = CHR ''/'' then tl rest else rest)
      in if cn = [] then None else Some (cn, rest))"

definition skip_vol_prefix :: "string \<Rightarrow> string" where
  "skip_vol_prefix path =
     (let p = dropWhile (\<lambda>c. c \<noteq> CHR '':'') path in if p \<noteq> [] then tl p else path)"

text \<open>\<^verbatim>\<open>p = skip_vol_prefix(path); if (*p == '/') p++;\<close>\<close>

definition strip_path :: "string \<Rightarrow> string" where
  "strip_path path =
     (let p = skip_vol_prefix path in if p \<noteq> [] \<and> hd p = CHR ''/'' then tl p else p)"

section \<open>State\<close>

datatype ntype = RAMFS_TYPE_FREE | RAMFS_TYPE_DIR | RAMFS_TYPE_FILE | RAMFS_TYPE_CLAIMED

record ramfs_node =
  ntype :: ntype
  attrs :: u8
  protection :: u16
  name :: string
  comment :: string
  parent :: "nat option"
  first_child :: "nat option"
  next_sibling :: "nat option"
  mtime :: u32
  data :: "u32 option"
  fsize :: u32
  alloc :: u32
  ext_bdev :: "nat option"
  ext_lba :: u32
  ext_blksz :: u32

record ramfs_vol =
  vname :: string
  root :: nat
  valid :: bool
  read_only :: bool

record block_dev =
  sector_size :: u32
  num_sectors :: u64
  part_offset :: u64
  ops_read :: "u64 \<Rightarrow> u32 \<Rightarrow> int \<times> u8 list"

record ramfs =
  fpool :: pool
  g_nodes :: "nat \<Rightarrow> ramfs_node"
  g_vols :: "nat \<Rightarrow> ramfs_vol"
  g_sec_bdev :: "nat option"
  g_sec_devsec :: u64
  g_sec_blksz :: u32
  g_sec_valid :: bool
  g_sec_buf :: "u8 list"

definition DEFAULT_PROTECTION :: u16 where "DEFAULT_PROTECTION = 0x8800"
definition FIBF_DELETE :: u16 where "FIBF_DELETE = 1"
definition RAMFS_ATTR_READONLY :: u8 where "RAMFS_ATTR_READONLY = 1"

definition upd_node :: "nat \<Rightarrow> (ramfs_node \<Rightarrow> ramfs_node) \<Rightarrow> ramfs \<Rightarrow> ramfs" where
  "upd_node n f s = s\<lparr>g_nodes := (g_nodes s)(n := f (g_nodes s n))\<rparr>"

abbreviation nd :: "ramfs \<Rightarrow> nat \<Rightarrow> ramfs_node" where "nd s n \<equiv> g_nodes s n"

section \<open>Nodes and directories\<close>

definition alloc_node :: "ramfs \<Rightarrow> nat option \<times> ramfs" where
  "alloc_node s =
     (case first_index (\<lambda>i. ntype (nd s i) = RAMFS_TYPE_FREE) RAMFS_MAX_NODES of
        None \<Rightarrow> (None, s)
      | Some i \<Rightarrow> (Some i, upd_node i (\<lambda>_. \<lparr>ntype = RAMFS_TYPE_CLAIMED, attrs = 0,
            protection = DEFAULT_PROTECTION, name = [], comment = [], parent = None, first_child = None,
            next_sibling = None, mtime = 0, data = None, fsize = 0, alloc = 0, ext_bdev = None,
            ext_lba = 0, ext_blksz = 0\<rparr>) s))"

partial_function (option) last_sibling :: "ramfs \<Rightarrow> nat \<Rightarrow> nat option" where
  "last_sibling s cur =
     (case next_sibling (nd s cur) of None \<Rightarrow> Some cur | Some n \<Rightarrow> last_sibling s n)"

definition dir_add_child :: "nat \<Rightarrow> nat \<Rightarrow> ramfs \<Rightarrow> ramfs option" where
  "dir_add_child dir child s =
     (let s = upd_node child (\<lambda>x. x\<lparr>next_sibling := None\<rparr>) s
      in case first_child (nd s dir) of
           None \<Rightarrow> Some (upd_node dir (\<lambda>x. x\<lparr>first_child := Some child\<rparr>) s)
         | Some c \<Rightarrow> do {
             cur \<leftarrow> last_sibling s c;
             Some (upd_node cur (\<lambda>x. x\<lparr>next_sibling := Some child\<rparr>) s) })"

text \<open>The walk to the predecessor of \<open>child\<close>; the inner option is NULL at the end of the list.\<close>

partial_function (option) prev_sibling :: "ramfs \<Rightarrow> nat \<Rightarrow> nat option \<Rightarrow> nat option option" where
  "prev_sibling s child cur =
     (case cur of
        None \<Rightarrow> Some None
      | Some c \<Rightarrow> if next_sibling (nd s c) = Some child then Some (Some c)
                  else prev_sibling s child (next_sibling (nd s c)))"

definition dir_remove_child :: "nat \<Rightarrow> nat \<Rightarrow> ramfs \<Rightarrow> ramfs option" where
  "dir_remove_child dir child s =
     (if first_child (nd s dir) = Some child
      then Some (upd_node dir (\<lambda>x. x\<lparr>first_child := next_sibling (nd s child)\<rparr>) s)
      else do {
        cur \<leftarrow> prev_sibling s child (first_child (nd s dir));
        Some (case cur of
                None \<Rightarrow> s
              | Some c \<Rightarrow> upd_node c (\<lambda>x. x\<lparr>next_sibling := next_sibling (nd s child)\<rparr>) s) })"

partial_function (option) find_sibling :: "ramfs \<Rightarrow> string \<Rightarrow> nat option \<Rightarrow> nat option option" where
  "find_sibling s nm c =
     (case c of
        None \<Rightarrow> Some None
      | Some n \<Rightarrow> if seq_ci (name (nd s n)) nm then Some (Some n)
                  else find_sibling s nm (next_sibling (nd s n)))"

definition find_child :: "ramfs \<Rightarrow> nat \<Rightarrow> string \<Rightarrow> nat option option" where
  "find_child s dir nm = find_sibling s nm (first_child (nd s dir))"

partial_function (option) climb_root :: "ramfs \<Rightarrow> nat \<Rightarrow> nat option" where
  "climb_root s n = (case parent (nd s n) of None \<Rightarrow> Some n | Some p \<Rightarrow> climb_root s p)"

definition vol_of_node :: "ramfs \<Rightarrow> nat \<Rightarrow> nat option option" where
  "vol_of_node s n = do {
     r \<leftarrow> climb_root s n;
     Some (first_index (\<lambda>i. valid (g_vols s i) \<and> root (g_vols s i) = r) MAX_VOLS) }"

definition node_vol_read_only :: "ramfs \<Rightarrow> nat \<Rightarrow> bool option" where
  "node_vol_read_only s n = do {
     v \<leftarrow> vol_of_node s n;
     Some (case v of None \<Rightarrow> False | Some i \<Rightarrow> read_only (g_vols s i)) }"

section \<open>Path resolution\<close>

lemma next_component_shorter: "next_component p = Some (cn, rest) \<Longrightarrow> length rest < length p"
  by (cases p) (auto simp: next_component_def Let_def split: if_splits)

function resolve_from :: "ramfs \<Rightarrow> nat \<Rightarrow> string \<Rightarrow> nat option option" where
  "resolve_from s dir p =
     (case next_component p of
        None \<Rightarrow> Some (Some dir)
      | Some (cn, rest) \<Rightarrow>
          (case find_child s dir cn of
             None \<Rightarrow> None
           | Some None \<Rightarrow> Some None
           | Some (Some c) \<Rightarrow> resolve_from s c rest))"
  by pat_completeness auto
termination
  by (relation "measure (\<lambda>(s, d, p). length p)") (auto dest: next_component_shorter)

definition RamFS_Resolve :: "ramfs \<Rightarrow> nat option \<Rightarrow> string \<Rightarrow> nat option option" where
  "RamFS_Resolve s vol path =
     (case vol of
        None \<Rightarrow> Some None
      | Some v \<Rightarrow> if \<not> valid (g_vols s v) then Some None
                  else resolve_from s (root (g_vols s v)) (strip_path path))"

text \<open>The loop that walks to the parent of the last component, shared by \<open>RamFS_Create\<close> and
  \<open>RamFS_Rename\<close>: the directory and the last name, or \<open>None\<close> when an intermediate component is
  missing or not a directory.\<close>

function walk_parent :: "ramfs \<Rightarrow> nat \<Rightarrow> string \<Rightarrow> string \<Rightarrow> (nat \<times> string) option option" where
  "walk_parent s dir leaf cur =
     (case next_component cur of
        None \<Rightarrow> Some (Some (dir, leaf))
      | Some (cn, rest) \<Rightarrow>
          if rest = [] then walk_parent s dir (scopy cn RAMFS_MAX_NAME) rest
          else (case find_child s dir cn of
                  None \<Rightarrow> None
                | Some None \<Rightarrow> Some None
                | Some (Some c) \<Rightarrow> if ntype (nd s c) \<noteq> RAMFS_TYPE_DIR then Some None
                                   else walk_parent s c (scopy cn RAMFS_MAX_NAME) rest))"
  by pat_completeness auto
termination
  by (relation "measure (\<lambda>(s, d, l, p). length p)") (auto dest: next_component_shorter)

section \<open>Volumes and objects\<close>

definition RamFS_Init :: "ramfs \<Rightarrow> ramfs" where
  "RamFS_Init s = s\<lparr>fpool := RamFS_Init_pool (fpool s), g_sec_valid := False\<rparr>"

definition RamFS_MountVol :: "string \<Rightarrow> ramfs \<Rightarrow> nat option \<times> ramfs" where
  "RamFS_MountVol nm s =
     (case first_index (\<lambda>i. \<not> valid (g_vols s i)) MAX_VOLS of
        None \<Rightarrow> (None, s)
      | Some i \<Rightarrow>
          let s = s\<lparr>g_vols := (g_vols s)(i := (g_vols s i)\<lparr>vname := scopy nm 16\<rparr>)\<rparr>
          in case alloc_node s of
               (None, s) \<Rightarrow> (None, s)
             | (Some r, s) \<Rightarrow>
                 let s = upd_node r (\<lambda>x. x\<lparr>ntype := RAMFS_TYPE_DIR, name := []\<rparr>) s
                 in (Some i, s\<lparr>g_vols := (g_vols s)(i := (g_vols s i)\<lparr>root := r, valid := True, read_only := False\<rparr>)\<rparr>))"

definition RamFS_SetReadOnly :: "nat option \<Rightarrow> bool \<Rightarrow> ramfs \<Rightarrow> ramfs" where
  "RamFS_SetReadOnly vol ro s =
     (case vol of
        None \<Rightarrow> s
      | Some v \<Rightarrow> if valid (g_vols s v)
                  then s\<lparr>g_vols := (g_vols s)(v := (g_vols s v)\<lparr>read_only := ro\<rparr>)\<rparr> else s)"

definition RamFS_IsReadOnly :: "nat option \<Rightarrow> ramfs \<Rightarrow> bool" where
  "RamFS_IsReadOnly vol s =
     (case vol of None \<Rightarrow> False | Some v \<Rightarrow> valid (g_vols s v) \<and> read_only (g_vols s v))"

text \<open>A new node of a type and a name linked into a directory (the tails of \<open>RamFS_MkDir\<close> and
  \<open>RamFS_Create\<close>).\<close>

definition new_child :: "ntype \<Rightarrow> u32 \<Rightarrow> nat \<Rightarrow> string \<Rightarrow> ramfs \<Rightarrow> (nat option \<times> ramfs) option" where
  "new_child ty now dir nm s =
     (case alloc_node s of
        (None, s) \<Rightarrow> Some (None, s)
      | (Some n, s) \<Rightarrow> do {
          s \<leftarrow> dir_add_child dir n (upd_node n (\<lambda>x. x\<lparr>ntype := ty, mtime := now,
                 name := scopy nm RAMFS_MAX_NAME, parent := Some dir\<rparr>) s);
          Some (Some n, s) })"

text \<open>The loop of \<open>RamFS_MkDir\<close>: missing intermediate directories are created.  The result is
  \<open>None\<close> when a node cannot be allocated.\<close>

function mkdir_walk :: "u32 \<Rightarrow> nat \<Rightarrow> string \<Rightarrow> string \<Rightarrow> ramfs \<Rightarrow> ((nat \<times> string) option \<times> ramfs) option" where
  "mkdir_walk now dir leaf cur s =
     (case next_component cur of
        None \<Rightarrow> Some (Some (dir, leaf), s)
      | Some (cn, rest) \<Rightarrow>
          if rest = [] then mkdir_walk now dir (scopy cn RAMFS_MAX_NAME) rest s
          else (case find_child s dir cn of
                  None \<Rightarrow> None
                | Some (Some c) \<Rightarrow> mkdir_walk now c (scopy cn RAMFS_MAX_NAME) rest s
                | Some None \<Rightarrow>
                    (case new_child RAMFS_TYPE_DIR now dir cn s of
                       None \<Rightarrow> None
                     | Some (None, s) \<Rightarrow> Some (None, s)
                     | Some (Some c, s) \<Rightarrow> mkdir_walk now c (scopy cn RAMFS_MAX_NAME) rest s)))"
  by pat_completeness auto
termination
  by (relation "measure (\<lambda>(t, d, l, p, s). length p)") (auto dest: next_component_shorter)

definition RamFS_MkDir :: "u32 \<Rightarrow> nat option \<Rightarrow> string \<Rightarrow> ramfs \<Rightarrow> (nat option \<times> ramfs) option" where
  "RamFS_MkDir now vol path s =
     (case vol of
        None \<Rightarrow> Some (None, s)
      | Some v \<Rightarrow>
          if \<not> valid (g_vols s v) \<or> read_only (g_vols s v) then Some (None, s)
          else do {
            (r, s) \<leftarrow> mkdir_walk now (root (g_vols s v)) [] (strip_path path) s;
            (case r of
               None \<Rightarrow> Some (None, s)
             | Some (dir, leaf) \<Rightarrow>
                 if leaf = [] then Some (None, s)
                 else do {
                   e \<leftarrow> find_child s dir leaf;
                   (case e of
                      Some n \<Rightarrow> Some (Some n, s)
                    | None \<Rightarrow> new_child RAMFS_TYPE_DIR now dir leaf s) }) })"

definition RamFS_Create :: "u32 \<Rightarrow> nat option \<Rightarrow> string \<Rightarrow> ramfs \<Rightarrow> (nat option \<times> ramfs) option" where
  "RamFS_Create now vol path s =
     (case vol of
        None \<Rightarrow> Some (None, s)
      | Some v \<Rightarrow>
          if \<not> valid (g_vols s v) \<or> read_only (g_vols s v) then Some (None, s)
          else do {
            r \<leftarrow> walk_parent s (root (g_vols s v)) [] (strip_path path);
            (case r of
               None \<Rightarrow> Some (None, s)
             | Some (dir, leaf) \<Rightarrow>
                 if leaf = [] then Some (None, s)
                 else do {
                   e \<leftarrow> find_child s dir leaf;
                   (case e of
                      Some n \<Rightarrow>
                        if ntype (nd s n) = RAMFS_TYPE_FILE
                        then Some (Some n, upd_node n (\<lambda>x. x\<lparr>fsize := 0, mtime := now\<rparr>) s)
                        else Some (None, s)
                    | None \<Rightarrow> new_child RAMFS_TYPE_FILE now dir leaf s) }) })"

section \<open>File data\<close>

definition pool_bytes :: "pool \<Rightarrow> u32 \<Rightarrow> u32 \<Rightarrow> nat \<Rightarrow> u8 list" where
  "pool_bytes q p off len = map (\<lambda>i. pool_byte q (unat p + unat off + i)) [0..<len]"

text \<open>\<open>RamFS_Write\<close>: the new contents are the whole of \<open>bytes\<close>.\<close>

definition RamFS_Write :: "u32 \<Rightarrow> nat option \<Rightarrow> u8 list \<Rightarrow> u32 \<Rightarrow> ramfs \<Rightarrow> (int \<times> ramfs) option" where
  "RamFS_Write now node bytes len s =
     (case node of
        None \<Rightarrow> Some (-1, s)
      | Some n \<Rightarrow>
          if ntype (nd s n) \<noteq> RAMFS_TYPE_FILE then Some (-1, s)
          else if attrs (nd s n) AND RAMFS_ATTR_READONLY \<noteq> 0 then Some (-2, s)
          else do {
            ro \<leftarrow> node_vol_read_only s n;
            if ro then Some (-2, s)
            else if ext_bdev (nd s n) \<noteq> None then Some (-3, s)
            else if len = 0 then Some (0, upd_node n (\<lambda>x. x\<lparr>fsize := 0\<rparr>) s)
            else do {
              (ok, s) \<leftarrow>
                (if len > alloc (nd s n)
                 then do {
                   (buf, q) \<leftarrow> RamFS_AllocPool len (fpool s);
                   (case buf of
                      None \<Rightarrow> Some (False, s\<lparr>fpool := q\<rparr>)
                    | Some p \<Rightarrow> do {
                        q \<leftarrow> RamFS_FreePool (data (nd s n)) q;
                        Some (True, upd_node n (\<lambda>x. x\<lparr>data := Some p, alloc := len\<rparr>) (s\<lparr>fpool := q\<rparr>)) }) }
                 else Some (True, s));
              if \<not> ok then Some (-1, s)
              else
                let s = (case data (nd s n) of
                           None \<Rightarrow> s
                         | Some p \<Rightarrow> s\<lparr>fpool := copy_in (unat p) (take (unat len) bytes) (fpool s)\<rparr>)
                in Some (0, upd_node n (\<lambda>x. x\<lparr>fsize := len, mtime := now\<rparr>) s) } })"

definition BlockDev_Read :: "block_dev \<Rightarrow> u64 \<Rightarrow> u32 \<Rightarrow> int \<times> u8 list" where
  "BlockDev_Read dev sector cnt =
     (if sector + ucast cnt > num_sectors dev then (-1, [])
      else ops_read dev (sector + part_offset dev) cnt)"

text \<open>The read loop of a proxy file, with its one-block cache.\<close>

definition ext_fetch ::
    "(nat \<Rightarrow> block_dev) \<Rightarrow> nat \<Rightarrow> u32 \<Rightarrow> u32 \<Rightarrow> u64 \<Rightarrow> ramfs \<Rightarrow> int \<times> ramfs" where
  "ext_fetch devs dev blksz ratio dev_sec s =
     (if g_sec_valid s \<and> g_sec_bdev s = Some dev \<and> g_sec_blksz s = blksz \<and> g_sec_devsec s = dev_sec then (0, s)
      else let (rc, bytes) = BlockDev_Read (devs dev) dev_sec ratio;
               s = s\<lparr>g_sec_buf := bytes @ drop (length bytes) (g_sec_buf s)\<rparr>
           in if rc \<noteq> 0 then (rc, s)
              else (0, s\<lparr>g_sec_bdev := Some dev, g_sec_blksz := blksz, g_sec_devsec := dev_sec,
                         g_sec_valid := True\<rparr>))"

partial_function (option) ext_read ::
    "(nat \<Rightarrow> block_dev) \<Rightarrow> nat \<Rightarrow> u32 \<Rightarrow> u32 \<Rightarrow> u32 \<Rightarrow> u32 \<Rightarrow> u32 \<Rightarrow> u8 list \<Rightarrow> ramfs \<Rightarrow> (u8 list \<times> ramfs) option" where
  "ext_read devs dev blksz ratio sector sec_off len acc s =
     (if len = 0 then Some (acc, s)
      else let (rc, s) = ext_fetch devs dev blksz ratio (ucast sector * ucast ratio) s
           in if rc \<noteq> 0 then Some (acc, s)
              else let chunk = blksz - sec_off;
                       chunk = (if chunk > len then len else chunk)
                   in ext_read devs dev blksz ratio (sector + 1) 0 (len - chunk)
                        (acc @ take (unat chunk) (drop (unat sec_off) (g_sec_buf s))) s)"

definition SEC_BUF_SZ :: u32 where "SEC_BUF_SZ = 8192"

definition RamFS_Read ::
    "(nat \<Rightarrow> block_dev) \<Rightarrow> nat option \<Rightarrow> u32 \<Rightarrow> u32 \<Rightarrow> ramfs \<Rightarrow> (u8 list \<times> ramfs) option" where
  "RamFS_Read devs node offset len s =
     (case node of
        None \<Rightarrow> Some ([], s)
      | Some n \<Rightarrow>
          if ntype (nd s n) \<noteq> RAMFS_TYPE_FILE then Some ([], s)
          else if offset \<ge> fsize (nd s n) then Some ([], s)
          else let avail = fsize (nd s n) - offset;
                   len = (if len > avail then avail else len)
               in case ext_bdev (nd s n) of
                    Some dev \<Rightarrow>
                      let blksz = (if ext_blksz (nd s n) \<noteq> 0 then ext_blksz (nd s n) else 2048)
                      in if blksz > SEC_BUF_SZ then Some ([], s)
                         else ext_read devs dev blksz (blksz div sector_size (devs dev))
                                (ext_lba (nd s n) + offset div blksz) (offset mod blksz) len [] s
                  | None \<Rightarrow>
                      Some (case data (nd s n) of
                              None \<Rightarrow> []
                            | Some p \<Rightarrow> pool_bytes (fpool s) p offset (unat len), s))"

section \<open>Deletion and renaming\<close>

definition RamFS_Delete :: "nat option \<Rightarrow> string \<Rightarrow> ramfs \<Rightarrow> (int \<times> ramfs) option" where
  "RamFS_Delete vol path s =
     (if (case vol of None \<Rightarrow> False | Some v \<Rightarrow> read_only (g_vols s v)) then Some (-5, s)
      else do {
        r \<leftarrow> RamFS_Resolve s vol path;
        (case r of
           None \<Rightarrow> Some (-1, s)
         | Some n \<Rightarrow>
             if ntype (nd s n) = RAMFS_TYPE_DIR \<and> first_child (nd s n) \<noteq> None then Some (-2, s)
             else (case parent (nd s n) of
                     None \<Rightarrow> Some (-3, s)
                   | Some d \<Rightarrow>
                       if protection (nd s n) AND FIBF_DELETE \<noteq> 0 then Some (-4, s)
                       else do {
                         q \<leftarrow> RamFS_FreePool (data (nd s n)) (fpool s);
                         s \<leftarrow> dir_remove_child d n (s\<lparr>fpool := q\<rparr>);
                         Some (0, upd_node n (\<lambda>x. x\<lparr>ntype := RAMFS_TYPE_FREE, name := [], attrs := 0,
                            protection := DEFAULT_PROTECTION, fsize := 0, alloc := 0, data := None,
                            ext_bdev := None, ext_lba := 0, ext_blksz := 0, parent := None,
                            first_child := None, next_sibling := None\<rparr>) s) })) })"

text \<open>Renaming: removal of an object that is overwritten, the move to another directory, and the
  part after both paths are parsed.\<close>

definition rename_unlink :: "nat \<Rightarrow> ramfs \<Rightarrow> ramfs option" where
  "rename_unlink x s = do {
     q \<leftarrow> RamFS_FreePool (data (nd s x)) (fpool s);
     s \<leftarrow> (case parent (nd s x) of
            None \<Rightarrow> Some (s\<lparr>fpool := q\<rparr>)
          | Some d \<Rightarrow> dir_remove_child d x (s\<lparr>fpool := q\<rparr>));
     Some (upd_node x (\<lambda>y. y\<lparr>ntype := RAMFS_TYPE_FREE, parent := None,
        first_child := None, next_sibling := None\<rparr>) s) }"

definition rename_link :: "nat \<Rightarrow> nat \<Rightarrow> string \<Rightarrow> ramfs \<Rightarrow> ramfs option" where
  "rename_link src dst leaf s = do {
     s \<leftarrow> (if parent (nd s src) \<noteq> Some dst
          then do {
            s \<leftarrow> (case parent (nd s src) of None \<Rightarrow> Some s | Some d \<Rightarrow> dir_remove_child d src s);
            dir_add_child dst src (upd_node src (\<lambda>x. x\<lparr>parent := Some dst\<rparr>) s) }
          else Some s);
     Some (upd_node src (\<lambda>x. x\<lparr>name := scopy leaf RAMFS_MAX_NAME\<rparr>) s) }"

definition rename_to :: "nat \<Rightarrow> nat \<Rightarrow> string \<Rightarrow> ramfs \<Rightarrow> (int \<times> ramfs) option" where
  "rename_to src dst leaf s = do {
     e \<leftarrow> find_child s dst leaf;
     (case e of
        None \<Rightarrow> do { s \<leftarrow> rename_link src dst leaf s; Some (0, s) }
      | Some x \<Rightarrow>
          if x = src then Some (0, s)
          else if ntype (nd s x) = RAMFS_TYPE_DIR \<and> first_child (nd s x) \<noteq> None then Some (-2, s)
          else if protection (nd s x) AND FIBF_DELETE \<noteq> 0 then Some (-4, s)
          else do { s \<leftarrow> rename_unlink x s; s \<leftarrow> rename_link src dst leaf s; Some (0, s) }) }"

definition RamFS_Rename :: "nat option \<Rightarrow> string \<Rightarrow> string \<Rightarrow> ramfs \<Rightarrow> (int \<times> ramfs) option" where
  "RamFS_Rename vol old_path new_path s =
     (case vol of
        None \<Rightarrow> Some (-1, s)
      | Some v \<Rightarrow>
          if \<not> valid (g_vols s v) then Some (-1, s)
          else if read_only (g_vols s v) then Some (-5, s)
          else do {
            r \<leftarrow> RamFS_Resolve s vol old_path;
            (case r of
               None \<Rightarrow> Some (-1, s)
             | Some src \<Rightarrow>
                 if parent (nd s src) = None then Some (-3, s)
                 else if protection (nd s src) AND FIBF_DELETE \<noteq> 0 then Some (-4, s)
                 else do {
                   w \<leftarrow> walk_parent s (root (g_vols s v)) [] (strip_path new_path);
                   (case w of
                      None \<Rightarrow> Some (-1, s)
                    | Some (dst, leaf) \<Rightarrow>
                        if leaf = [] then Some (-1, s) else rename_to src dst leaf s) }) })"

section \<open>Attributes and statistics\<close>

definition RamFS_FirstChild :: "nat option \<Rightarrow> ramfs \<Rightarrow> nat option" where
  "RamFS_FirstChild dir s =
     (case dir of
        None \<Rightarrow> None
      | Some d \<Rightarrow> if ntype (nd s d) \<noteq> RAMFS_TYPE_DIR then None else first_child (nd s d))"

definition RamFS_GetAttrs :: "nat option \<Rightarrow> ramfs \<Rightarrow> u8" where
  "RamFS_GetAttrs node s = (case node of None \<Rightarrow> 0 | Some n \<Rightarrow> attrs (nd s n))"

definition RamFS_GetProtection :: "nat option \<Rightarrow> ramfs \<Rightarrow> u16" where
  "RamFS_GetProtection node s = (case node of None \<Rightarrow> DEFAULT_PROTECTION | Some n \<Rightarrow> protection (nd s n))"

definition RamFS_SetAttrs :: "nat option \<Rightarrow> u8 \<Rightarrow> ramfs \<Rightarrow> (int \<times> ramfs) option" where
  "RamFS_SetAttrs node a s =
     (case node of
        None \<Rightarrow> Some (-1, s)
      | Some n \<Rightarrow> do {
          ro \<leftarrow> node_vol_read_only s n;
          Some (if ro then (-1, s) else (0, upd_node n (\<lambda>x. x\<lparr>attrs := a\<rparr>) s)) })"

definition RamFS_SetProtection :: "nat option \<Rightarrow> u16 \<Rightarrow> ramfs \<Rightarrow> (int \<times> ramfs) option" where
  "RamFS_SetProtection node p s =
     (case node of
        None \<Rightarrow> Some (-1, s)
      | Some n \<Rightarrow> do {
          ro \<leftarrow> node_vol_read_only s n;
          Some (if ro then (-1, s) else (0, upd_node n (\<lambda>x. x\<lparr>protection := p\<rparr>) s)) })"

definition RamFS_RenameVol :: "nat option \<Rightarrow> string option \<Rightarrow> ramfs \<Rightarrow> int \<times> ramfs" where
  "RamFS_RenameVol vol new_name s =
     (case (vol, new_name) of
        (Some v, Some nm) \<Rightarrow>
          if \<not> valid (g_vols s v) \<or> nm = [] \<or> read_only (g_vols s v) then (-1, s)
          else (0, s\<lparr>g_vols := (g_vols s)(v := (g_vols s v)\<lparr>vname := take 15 nm\<rparr>)\<rparr>)
      | _ \<Rightarrow> (-1, s))"

text \<open>The iterative depth-first walk: \<open>dfs_up\<close> climbs to the next unvisited sibling.\<close>

partial_function (option) dfs_up :: "ramfs \<Rightarrow> nat \<Rightarrow> nat option \<Rightarrow> nat option option" where
  "dfs_up s n nxt =
     (case (nxt, parent (nd s n)) of
        (None, Some p) \<Rightarrow> dfs_up s p (next_sibling (nd s p))
      | _ \<Rightarrow> Some nxt)"

definition node_bytes :: "ramfs_node \<Rightarrow> u64" where
  "node_bytes x = (if ntype x = RAMFS_TYPE_FILE
     then ucast (if ext_bdev x \<noteq> None then fsize x else alloc x) else 0)"

partial_function (option) dfs_used :: "ramfs \<Rightarrow> nat option \<Rightarrow> u64 \<Rightarrow> u64 option" where
  "dfs_used s n used =
     (case n of
        None \<Rightarrow> Some used
      | Some i \<Rightarrow> do {
          nxt \<leftarrow> dfs_up s i (case first_child (nd s i) of Some c \<Rightarrow> Some c | None \<Rightarrow> next_sibling (nd s i));
          dfs_used s nxt (used + node_bytes (nd s i)) })"

text \<open>The pair is \<open>(total_bytes, used_bytes)\<close>.  \<open>vol->root\<close> is NULL exactly when the volume was never
  mounted: \<open>RamFS_MountVol\<close> sets it together with \<open>valid\<close>.\<close>

definition RamFS_GetVolumeStats :: "nat option \<Rightarrow> ramfs \<Rightarrow> (u64 \<times> u64) option" where
  "RamFS_GetVolumeStats vol s = do {
     used \<leftarrow> (case vol of None \<Rightarrow> Some 0
           | Some v \<Rightarrow> if valid (g_vols s v) then dfs_used s (Some (root (g_vols s v))) 0 else Some 0);
     let pfree = ucast POOL_SZ - ucast (g_pool_used (fpool s));
     let ro = (case vol of None \<Rightarrow> False | Some v \<Rightarrow> read_only (g_vols s v));
     Some (if ro then used else used + pfree, used) }"

section \<open>Open files on RAM volumes\<close>

text \<open>The RAM-backed part of a \<open>VfsFile\<close>.\<close>

record vfs_file =
  fnode :: "nat option"
  fpos :: u32
  fnil :: bool

definition VFS_Close :: "vfs_file \<Rightarrow> vfs_file" where
  "VFS_Close fh = fh\<lparr>fnode := None, fpos := 0, fnil := False\<rparr>"

definition VFS_Size :: "vfs_file \<Rightarrow> ramfs \<Rightarrow> u32" where
  "VFS_Size fh s =
     (if fnil fh then 0 else case fnode fh of None \<Rightarrow> 0 | Some n \<Rightarrow> fsize (nd s n))"

definition VFS_Seek :: "u32 \<Rightarrow> vfs_file \<Rightarrow> ramfs \<Rightarrow> vfs_file" where
  "VFS_Seek pos fh s =
     (if fnil fh then fh
      else case fnode fh of
             None \<Rightarrow> fh
           | Some n \<Rightarrow> fh\<lparr>fpos := if pos \<le> fsize (nd s n) then pos else fsize (nd s n)\<rparr>)"

definition VFS_Read ::
    "(nat \<Rightarrow> block_dev) \<Rightarrow> u32 \<Rightarrow> vfs_file \<Rightarrow> ramfs \<Rightarrow> (u8 list \<times> vfs_file \<times> ramfs) option" where
  "VFS_Read devs len fh s =
     (if fnil fh then Some ([], fh, s)
      else case fnode fh of
             None \<Rightarrow> Some ([], fh, s)
           | Some n \<Rightarrow> do {
               (bytes, s) \<leftarrow> RamFS_Read devs (Some n) (fpos fh) len s;
               Some (bytes, fh\<lparr>fpos := fpos fh + of_nat (length bytes)\<rparr>, s) })"

definition VFS_BLOCK_SZ :: u32 where "VFS_BLOCK_SZ = 4096"

definition vfs_want :: "u32 \<Rightarrow> u32 \<Rightarrow> u32" where
  "vfs_want al end1 =
     (let want = al * 2;
          want = (if want < VFS_BLOCK_SZ then VFS_BLOCK_SZ else want);
          want = (if want < end1 then end1 else want)
      in if want > RAMFS_MAX_FILESIZE then RAMFS_MAX_FILESIZE else want)"

text \<open>The growth step of \<open>VFS_Write\<close>: the new end of the write (clipped when the pool is
  exhausted), \<open>None\<close> for the early return 0.\<close>

definition vfs_grow :: "nat \<Rightarrow> u32 \<Rightarrow> u32 \<Rightarrow> u32 \<Rightarrow> ramfs \<Rightarrow> (u32 option \<times> ramfs) option" where
  "vfs_grow n pos len end1 s =
     (if end1 > alloc (nd s n)
      then let want = vfs_want (alloc (nd s n)) end1
           in do {
             (buf, q) \<leftarrow> RamFS_AllocPool want (fpool s);
             (case buf of
                Some p \<Rightarrow>
                  let q = (case data (nd s n) of
                             Some d \<Rightarrow> if fsize (nd s n) \<noteq> 0
                                       then copy_in (unat p) (pool_bytes q d 0 (unat (fsize (nd s n)))) q else q
                           | None \<Rightarrow> q)
                  in do {
                    q \<leftarrow> RamFS_FreePool (data (nd s n)) q;
                    Some (Some len, upd_node n (\<lambda>x. x\<lparr>data := Some p, alloc := want\<rparr>) (s\<lparr>fpool := q\<rparr>)) }
              | None \<Rightarrow>
                  if pos \<ge> alloc (nd s n) then Some (None, s\<lparr>fpool := q\<rparr>)
                  else Some (Some (alloc (nd s n) - pos), s\<lparr>fpool := q\<rparr>)) }
      else Some (Some len, s))"

text \<open>\<open>VFS_Write\<close> of the first \<open>len\<close> bytes of \<open>buf\<close>; the result is the count written.\<close>

definition VFS_Write :: "u8 list \<Rightarrow> u32 \<Rightarrow> vfs_file \<Rightarrow> ramfs \<Rightarrow> (u32 \<times> vfs_file \<times> ramfs) option" where
  "VFS_Write buf len fh s =
     (if fnil fh then Some (len, fh, s)
      else case fnode fh of
             None \<Rightarrow> Some (0, fh, s)
           | Some n \<Rightarrow>
               if ntype (nd s n) \<noteq> RAMFS_TYPE_FILE then Some (0, fh, s)
               else do {
                 ro \<leftarrow> node_vol_read_only s n;
                 if ro then Some (0, fh, s)
                 else
                   let end1 = fpos fh + len;
                       (len, end1) = (if end1 > RAMFS_MAX_FILESIZE
                                      then (RAMFS_MAX_FILESIZE - fpos fh, RAMFS_MAX_FILESIZE) else (len, end1))
                   in if len = 0 then Some (0, fh, s)
                      else do {
                        (r, s) \<leftarrow> vfs_grow n (fpos fh) len end1 s;
                        (case r of
                           None \<Rightarrow> Some (0, fh, s)
                         | Some len \<Rightarrow>
                             let s = (case data (nd s n) of
                                        None \<Rightarrow> s
                                      | Some p \<Rightarrow> s\<lparr>fpool := copy_in (unat p + unat (fpos fh))
                                                     (take (unat len) buf) (fpool s)\<rparr>);
                                 pos = fpos fh + len;
                                 s = (if pos > fsize (nd s n) then upd_node n (\<lambda>x. x\<lparr>fsize := pos\<rparr>) s else s)
                             in Some (len, fh\<lparr>fpos := pos\<rparr>, s)) } })"

end
