(* ===== verification/RamFS_Tree.thy ===== *)
theory RamFS_Tree
  imports RamFS_Defs
begin

text \<open>
  The directory tree of the RAM file system: the well-formedness invariant \<open>tree s ch\<close>, with \<open>ch d\<close>
  the children of node \<open>d\<close> in list order, and its preservation by the operations that change the
  tree.
\<close>

section \<open>Names\<close>

lemma seq_ci_iff: "seq_ci a b \<longleftrightarrow> map lower a = map lower b"
  by (induction a b rule: seq_ci.induct) auto

definition name_ok :: "string \<Rightarrow> bool" where
  "name_ok nm \<longleftrightarrow> nm \<noteq> [] \<and> length nm \<le> 31 \<and> CHR ''/'' \<notin> set nm"

lemma next_component_name: "next_component p = Some (cn, rest) \<Longrightarrow> name_ok cn"
  by (auto simp: next_component_def Let_def name_ok_def RAMFS_MAX_NAME_def
      dest: in_set_takeD set_takeWhileD split: if_splits)

lemma scopy_name: "name_ok nm \<Longrightarrow> scopy nm RAMFS_MAX_NAME = nm"
  by (simp add: scopy_def RAMFS_MAX_NAME_def name_ok_def)

section \<open>Sibling lists\<close>

definition live_node :: "ramfs \<Rightarrow> nat \<Rightarrow> bool" where
  "live_node s n \<longleftrightarrow> ntype (nd s n) = RAMFS_TYPE_DIR \<or> ntype (nd s n) = RAMFS_TYPE_FILE"

lemma live_nodeI [simp]:
  "ntype (nd s n) = RAMFS_TYPE_DIR \<Longrightarrow> live_node s n" "ntype (nd s n) = RAMFS_TYPE_FILE \<Longrightarrow> live_node s n"
  by (simp_all add: live_node_def)

fun sibs :: "ramfs \<Rightarrow> nat option \<Rightarrow> nat list \<Rightarrow> nat option \<Rightarrow> bool" where
  "sibs s p [] q = (p = q)"
| "sibs s p (c # cs) q = (p = Some c \<and> sibs s (next_sibling (nd s c)) cs q)"

lemma nd_upd [simp]: "nd (upd_node n f s) m = (if m = n then f (nd s n) else nd s m)"
  by (simp add: upd_node_def)

lemma vols_upd [simp]: "g_vols (upd_node n f s) = g_vols s" "fpool (upd_node n f s) = fpool s"
  by (simp_all add: upd_node_def)

lemma sibs_append: "sibs s p (xs @ ys) q \<longleftrightarrow> (\<exists>r. sibs s p xs r \<and> sibs s r ys q)"
  by (induction xs arbitrary: p) auto

lemma sibs_frame:
  "(\<And>c. c \<in> set cs \<Longrightarrow> next_sibling (nd s' c) = next_sibling (nd s c)) \<Longrightarrow> sibs s' p cs q = sibs s p cs q"
  by (induction cs arbitrary: p) auto

lemma find_sibling_spec: "sibs s p cs None \<Longrightarrow> find_sibling s nm p = Some (find (\<lambda>n. seq_ci (name (nd s n)) nm) cs)"
proof (induction cs arbitrary: p)
  case Nil
  then show ?case by (subst find_sibling.simps) simp
next
  case (Cons c cs)
  then show ?case by (subst find_sibling.simps) simp
qed

lemma last_sibling_spec: "sibs s (Some c) (c # cs) None \<Longrightarrow> last_sibling s c = Some (last (c # cs))"
proof (induction cs arbitrary: c)
  case Nil
  then show ?case by (subst last_sibling.simps) simp
next
  case (Cons d cs)
  then show ?case by (subst last_sibling.simps) simp
qed

lemma prev_sibling_spec:
  assumes "sibs s p (xs @ [a] @ child # ys) None" "child \<notin> set xs"
  shows "prev_sibling s child p = Some (Some a)"
  using assms
proof (induction xs arbitrary: p)
  case Nil
  then show ?case by (subst prev_sibling.simps) simp
next
  case (Cons x xs)
  have "next_sibling (nd s x) = (case xs of [] \<Rightarrow> Some a | z # _ \<Rightarrow> Some z)" using Cons.prems(1) by (cases xs) auto
  then have "next_sibling (nd s x) \<noteq> Some child \<or> a = child"
    using Cons.prems(2) by (cases xs) auto
  then show ?case
  proof
    assume "next_sibling (nd s x) \<noteq> Some child"
    then show ?thesis using Cons by (subst prev_sibling.simps) simp
  next
    assume a: "a = child"
    then have "sibs s (Some child) (child # child # ys) None" using Cons.prems(1) by (auto simp: sibs_append)
    then have n: "next_sibling (nd s child) = Some child" "sibs s (Some child) (child # ys) None" by auto
    have False using n(2) n(1) by (induction ys) auto
    then show ?thesis ..
  qed
qed

lemma dir_add_child_eq:
  assumes "sibs s (first_child (nd s d)) cs None" "child \<notin> set cs" "child \<noteq> d"
  shows "dir_add_child d child s = Some (let s = upd_node child (\<lambda>x. x\<lparr>next_sibling := None\<rparr>) s in
    if cs = [] then upd_node d (\<lambda>x. x\<lparr>first_child := Some child\<rparr>) s
    else upd_node (last cs) (\<lambda>x. x\<lparr>next_sibling := Some child\<rparr>) s)"
proof (cases cs)
  case Nil
  then show ?thesis using assms by (simp add: dir_add_child_def Let_def)
next
  case (Cons c cs')
  let ?s = "upd_node child (\<lambda>x. x\<lparr>next_sibling := None\<rparr>) s"
  have "sibs ?s (Some c) (c # cs') None"
    using assms(1,2) by (subst sibs_frame [of _ _ s]) (auto simp: Cons)
  from last_sibling_spec [OF this] show ?thesis
    using assms(1,3) by (simp add: dir_add_child_def Let_def Cons)
qed

lemma dir_remove_child_eq:
  assumes "sibs s (first_child (nd s d)) (xs @ child # ys) None" "child \<notin> set xs"
  shows "dir_remove_child d child s = Some (
    if xs = [] then upd_node d (\<lambda>x. x\<lparr>first_child := next_sibling (nd s child)\<rparr>) s
    else upd_node (last xs) (\<lambda>x. x\<lparr>next_sibling := next_sibling (nd s child)\<rparr>) s)"
proof (cases xs rule: rev_cases)
  case Nil
  then show ?thesis using assms by (simp add: dir_remove_child_def)
next
  case (snoc zs z)
  have "first_child (nd s d) \<noteq> Some child"
    using assms by (cases zs) (auto simp: snoc)
  moreover have "prev_sibling s child (first_child (nd s d)) = Some (Some z)"
    using assms by (intro prev_sibling_spec [of _ _ zs z _ ys]) (auto simp: snoc)
  ultimately show ?thesis by (simp add: dir_remove_child_def snoc)
qed

section \<open>The tree\<close>

text \<open>\<open>links\<close> is the linked representation of the child lists, \<open>shape\<close> the rest of the invariant.\<close>

definition links :: "ramfs \<Rightarrow> (nat \<Rightarrow> nat list) \<Rightarrow> bool" where
  "links s ch \<longleftrightarrow> (\<forall>d. live_node s d \<longrightarrow> sibs s (first_child (nd s d)) (ch d) None)"

definition shape :: "ramfs \<Rightarrow> (nat \<Rightarrow> nat list) \<Rightarrow> bool" where
  "shape s ch \<longleftrightarrow>
     (\<forall>d. distinct (ch d)) \<and> (\<forall>d. ntype (nd s d) \<noteq> RAMFS_TYPE_DIR \<longrightarrow> ch d = []) \<and>
     (\<forall>c d. c \<in> set (ch d) \<longleftrightarrow> live_node s c \<and> parent (nd s c) = Some d) \<and>
     (\<exists>rk :: nat \<Rightarrow> nat. \<forall>c d. c \<in> set (ch d) \<longrightarrow> rk d < rk c) \<and>
     (\<forall>d. distinct (map (\<lambda>c. map lower (name (nd s c))) (ch d))) \<and>
     (\<forall>d. \<forall>c\<in>set (ch d). name_ok (name (nd s c))) \<and>
     (\<forall>v. valid (g_vols s v) \<longrightarrow> ntype (nd s (root (g_vols s v))) = RAMFS_TYPE_DIR \<and>
        parent (nd s (root (g_vols s v))) = None)"

definition tree :: "ramfs \<Rightarrow> (nat \<Rightarrow> nat list) \<Rightarrow> bool" where
  "tree s ch \<longleftrightarrow> links s ch \<and> shape s ch"

lemma shapeD:
  assumes "shape s ch"
  shows "distinct (ch d)" "ntype (nd s d) \<noteq> RAMFS_TYPE_DIR \<Longrightarrow> ch d = []"
    "c \<in> set (ch d) \<longleftrightarrow> live_node s c \<and> parent (nd s c) = Some d"
    "\<exists>rk :: nat \<Rightarrow> nat. \<forall>c d. c \<in> set (ch d) \<longrightarrow> rk d < rk c"
    "distinct (map (\<lambda>c. map lower (name (nd s c))) (ch d))" "c \<in> set (ch d) \<Longrightarrow> name_ok (name (nd s c))"
    "valid (g_vols s v) \<Longrightarrow> ntype (nd s (root (g_vols s v))) = RAMFS_TYPE_DIR"
    "valid (g_vols s v) \<Longrightarrow> parent (nd s (root (g_vols s v))) = None"
  using assms unfolding shape_def by blast+

lemma treeD:
  assumes "tree s ch"
  shows "shape s ch" "live_node s d \<Longrightarrow> sibs s (first_child (nd s d)) (ch d) None"
  using assms by (auto simp: tree_def links_def)

lemma ch_disjoint: "shape s ch \<Longrightarrow> c \<in> set (ch d) \<Longrightarrow> c \<in> set (ch e) \<Longrightarrow> d = e"
  using shapeD(3) [of s ch c d] shapeD(3) [of s ch c e] by auto

lemma parent_dir: "shape s ch \<Longrightarrow> c \<in> set (ch d) \<Longrightarrow> ntype (nd s d) = RAMFS_TYPE_DIR"
  by (rule ccontr) (simp add: shapeD(2))

lemma find_child_spec:
  "tree s ch \<Longrightarrow> live_node s d \<Longrightarrow> find_child s d nm = Some (find (\<lambda>n. seq_ci (name (nd s n)) nm) (ch d))"
  unfolding find_child_def by (intro find_sibling_spec treeD(2))

lemma climb_root_total:
  assumes t: "shape s ch" and n: "live_node s n"
  shows "\<exists>r. climb_root s n = Some r \<and> parent (nd s r) = None"
proof -
  obtain rk :: "nat \<Rightarrow> nat" where rk: "\<forall>c d. c \<in> set (ch d) \<longrightarrow> rk d < rk c" using shapeD(4) [OF t] by blast
  show ?thesis using n
  proof (induction "rk n" arbitrary: n rule: less_induct)
    case less
    show ?case
    proof (cases "parent (nd s n)")
      case None
      then show ?thesis by (subst climb_root.simps) auto
    next
      case (Some p)
      then have "n \<in> set (ch p)" using shapeD(3) [OF t] less.prems by blast
      then have "rk p < rk n" "ntype (nd s p) = RAMFS_TYPE_DIR" using rk parent_dir [OF t] by auto
      then obtain r where "climb_root s p = Some r" "parent (nd s r) = None" using less.hyps [of p] by auto
      then show ?thesis using Some by (subst climb_root.simps) auto
    qed
  qed
qed

lemma read_only_total: "shape s ch \<Longrightarrow> live_node s n \<Longrightarrow> \<exists>b. node_vol_read_only s n = Some b"
  using climb_root_total [of s ch n] by (auto simp: node_vol_read_only_def vol_of_node_def)

text \<open>Updates that do not touch the tree fields.\<close>

definition same_tree :: "ramfs \<Rightarrow> ramfs \<Rightarrow> bool" where
  "same_tree s s' \<longleftrightarrow>
     (\<forall>n. ntype (nd s' n) = ntype (nd s n) \<and> parent (nd s' n) = parent (nd s n) \<and> name (nd s' n) = name (nd s n) \<and>
        first_child (nd s' n) = first_child (nd s n) \<and> next_sibling (nd s' n) = next_sibling (nd s n)) \<and>
     (\<forall>v. valid (g_vols s' v) = valid (g_vols s v) \<and> root (g_vols s' v) = root (g_vols s v))"

lemma tree_same:
  assumes "same_tree s s'" "tree s ch"
  shows "tree s' ch"
proof -
  have "sibs s' p cs q = sibs s p cs q" for p cs q
    using assms(1) by (intro sibs_frame) (simp add: same_tree_def)
  moreover have "live_node s' n = live_node s n" "ntype (nd s' n) = ntype (nd s n)" "parent (nd s' n) = parent (nd s n)"
    "name (nd s' n) = name (nd s n)" "first_child (nd s' n) = first_child (nd s n)" for n
    using assms(1) by (simp_all add: same_tree_def live_node_def)
  moreover have "valid (g_vols s' v) = valid (g_vols s v)" "root (g_vols s' v) = root (g_vols s v)" for v
    using assms(1) by (simp_all add: same_tree_def)
  ultimately have "tree s' ch = tree s ch" unfolding tree_def links_def shape_def by (simp only:)
  then show ?thesis using assms(2) by simp
qed

section \<open>Adding and removing a child\<close>

definition apart :: "(nat \<Rightarrow> nat list) \<Rightarrow> bool" where
  "apart ch \<longleftrightarrow> (\<forall>d. distinct (ch d)) \<and> (\<forall>c d e. c \<in> set (ch d) \<longrightarrow> c \<in> set (ch e) \<longrightarrow> d = e)"

lemma shape_apart: "shape s ch \<Longrightarrow> apart ch"
  using shapeD(1) [of s ch] ch_disjoint [of s ch] unfolding apart_def by blast

text \<open>Equality of two nodes up to the two link fields.\<close>

definition linkeq :: "ramfs_node \<Rightarrow> ramfs_node \<Rightarrow> bool" where
  "linkeq x y \<longleftrightarrow> x\<lparr>first_child := None, next_sibling := None\<rparr> = y\<lparr>first_child := None, next_sibling := None\<rparr>"

lemma linkeqD:
  assumes "linkeq x y"
  shows "ntype x = ntype y" "parent x = parent y" "name x = name y" "data x = data y" "fsize x = fsize y"
    "alloc x = alloc y" "ext_bdev x = ext_bdev y" "attrs x = attrs y" "protection x = protection y"
  using assms by (cases x; cases y; simp add: linkeq_def)+

lemma links_add:
  assumes l: "links s ch" and sh: "apart ch" and d: "live_node s d"
    and c: "\<forall>e. c \<notin> set (ch e)" "c \<noteq> d" "dir_add_child d c s = Some s'"
  shows "links s' (ch(d := ch d @ [c]))"
    and "\<And>n. linkeq (nd s' n) (nd s n)"
    and "g_vols s' = g_vols s" "fpool s' = fpool s"
proof -
  have sd: "sibs s (first_child (nd s d)) (ch d) None" using l d by (simp add: links_def)
  have s': "s' = (let s = upd_node c (\<lambda>x. x\<lparr>next_sibling := None\<rparr>) s in
    if ch d = [] then upd_node d (\<lambda>x. x\<lparr>first_child := Some c\<rparr>) s
    else upd_node (last (ch d)) (\<lambda>x. x\<lparr>next_sibling := Some c\<rparr>) s)"
    using dir_add_child_eq [OF sd _ c(2)] c(1,3) by simp
  show f: "linkeq (nd s' n) (nd s n)" for n by (simp add: s' Let_def linkeq_def)
  show "g_vols s' = g_vols s" "fpool s' = fpool s" by (simp_all add: s' Let_def)
  have lv: "live_node s' n = live_node s n" for n
    using linkeqD(1) [OF f [of n]] by (simp add: live_node_def)
  show "links s' (ch(d := ch d @ [c]))"
    unfolding links_def
  proof (intro allI impI)
    fix e assume e: "live_node s' e"
    then have se: "sibs s (first_child (nd s e)) (ch e) None" using l lv by (simp add: links_def)
    show "sibs s' (first_child (nd s' e)) ((ch(d := ch d @ [c])) e) None"
    proof (cases "e = d")
      case True
      show ?thesis
      proof (cases "ch d" rule: rev_cases)
        case Nil
        then show ?thesis using True c(2) by (simp add: s')
      next
        case (snoc xs x)
        have x: "x \<notin> set xs" "x \<noteq> c" "c \<notin> set xs" using spec [OF conjunct1 [OF sh [unfolded apart_def]], of d] spec [OF c(1), of d] snoc by auto
        obtain r where r: "sibs s (first_child (nd s d)) xs r" "r = Some x" using sd by (auto simp: snoc sibs_append)
        have "sibs s' (first_child (nd s d)) xs r" using r(1) x by (subst sibs_frame [of _ _ s]) (auto simp: s' snoc)
        moreover have "first_child (nd s' d) = first_child (nd s d)" using c(2) by (auto simp: s' snoc Let_def)
        ultimately show ?thesis using True x r(2) by (auto simp: snoc sibs_append s')
      qed
    next
      case False
      have "next_sibling (nd s' y) = next_sibling (nd s y)" if "y \<in> set (ch e)" for y
      proof -
        have "y \<noteq> c" using that c(1) by blast
        moreover have "y \<noteq> last (ch d)" if "ch d \<noteq> []"
          using sh \<open>y \<in> set (ch e)\<close> False that unfolding apart_def by (metis last_in_set)
        ultimately show ?thesis by (simp add: s' Let_def)
      qed
      moreover have "first_child (nd s' e) = first_child (nd s e)" using False by (simp add: s' Let_def)
      ultimately show ?thesis using False se by (subst sibs_frame [of _ _ s]) auto
    qed
  qed
qed

lemma links_remove:
  assumes l: "links s ch" and sh: "apart ch" and d: "live_node s d" and c: "c \<in> set (ch d)" and s': "dir_remove_child d c s = Some s'"
  shows "links s' (ch(d := remove1 c (ch d)))"
    and "\<And>n. linkeq (nd s' n) (nd s n)"
    and "g_vols s' = g_vols s" "fpool s' = fpool s"
proof -
  have sd: "sibs s (first_child (nd s d)) (ch d) None" using l d by (simp add: links_def)
  obtain xs ys where x: "ch d = xs @ c # ys" using c by (metis in_set_conv_decomp)
  have dx: "c \<notin> set xs" "c \<notin> set ys" "distinct xs" "set xs \<inter> set ys = {}" using spec [OF conjunct1 [OF sh [unfolded apart_def]], of d] x by auto
  have s'e: "s' = (if xs = [] then upd_node d (\<lambda>x. x\<lparr>first_child := next_sibling (nd s c)\<rparr>) s
    else upd_node (last xs) (\<lambda>x. x\<lparr>next_sibling := next_sibling (nd s c)\<rparr>) s)"
    using dir_remove_child_eq [OF sd [unfolded x] dx(1)] s' by simp
  show f: "linkeq (nd s' n) (nd s n)" for n by (simp add: s'e linkeq_def)
  show "g_vols s' = g_vols s" "fpool s' = fpool s" by (simp_all add: s'e)
  have lv: "live_node s' n = live_node s n" for n
    using linkeqD(1) [OF f [of n]] by (simp add: live_node_def)
  show "links s' (ch(d := remove1 c (ch d)))"
    unfolding links_def
  proof (intro allI impI)
    fix e assume e: "live_node s' e"
    then have se: "sibs s (first_child (nd s e)) (ch e) None" using l lv by (simp add: links_def)
    show "sibs s' (first_child (nd s' e)) ((ch(d := remove1 c (ch d))) e) None"
    proof (cases "e = d")
      case True
      have rm: "remove1 c (ch d) = xs @ ys" using dx(1) by (simp add: x remove1_append)
      show ?thesis
      proof (cases xs rule: rev_cases)
        case Nil
        have "sibs s (next_sibling (nd s c)) ys None" using sd by (simp add: x Nil)
        then have "sibs s' (next_sibling (nd s c)) ys None" by (subst sibs_frame [of _ _ s]) (auto simp: s'e Nil)
        then show ?thesis using True rm by (simp add: s'e Nil)
      next
        case (snoc zs z)
        have z: "z \<notin> set zs" "z \<notin> set ys" using dx(3,4) snoc by auto
        have r: "sibs s (first_child (nd s d)) zs (Some z)" "sibs s (next_sibling (nd s c)) ys None"
          using sd by (auto simp: x snoc sibs_append)
        have "sibs s' (first_child (nd s d)) zs (Some z)" "sibs s' (next_sibling (nd s c)) ys None"
          using r z by (subst sibs_frame [of _ _ s]; auto simp: s'e snoc)+
        then show ?thesis using True rm snoc by (auto simp: sibs_append s'e)
      qed
    next
      case False
      have "next_sibling (nd s' y) = next_sibling (nd s y)" if "y \<in> set (ch e)" for y
      proof -
        have "y \<notin> set (ch d)" using sh that False unfolding apart_def by blast
        then show ?thesis by (auto simp: s'e x)
      qed
      moreover have "first_child (nd s' e) = first_child (nd s e)" using False by (simp add: s'e)
      ultimately show ?thesis using False se by (subst sibs_frame [of _ _ s]) auto
    qed
  qed
qed


text \<open>Updates of one node that keep the links.\<close>

lemma links_upd:
  assumes "links s ch" "\<forall>e. n \<notin> set (ch e)"
    and "live_node (upd_node n f s) n \<Longrightarrow> first_child (f (nd s n)) = None \<and> ch n = []"
  shows "links (upd_node n f s) ch"
  unfolding links_def
proof (intro allI impI)
  fix e assume e: "live_node (upd_node n f s) e"
  show "sibs (upd_node n f s) (first_child (nd (upd_node n f s) e)) (ch e) None"
  proof (cases "e = n")
    case True
    then show ?thesis using e assms(3) by simp
  next
    case False
    then have "live_node s e" using e by (simp add: live_node_def)
    then have "sibs s (first_child (nd s e)) (ch e) None" using assms(1) by (simp add: links_def)
    then show ?thesis using assms(2) False by (subst sibs_frame [of _ _ s]) auto
  qed
qed

lemma alloc_node_Some:
  assumes "alloc_node s = (Some n, s')"
  shows "ntype (nd s n) = RAMFS_TYPE_FREE" "n < RAMFS_MAX_NODES"
    "\<exists>f. s' = upd_node n f s \<and> (\<forall>x. ntype (f x) = RAMFS_TYPE_CLAIMED \<and> first_child (f x) = None \<and> data (f x) = None \<and>
       alloc (f x) = 0 \<and> fsize (f x) = 0 \<and> ext_bdev (f x) = None \<and> parent (f x) = None \<and> next_sibling (f x) = None)"
  using assms by (auto simp: alloc_node_def first_index_Some split: option.splits)

lemma alloc_node_None: "alloc_node s = (None, s') \<Longrightarrow> s' = s"
  by (auto simp: alloc_node_def split: option.splits)

lemma find_None_fresh:
  "find (\<lambda>n. seq_ci (name (nd s n)) nm) cs = None \<Longrightarrow> map lower nm \<notin> (\<lambda>c. map lower (name (nd s c))) ` set cs"
  by (auto simp: find_None_iff seq_ci_iff)

text \<open>How the shape changes when a node is added, removed or moved; the new state is described by
  the fields the shape depends on.\<close>

lemma map_names_cong:
  "(\<And>c. c \<in> set cs \<Longrightarrow> name (nd s' c) = name (nd s c)) \<Longrightarrow>
   map (\<lambda>c. map lower (name (nd s' c))) cs = map (\<lambda>c. map lower (name (nd s c))) cs"
  by simp

lemma shape_add:
  assumes sh: "shape s ch" and d: "ntype (nd s d) = RAMFS_TYPE_DIR" and n: "ntype (nd s n) = RAMFS_TYPE_FREE"
    and nm: "name_ok nm" "map lower nm \<notin> (\<lambda>c. map lower (name (nd s c))) ` set (ch d)"
    and N: "live_node s' n" "name (nd s' n) = nm" "parent (nd s' n) = Some d"
    and O: "\<And>m. m \<noteq> n \<Longrightarrow> ntype (nd s' m) = ntype (nd s m)" "\<And>m. m \<noteq> n \<Longrightarrow> name (nd s' m) = name (nd s m)"
      "\<And>m. m \<noteq> n \<Longrightarrow> parent (nd s' m) = parent (nd s m)" and v: "g_vols s' = g_vols s"
  shows "shape s' (ch(d := ch d @ [n]))"
proof -
  note S = shapeD [OF sh]
  have nn: "\<forall>e. n \<notin> set (ch e)" "ch n = []" "n \<noteq> d" using S(3) [of n] n S(2) [of n] d by (auto simp: live_node_def)
  have lv: "live_node s' m = live_node s m" if "m \<noteq> n" for m using O(1) [OF that] by (simp add: live_node_def)
  obtain rk :: "nat \<Rightarrow> nat" where rk: "\<forall>c d. c \<in> set (ch d) \<longrightarrow> rk d < rk c" using S(4) by blast
  show ?thesis
    unfolding shape_def
  proof (intro conjI allI impI ballI)
    show "distinct ((ch(d := ch d @ [n])) e)" for e using S(1) nn(1) by auto
    show "(ch(d := ch d @ [n])) e = []" if "ntype (nd s' e) \<noteq> RAMFS_TYPE_DIR" for e
      using that S(2) [of e] O(1) [of e] d nn by (cases "e = n") auto
    show "c \<in> set ((ch(d := ch d @ [n])) e) \<longleftrightarrow> live_node s' c \<and> parent (nd s' c) = Some e" for c e
      using N nn(1) S(3) O(3) lv by (cases "c = n") auto
    show "\<exists>rk :: nat \<Rightarrow> nat. \<forall>c e. c \<in> set ((ch(d := ch d @ [n])) e) \<longrightarrow> rk e < rk c"
      using rk nn by (intro exI [of _ "rk(n := Suc (rk d))"]) (auto split: if_splits)
    show "distinct (map (\<lambda>c. map lower (name (nd s' c))) ((ch(d := ch d @ [n])) e))" for e
    proof -
      have m: "map (\<lambda>c. map lower (name (nd s' c))) (ch e) = map (\<lambda>c. map lower (name (nd s c))) (ch e)"
        by (rule map_names_cong) (use O(2) nn(1) in metis)
      have "map (\<lambda>c. map lower (name (nd s' c))) ((ch(d := ch d @ [n])) e) =
          map (\<lambda>c. map lower (name (nd s c))) (ch e) @ (if e = d then [map lower nm] else [])"
        using m N(2) by (cases "e = d") (simp_all del: map_eq_conv)
      then show ?thesis using S(5) [of e] nm(2) by (simp del: map_eq_conv)
    qed
    show "name_ok (name (nd s' c))" if "c \<in> set ((ch(d := ch d @ [n])) e)" for c e
      using that S(6) O(2) N(2) nm(1) by (cases "c = n") (auto split: if_splits)
    fix v assume "valid (g_vols s' v)"
    then show "ntype (nd s' (root (g_vols s' v))) = RAMFS_TYPE_DIR" "parent (nd s' (root (g_vols s' v))) = None"
      using S(7,8) [of v] n v O(1,3) by (cases "root (g_vols s v) = n"; auto)+
  qed
qed

lemma shape_remove:
  assumes sh: "shape s ch" and n: "n \<in> set (ch d)" "ch n = []"
    and N: "ntype (nd s' n) = RAMFS_TYPE_FREE"
    and O: "\<And>m. m \<noteq> n \<Longrightarrow> ntype (nd s' m) = ntype (nd s m)" "\<And>m. m \<noteq> n \<Longrightarrow> name (nd s' m) = name (nd s m)"
      "\<And>m. m \<noteq> n \<Longrightarrow> parent (nd s' m) = parent (nd s m)" and v: "g_vols s' = g_vols s"
  shows "shape s' (ch(d := remove1 n (ch d)))"
proof -
  note S = shapeD [OF sh]
  have rm: "set (remove1 n (ch d)) = set (ch d) - {n}" using S(1) by simp
  have nn: "n \<notin> set (ch e)" if "e \<noteq> d" for e using ch_disjoint [OF sh n(1)] that by blast
  have p: "parent (nd s n) = Some d" "n \<noteq> d" using S(3) [of n d] n by auto
  have ne: "c \<noteq> n" if "c \<in> set ((ch(d := remove1 n (ch d))) e)" for c e
    using that rm nn by (cases "e = d") auto
  have lv: "live_node s' m = live_node s m" if "m \<noteq> n" for m using O(1) [OF that] by (simp add: live_node_def)
  obtain rk :: "nat \<Rightarrow> nat" where rk: "\<forall>c d. c \<in> set (ch d) \<longrightarrow> rk d < rk c" using S(4) by blast
  show ?thesis
    unfolding shape_def
  proof (intro conjI allI impI ballI)
    show "distinct ((ch(d := remove1 n (ch d))) e)" for e using S(1) by simp
    show "(ch(d := remove1 n (ch d))) e = []" if "ntype (nd s' e) \<noteq> RAMFS_TYPE_DIR" for e
      using that S(2) [of e] O(1) [of e] parent_dir [OF sh n(1)] n(2) p(2) by (cases "e = n") auto
    show "c \<in> set ((ch(d := remove1 n (ch d))) e) \<longleftrightarrow> live_node s' c \<and> parent (nd s' c) = Some e" for c e
      using N nn rm S(3) O(3) lv by (cases "c = n") (auto simp: live_node_def)
    show "\<exists>rk :: nat \<Rightarrow> nat. \<forall>c e. c \<in> set ((ch(d := remove1 n (ch d))) e) \<longrightarrow> rk e < rk c"
      using rk rm by (intro exI [of _ rk]) auto
    show "distinct (map (\<lambda>c. map lower (name (nd s' c))) ((ch(d := remove1 n (ch d))) e))" for e
    proof -
      have "map (\<lambda>c. map lower (name (nd s' c))) ((ch(d := remove1 n (ch d))) e) =
          map (\<lambda>c. map lower (name (nd s c))) ((ch(d := remove1 n (ch d))) e)"
        using O(2) ne by (intro map_names_cong) metis
      moreover have "distinct (map (\<lambda>c. map lower (name (nd s c))) ((ch(d := remove1 n (ch d))) e))"
        using S(1,5) [of e] by (auto simp: distinct_map intro: inj_on_subset)
      ultimately show ?thesis by (simp del: map_eq_conv)
    qed
    show "name_ok (name (nd s' c))" if "c \<in> set ((ch(d := remove1 n (ch d))) e)" for c e
      using that S(6) O(2) rm nn by (cases "c = n") (auto split: if_splits)
    fix v assume "valid (g_vols s' v)"
    then show "ntype (nd s' (root (g_vols s' v))) = RAMFS_TYPE_DIR" "parent (nd s' (root (g_vols s' v))) = None"
      using S(7,8) [of v] p(1) v O(1,3) by (cases "root (g_vols s v) = n"; auto)+
  qed
qed

definition child_rel :: "(nat \<Rightarrow> nat list) \<Rightarrow> (nat \<times> nat) set" where
  "child_rel ch = {(p, c). c \<in> set (ch p)}"

lemma shape_move:
  assumes sh: "shape s ch" and n: "n \<in> set (ch d)" and dst: "ntype (nd s dst) = RAMFS_TYPE_DIR" "dst \<noteq> d"
    and below: "(n, dst) \<notin> (child_rel ch)\<^sup>*"
    and nm: "name_ok nm" "map lower nm \<notin> (\<lambda>c. map lower (name (nd s c))) ` set (ch dst)"
    and N: "ntype (nd s' n) = ntype (nd s n)" "name (nd s' n) = nm" "parent (nd s' n) = Some dst"
    and O: "\<And>m. m \<noteq> n \<Longrightarrow> ntype (nd s' m) = ntype (nd s m)" "\<And>m. m \<noteq> n \<Longrightarrow> name (nd s' m) = name (nd s m)"
      "\<And>m. m \<noteq> n \<Longrightarrow> parent (nd s' m) = parent (nd s m)" and v: "g_vols s' = g_vols s"
  defines "ch' \<equiv> ch(d := remove1 n (ch d), dst := ch dst @ [n])"
  shows "shape s' ch'"
proof -
  note S = shapeD [OF sh]
  have rm: "set (remove1 n (ch d)) = set (ch d) - {n}" using S(1) by simp
  have nn: "n \<notin> set (ch e)" if "e \<noteq> d" for e using ch_disjoint [OF sh n] that by blast
  have p: "parent (nd s n) = Some d" "live_node s n" using S(3) [of n d] n by auto
  have ty: "ntype (nd s' m) = ntype (nd s m)" for m using O(1) N(1) by (cases "m = n") auto
  have lv: "live_node s' m = live_node s m" for m using ty by (simp add: live_node_def)
  have mem: "c \<in> set (ch' e) \<longleftrightarrow> (if c = n then e = dst else c \<in> set (ch e))" for c e
    using rm nn dst(2) by (auto simp: ch'_def)
  obtain rk :: "nat \<Rightarrow> nat" where rk: "\<forall>c d. c \<in> set (ch d) \<longrightarrow> rk d < rk c" using S(4) by blast
  let ?sub = "\<lambda>m. (n, m) \<in> (child_rel ch)\<^sup>*"
  define rk' where "rk' m = (if ?sub m then rk m + rk dst + 1 else rk m)" for m
  have rk': "rk' e < rk' c" if "c \<in> set (ch' e)" for c e
  proof (cases "c = n")
    case True
    then show ?thesis using that mem below by (simp add: rk'_def)
  next
    case False
    then have c: "c \<in> set (ch e)" using that mem by simp
    then have "(e, c) \<in> child_rel ch" by (simp add: child_rel_def)
    then have "?sub e \<longrightarrow> ?sub c" by (auto intro: rtrancl_into_rtrancl)
    moreover have "rk e < rk c" using rk c by blast
    ultimately show ?thesis by (simp add: rk'_def)
  qed
  show ?thesis
    unfolding shape_def
  proof (intro conjI allI impI ballI)
    show "distinct (ch' e)" for e using S(1) nn dst(2) by (simp add: ch'_def)
    show "ch' e = []" if "ntype (nd s' e) \<noteq> RAMFS_TYPE_DIR" for e
      using that S(2) [of e] ty dst(1) by (auto simp: ch'_def)
    show "c \<in> set (ch' e) \<longleftrightarrow> live_node s' c \<and> parent (nd s' c) = Some e" for c e
      using N(3) mem S(3) O(3) lv p(2) by (cases "c = n") auto
    show "\<exists>rk :: nat \<Rightarrow> nat. \<forall>c e. c \<in> set (ch' e) \<longrightarrow> rk e < rk c" using rk' by blast
    show "distinct (map (\<lambda>c. map lower (name (nd s' c))) (ch' e))" for e
    proof (cases "e = dst")
      case True
      have "map (\<lambda>c. map lower (name (nd s' c))) (ch dst) = map (\<lambda>c. map lower (name (nd s c))) (ch dst)"
        by (rule map_names_cong) (use O(2) nn dst(2) in metis)
      then have "map (\<lambda>c. map lower (name (nd s' c))) (ch' dst) =
          map (\<lambda>c. map lower (name (nd s c))) (ch dst) @ [map lower nm]"
        using N(2) by (simp del: map_eq_conv add: ch'_def)
      then show ?thesis using True S(5) [of dst] nm(2) by (simp del: map_eq_conv)
    next
      case False
      have "map (\<lambda>c. map lower (name (nd s' c))) (ch' e) = map (\<lambda>c. map lower (name (nd s c))) (ch' e)"
        by (rule map_names_cong) (use O(2) mem False in metis)
      moreover have "distinct (map (\<lambda>c. map lower (name (nd s c))) (ch' e))"
        using S(1,5) [of e] False by (auto simp: ch'_def distinct_map intro: inj_on_subset)
      ultimately show ?thesis by (simp del: map_eq_conv)
    qed
    show "name_ok (name (nd s' c))" if "c \<in> set (ch' e)" for c e
      using that S(6) O(2) mem N(2) nm(1) by (cases "c = n") auto
    fix v assume "valid (g_vols s' v)"
    then show "ntype (nd s' (root (g_vols s' v))) = RAMFS_TYPE_DIR" "parent (nd s' (root (g_vols s' v))) = None"
      using S(7,8) [of v] p(1) v O(1,3) by (cases "root (g_vols s v) = n"; auto)+
  qed
qed

lemma new_child_tree:
  assumes t: "tree s ch" and d: "ntype (nd s d) = RAMFS_TYPE_DIR" and ty: "ty = RAMFS_TYPE_DIR \<or> ty = RAMFS_TYPE_FILE"
    and nm: "name_ok nm" "map lower nm \<notin> (\<lambda>c. map lower (name (nd s c))) ` set (ch d)"
  shows "\<exists>r s'. new_child ty now d nm s = Some (r, s') \<and>
    (case r of None \<Rightarrow> s' = s
     | Some n \<Rightarrow> ntype (nd s n) = RAMFS_TYPE_FREE \<and> tree s' (ch(d := ch d @ [n])) \<and>
         ntype (nd s' n) = ty \<and> name (nd s' n) = nm \<and> parent (nd s' n) = Some d \<and> data (nd s' n) = None \<and>
         alloc (nd s' n) = 0 \<and> fsize (nd s' n) = 0 \<and> ext_bdev (nd s' n) = None \<and>
         (\<forall>m. m \<noteq> n \<longrightarrow> linkeq (nd s' m) (nd s m)) \<and> g_vols s' = g_vols s \<and> fpool s' = fpool s)"
proof (cases "alloc_node s")
  case (Pair r s1)
  show ?thesis
  proof (cases r)
    case None
    then show ?thesis using alloc_node_None [of s s1] by (auto simp: new_child_def Pair)
  next
    case (Some n)
    note A = alloc_node_Some [OF Pair [unfolded Some]]
    obtain f where f: "s1 = upd_node n f s" "\<forall>x. ntype (f x) = RAMFS_TYPE_CLAIMED \<and> first_child (f x) = None \<and>
       data (f x) = None \<and> alloc (f x) = 0 \<and> fsize (f x) = 0 \<and> ext_bdev (f x) = None \<and> parent (f x) = None \<and> next_sibling (f x) = None"
      using A(3) by blast
    note sh = treeD(1) [OF t]
    define g where "g = (\<lambda>x. (f x)\<lparr>ntype := ty, mtime := now, name := scopy nm RAMFS_MAX_NAME, parent := Some d\<rparr>)"
    define s2 where "s2 = upd_node n g s"
    have s2: "upd_node n (\<lambda>x. x\<lparr>ntype := ty, mtime := now, name := scopy nm RAMFS_MAX_NAME, parent := Some d\<rparr>) s1 = s2"
      by (simp add: s2_def f(1) g_def upd_node_def)
    have nn: "\<forall>e. n \<notin> set (ch e)" "ch n = []" "n \<noteq> d"
      using shapeD(3) [OF sh, of n] A(1) shapeD(2) [OF sh, of n] d by (auto simp: live_node_def)
    have l2: "links s2 ch" unfolding s2_def
      using t nn f(2) by (intro links_upd) (auto simp: tree_def g_def)
    have d2: "live_node s2 d" using nn(3) d by (simp add: s2_def)
    have "sibs s2 (first_child (nd s2 d)) (ch d) None" using l2 d2 by (simp add: links_def)
    then obtain s3 where s3: "dir_add_child d n s2 = Some s3" using dir_add_child_eq [of s2 d "ch d" n] nn by auto
    note L = links_add [OF l2 shape_apart [OF sh] d2 nn(1,3) s3]
    have eq: "linkeq (nd s3 m) (if m = n then g (nd s n) else nd s m)" for m using L(2) [of m] by (simp add: s2_def)
    have N: "ntype (nd s3 n) = ty" "name (nd s3 n) = nm" "parent (nd s3 n) = Some d"
      using linkeqD [OF eq [of n]] scopy_name [OF nm(1)] by (simp_all add: g_def)
    have V: "g_vols s3 = g_vols s" "fpool s3 = fpool s" using L(3,4) by (simp_all add: s2_def)
    have "shape s3 (ch(d := ch d @ [n]))"
      using N ty linkeqD [OF eq] V(1) by (intro shape_add [OF sh d A(1) nm]) (auto simp: live_node_def)
    then have "tree s3 (ch(d := ch d @ [n]))" using L(1) by (simp add: tree_def)
    moreover have "new_child ty now d nm s = Some (Some n, s3)" by (simp add: new_child_def Pair Some s2 s3)
    moreover have "linkeq (nd s3 m) (nd s m)" if "m \<noteq> n" for m using eq [of m] that by simp
    moreover have "data (nd s3 n) = None" "alloc (nd s3 n) = 0" "fsize (nd s3 n) = 0" "ext_bdev (nd s3 n) = None"
      using linkeqD [OF eq [of n]] f(2) by (simp_all add: g_def)
    ultimately show ?thesis using A(1) N V by (intro exI [of _ "Some n"] exI [of _ s3]) simp
  qed
qed

lemma remove_child_tree:
  assumes t: "tree s ch" and n: "n \<in> set (ch d)" "ch n = []" and f: "\<And>x. ntype (f x) = RAMFS_TYPE_FREE"
  shows "\<exists>s'. dir_remove_child d n s = Some s' \<and> tree (upd_node n f s') (ch(d := remove1 n (ch d))) \<and>
    (\<forall>m. linkeq (nd s' m) (nd s m)) \<and> g_vols s' = g_vols s \<and> fpool s' = fpool s"
proof -
  note sh = treeD(1) [OF t]
  have d: "live_node s d" using parent_dir [OF sh n(1)] by simp
  obtain xs ys where x: "ch d = xs @ n # ys" "n \<notin> set xs" using n(1) by (metis split_list_first)
  obtain s' where s': "dir_remove_child d n s = Some s'"
    using dir_remove_child_eq [OF treeD(2) [OF t d, unfolded x(1)] x(2)] by simp
  note L = links_remove [OF _ shape_apart [OF sh] d n(1) s']
  have l: "links s ch" using t by (simp add: tree_def)
  have "shape (upd_node n f s') (ch(d := remove1 n (ch d)))"
    by (rule shape_remove [OF sh n]) (simp_all add: f linkeqD(1-3) [OF L(2) [OF l]] L(3) [OF l])
  moreover have "links (upd_node n f s') (ch(d := remove1 n (ch d)))"
  proof (rule links_upd)
    show "links s' (ch(d := remove1 n (ch d)))" by (rule L(1) [OF l])
    show "\<forall>e. n \<notin> set ((ch(d := remove1 n (ch d))) e)"
      using shapeD(1) [OF sh, of d] ch_disjoint [OF sh n(1)] by auto
  qed (simp add: live_node_def f)
  ultimately show ?thesis using s' L(2-4) [OF l] by (auto simp: tree_def)
qed

end
