(* ===== verification/RamFS_Paths.thy ===== *)
theory RamFS_Paths
  imports RamFS_Tree
begin

text \<open>
  Path walks of the RAM file system on a well-formed tree: they terminate, and creating,
  deleting and looking up objects by path agree with each other.
\<close>

section \<open>Components\<close>

function comps :: "string \<Rightarrow> string list" where
  "comps p = (case next_component p of None \<Rightarrow> [] | Some (cn, rest) \<Rightarrow> cn # comps rest)"
  by pat_completeness auto
termination by (relation "measure length") (auto dest: next_component_shorter)

text \<open>The part of a path the walks never look at: it is non-empty when the path has an empty
  component.\<close>

function path_rest :: "string \<Rightarrow> string" where
  "path_rest p = (case next_component p of None \<Rightarrow> p | Some (cn, rest) \<Rightarrow> path_rest rest)"
  by pat_completeness auto
termination by (relation "measure length") (auto dest: next_component_shorter)

declare comps.simps [simp del] path_rest.simps [simp del] resolve_from.simps [simp del]
  walk_parent.simps [simp del] mkdir_walk.simps [simp del]

lemma next_component_Nil [simp]: "next_component [] = None"
  by (simp add: next_component_def)

lemma comps_Nil [simp]: "comps [] = []" by (simp add: comps.simps)

fun resolve_comps :: "ramfs \<Rightarrow> nat \<Rightarrow> string list \<Rightarrow> nat option option" where
  "resolve_comps s d [] = Some (Some d)"
| "resolve_comps s d (c # cs) =
     (case find_child s d c of
        None \<Rightarrow> None
      | Some None \<Rightarrow> Some None
      | Some (Some e) \<Rightarrow> resolve_comps s e cs)"

lemma resolve_from_comps: "resolve_from s d p = resolve_comps s d (comps p)"
proof (induction s d p rule: resolve_from.induct)
  case (1 s d p)
  then show ?case
    by (subst resolve_from.simps, subst comps.simps) (auto split: option.splits)
qed

lemma comps_name: "cn \<in> set (comps p) \<Longrightarrow> name_ok cn"
proof (induction p rule: comps.induct)
  case (1 p)
  then show ?case
    by (cases "next_component p") (auto simp: comps.simps [of p] dest: next_component_name)
qed

lemma find_SomeD: "find P xs = Some x \<Longrightarrow> x \<in> set xs \<and> P x"
  by (induction xs) (auto split: if_splits)

lemma find_child_live:
  assumes t: "tree s ch" and d: "live_node s d"
  shows "\<exists>r. find_child s d c = Some r"
    and "find_child s d c = Some (Some e) \<Longrightarrow> e \<in> set (ch d) \<and> seq_ci (name (nd s e)) c \<and> live_node s e"
  using find_child_spec [OF t d, of c] shapeD(3) [OF treeD(1) [OF t], of _ d] by (auto dest!: find_SomeD)

lemma resolve_comps_total:
  assumes t: "tree s ch"
  shows "live_node s d \<Longrightarrow> \<exists>r. resolve_comps s d cs = Some r \<and> (\<forall>n. r = Some n \<longrightarrow> live_node s n)"
proof (induction cs arbitrary: d)
  case (Cons c cs)
  obtain r where r: "find_child s d c = Some r" using find_child_live(1) [OF t Cons.prems] by blast
  show ?case
  proof (cases r)
    case (Some e)
    then show ?thesis using r Cons.IH [of e] find_child_live(2) [OF t Cons.prems, of c e] by auto
  qed (use r in simp)
qed simp

lemma resolve_total:
  assumes t: "tree s ch"
  shows "\<exists>r. RamFS_Resolve s vol path = Some r \<and> (\<forall>n. r = Some n \<longrightarrow> live_node s n)"
proof (cases vol)
  case (Some v)
  show ?thesis
  proof (cases "valid (g_vols s v)")
    case True
    then have "live_node s (root (g_vols s v))" using shapeD(7) [OF treeD(1) [OF t]] by simp
    from resolve_comps_total [OF t this] show ?thesis
      using True Some by (simp add: RamFS_Resolve_def resolve_from_comps)
  qed (use Some in \<open>simp add: RamFS_Resolve_def\<close>)
qed (simp add: RamFS_Resolve_def)

lemma walk_parent_total:
  assumes t: "tree s ch"
  shows "ntype (nd s d) = RAMFS_TYPE_DIR \<Longrightarrow> leaf = [] \<or> name_ok leaf \<Longrightarrow>
    \<exists>r. walk_parent s d leaf p = Some r \<and>
      (\<forall>e l. r = Some (e, l) \<longrightarrow> ntype (nd s e) = RAMFS_TYPE_DIR \<and> (l = [] \<or> name_ok l))"
  using t
proof (induction s d leaf p rule: walk_parent.induct)
  case (1 s d leaf p)
  show ?case
  proof (cases "next_component p")
    case None
    then show ?thesis using 1 by (subst walk_parent.simps) auto
  next
    case (Some q)
    obtain cn rest where q: "next_component p = Some (cn, rest)" using Some by (cases q) auto
    have cn: "name_ok cn" "scopy cn RAMFS_MAX_NAME = cn" using next_component_name [OF q] scopy_name by auto
    show ?thesis
    proof (cases "rest = []")
      case True
      then show ?thesis using 1(1) [OF q refl] 1(3,5) q cn by (subst walk_parent.simps) auto
    next
      case False
      obtain r where r: "find_child s d cn = Some r" using find_child_live(1) [OF 1(5)] 1(3) by (metis live_nodeI(1))
      show ?thesis
      proof (cases "\<exists>e. r = Some e \<and> ntype (nd s e) = RAMFS_TYPE_DIR")
        case True
        then obtain e where e: "r = Some e" "ntype (nd s e) = RAMFS_TYPE_DIR" by blast
        then show ?thesis using 1(2) [OF q refl False r e(1)] q cn False r 1(5) by (subst walk_parent.simps) auto
      next
        case f: False
        then show ?thesis using q False r by (subst walk_parent.simps) (auto split: option.splits)
      qed
    qed
  qed
qed

text \<open>A clean path (no empty component) resolves to the leaf in the directory the walk ends in.\<close>

lemma walk_resolve:
  assumes "walk_parent s d l p = Some (Some (dir, leaf))" "path_rest p = []" "comps p \<noteq> []"
  shows "resolve_comps s d (comps p) = find_child s dir leaf"
  using assms
proof (induction s d l p rule: walk_parent.induct)
  case (1 s d l p)
  obtain cn rest where q: "next_component p = Some (cn, rest)"
    using 1(5) by (subst (asm) comps.simps) (auto split: option.splits)
  have cn: "scopy cn RAMFS_MAX_NAME = cn" using next_component_name [OF q] scopy_name by auto
  have c: "comps p = cn # comps rest" "path_rest rest = []"
    using 1(4) q by (simp_all add: comps.simps [of p] path_rest.simps [of p])
  show ?case
  proof (cases "rest = []")
    case True
    then have "dir = d" "leaf = cn"
      using 1(3) q cn by (subst (asm) walk_parent.simps, simp, subst (asm) walk_parent.simps, simp)+
    then show ?thesis using True c(1) by (cases "find_child s d cn") (auto split: option.splits)
  next
    case False
    then obtain e where e: "find_child s d cn = Some (Some e)" "ntype (nd s e) = RAMFS_TYPE_DIR"
      "walk_parent s e cn rest = Some (Some (dir, leaf))"
      using 1(3) q cn by (subst (asm) walk_parent.simps) (auto split: option.splits if_splits)
    have "comps rest \<noteq> []" using c(2) False by (auto simp: path_rest.simps [of rest] comps.simps [of rest] split: option.splits)
    then have "resolve_comps s e (comps rest) = find_child s dir leaf"
      using 1(2) [OF q refl False e(1) refl] e(2,3) c(2) cn by simp
    then show ?thesis using c(1) e(1) by simp
  qed
qed

lemma resolve_comps_mono:
  assumes "\<And>e c f. live_node s e \<Longrightarrow> find_child s e c = Some (Some f) \<Longrightarrow> find_child s' e c = Some (Some f)"
    and t: "tree s ch"
  shows "live_node s d \<Longrightarrow> resolve_comps s d cs = Some (Some n) \<Longrightarrow> resolve_comps s' d cs = Some (Some n)"
proof (induction cs arbitrary: d)
  case (Cons c cs)
  then obtain e where e: "find_child s d c = Some (Some e)" "resolve_comps s e cs = Some (Some n)"
    by (auto split: option.splits)
  then show ?case using Cons.IH [of e] assms(1) [OF Cons.prems(1) e(1)] find_child_live(2) [OF t Cons.prems(1) e(1)] by simp
qed simp

end
