(* ===== verification/RamFS_Files.thy ===== *)
theory RamFS_Files
  imports RamFS_Paths
begin

text \<open>
  File contents in the RAM file system: every file owns its pool buffer, writing one file leaves
  the others alone, and the buffers of the live files are exactly the live buffers of the pool.
  The proofs use the pool only through its contract (\<open>buffer_pool\<close>, interpretation \<open>fsp\<close>).
\<close>

section \<open>Ownership of buffers\<close>

definition files_ok :: "ramfs \<Rightarrow> (u32 \<Rightarrow> nat option) \<Rightarrow> bool" where
  "files_ok s L \<longleftrightarrow>
     (\<forall>n p. live_node s n \<longrightarrow> data (nd s n) = Some p \<longrightarrow> (\<exists>k. L p = Some k \<and> unat (alloc (nd s n)) \<le> k)) \<and>
     (\<forall>n m p. live_node s n \<longrightarrow> live_node s m \<longrightarrow> data (nd s n) = Some p \<longrightarrow> data (nd s m) = Some p \<longrightarrow> n = m) \<and>
     (\<forall>n. live_node s n \<longrightarrow> data (nd s n) = None \<longrightarrow> alloc (nd s n) = 0) \<and>
     (\<forall>n. live_node s n \<longrightarrow> ext_bdev (nd s n) = None \<longrightarrow> fsize (nd s n) \<le> alloc (nd s n)) \<and>
     (\<forall>p k. L p = Some k \<longrightarrow> (\<exists>n. live_node s n \<and> data (nd s n) = Some p))"

lemma files_okD:
  assumes "files_ok s L"
  shows "live_node s n \<Longrightarrow> data (nd s n) = Some p \<Longrightarrow> \<exists>k. L p = Some k \<and> unat (alloc (nd s n)) \<le> k"
    "live_node s n \<Longrightarrow> live_node s m \<Longrightarrow> data (nd s n) = Some p \<Longrightarrow> data (nd s m) = Some p \<Longrightarrow> n = m"
    "live_node s n \<Longrightarrow> data (nd s n) = None \<Longrightarrow> alloc (nd s n) = 0"
    "live_node s n \<Longrightarrow> ext_bdev (nd s n) = None \<Longrightarrow> fsize (nd s n) \<le> alloc (nd s n)"
    "L p = Some k \<Longrightarrow> \<exists>n. live_node s n \<and> data (nd s n) = Some p"
  using assms unfolding files_ok_def by blast+

definition contents :: "ramfs \<Rightarrow> nat \<Rightarrow> u8 list" where
  "contents s n =
     (case data (nd s n) of None \<Rightarrow> [] | Some p \<Rightarrow> pool_bytes (fpool s) p 0 (unat (fsize (nd s n))))"

lemma pool_bytes_at: "pool_bytes q p 0 n = fsp.bytes_at q p n"
  by (simp add: pool_bytes_def fsp.bytes_at_def)

lemma contents_length:
  assumes "files_ok s L" "live_node s n" "ext_bdev (nd s n) = None"
  shows "length (contents s n) = unat (fsize (nd s n))"
  using files_okD(3,4) [OF assms(1,2)] assms(3)
  by (cases "data (nd s n)") (auto simp: contents_def pool_bytes_def)

text \<open>Giving a file a new buffer.\<close>

lemma files_ok_realloc:
  assumes ok: "files_ok s L" and n: "live_node s n" and p: "L p = None" "unat want \<le> k"
    and sz: "ext_bdev (nd s n) = None \<Longrightarrow> fsize (nd s n) \<le> want"
  defines "L' \<equiv> (case data (nd s n) of None \<Rightarrow> L(p \<mapsto> k) | Some d \<Rightarrow> (L(p \<mapsto> k))(d := None))"
  shows "files_ok (upd_node n (\<lambda>x. x\<lparr>data := Some p, alloc := want\<rparr>) (s\<lparr>fpool := q\<rparr>)) L'"
proof -
  note F = files_okD [OF ok]
  let ?s = "upd_node n (\<lambda>x. x\<lparr>data := Some p, alloc := want\<rparr>) (s\<lparr>fpool := q\<rparr>)"
  have lv: "live_node ?s m = live_node s m" for m by (simp add: live_node_def)
  have pd: "data (nd s m) \<noteq> Some p" if "live_node s m" for m using F(1) [OF that] p(1) by fastforce
  have keep: "L' r = L r" if "live_node s m" "m \<noteq> n" "data (nd s m) = Some r" for m r
    using F(2) [OF n that(1)] that pd [OF that(1)] by (auto simp: L'_def split: option.splits)
  have own: "L' r = Some j \<Longrightarrow> r = p \<or> L r = Some j \<and> data (nd s n) \<noteq> Some r" for r j
    by (auto simp: L'_def split: option.splits if_splits)
  have Lp: "L' p = Some k" using pd [OF n] by (auto simp: L'_def split: option.splits)
  show ?thesis unfolding files_ok_def lv
  proof (intro conjI allI impI)
    show "\<exists>j. L' r = Some j \<and> unat (alloc (nd ?s m)) \<le> j" if "live_node s m" "data (nd ?s m) = Some r" for m r
      using that F(1) [of m r] keep [of m r] Lp p(2) by (cases "m = n") auto
    show "m = m'" if "live_node s m" "live_node s m'" "data (nd ?s m) = Some r" "data (nd ?s m') = Some r" for m m' r
      using that F(2) [of m m' r] pd by (auto split: if_splits)
    show "alloc (nd ?s m) = 0" if "live_node s m" "data (nd ?s m) = None" for m
      using that F(3) by (cases "m = n") auto
    show "fsize (nd ?s m) \<le> alloc (nd ?s m)" if "live_node s m" "ext_bdev (nd ?s m) = None" for m
      using that F(4) sz by (cases "m = n") auto
    show "\<exists>m. live_node s m \<and> data (nd ?s m) = Some r" if "L' r = Some j" for r j
    proof (cases "r = p")
      case True
      then show ?thesis using n by (intro exI [of _ n]) simp
    next
      case False
      then have "L r = Some j" "data (nd s n) \<noteq> Some r" using own [OF that] by auto
      then obtain m where "live_node s m" "data (nd s m) = Some r" "m \<noteq> n" using F(5) by blast
      then show ?thesis by (intro exI [of _ m]) simp
    qed
  qed
qed

text \<open>Updates of fields that neither the tree nor the ownership depends on.\<close>

lemma files_ok_same:
  assumes "files_ok s L" and "\<And>n. live_node s' n = live_node s n" "\<And>n. data (nd s' n) = data (nd s n)"
    "\<And>n. alloc (nd s' n) = alloc (nd s n)" "\<And>n. ext_bdev (nd s' n) = ext_bdev (nd s n)"
    "\<And>n. live_node s n \<Longrightarrow> ext_bdev (nd s n) = None \<Longrightarrow> fsize (nd s' n) \<le> alloc (nd s n)"
  shows "files_ok s' L"
  using files_okD [OF assms(1)] unfolding files_ok_def assms(2-5) by (intro conjI allI impI) (use assms(6) in blast)+

lemma realloc_pool:
  assumes L: "pool_live q L" and want: "want \<noteq> 0" "unat want \<le> 2 ^ 32 - 2 ^ 24"
    and old: "\<And>d. old = Some d \<Longrightarrow> \<exists>j. L d = Some j"
  shows "\<exists>r q'. RamFS_AllocPool want q = Some (r, q') \<and>
    (case r of
       None \<Rightarrow> q' = q
     | Some p \<Rightarrow> L p = None \<and> (\<forall>vs. length vs \<le> unat want \<longrightarrow>
         (\<exists>k q''. unat want \<le> k \<and> RamFS_FreePool old (copy_in (unat p) vs q') = Some q'' \<and>
            pool_live q'' (case old of None \<Rightarrow> L(p \<mapsto> k) | Some d \<Rightarrow> (L(p \<mapsto> k))(d := None)) \<and>
            pool_bytes q'' p 0 (length vs) = vs \<and>
            (\<forall>r j i. L r = Some j \<longrightarrow> i \<le> j \<longrightarrow> pool_bytes q'' r 0 i = pool_bytes q r 0 i))) \<and>
         (\<forall>r j i. L r = Some j \<longrightarrow> i \<le> j \<longrightarrow> pool_bytes q' r 0 i = pool_bytes q r 0 i))"
proof -
  obtain r q' where q': "RamFS_AllocPool want q = Some (r, q')"
    "case r of None \<Rightarrow> q' = q | Some p \<Rightarrow> L p = None \<and> (\<exists>n\<ge>unat want. pool_live q' (L(p \<mapsto> n)))"
    "\<forall>r j i. L r = Some j \<longrightarrow> i < j \<longrightarrow> pool_byte q' (unat r + i) = pool_byte q (unat r + i)"
    using fsp.alloc_law [OF L want] by blast
  have b1: "pool_bytes q' r 0 i = pool_bytes q r 0 i" if "L r = Some j" "i \<le> j" for r j i
    using q'(3) that by (auto simp: pool_bytes_def)
  show ?thesis
  proof (cases r)
    case None
    then show ?thesis using q' by auto
  next
    case (Some p)
    then obtain k where p: "L p = None" "unat want \<le> k" and L1: "pool_live q' (L(p \<mapsto> k))" using q'(2) by auto
    have "\<exists>k q''. unat want \<le> k \<and> RamFS_FreePool old (copy_in (unat p) vs q') = Some q'' \<and>
        pool_live q'' (case old of None \<Rightarrow> L(p \<mapsto> k) | Some d \<Rightarrow> (L(p \<mapsto> k))(d := None)) \<and>
        pool_bytes q'' p 0 (length vs) = vs \<and>
        (\<forall>r j i. L r = Some j \<longrightarrow> i \<le> j \<longrightarrow> pool_bytes q'' r 0 i = pool_bytes q r 0 i)"
      if vs: "length vs \<le> unat want" for vs
    proof -
      define q2 where "q2 = copy_in (unat p) vs q'"
      have L2: "pool_live q2 (L(p \<mapsto> k))" unfolding q2_def using p vs fsp.copy_rep [OF L1, of p k 0] by simp
      have b2: "pool_bytes q2 r 0 i = pool_bytes q r 0 i" if "L r = Some j" "i \<le> j" for r j i
        using fsp.copy_other_bytes [OF L1, of p k r j 0 vs i] that p vs b1 [OF that]
        by (cases "p = r") (auto simp: q2_def pool_bytes_at)
      have c2: "pool_bytes q2 p 0 (length vs) = vs" using fsp.copy_same by (simp add: q2_def pool_bytes_at)
      show ?thesis
      proof (cases old)
        case None
        then show ?thesis using L2 b2 c2 p(2) fsp.release_null [of q2]
          by (intro exI [of _ k] exI [of _ q2]) (simp add: q2_def)
      next
        case (Some d)
        then obtain j where j: "L d = Some j" using old by blast
        have dp: "d \<noteq> p" using j p(1) by auto
        then have Ld: "(L(p \<mapsto> k)) d = Some j" using j by simp
        obtain q3 where q3: "RamFS_FreePool (Some d) q2 = Some q3" "pool_live q3 ((L(p \<mapsto> k))(d := None))"
          "\<forall>r j i. (L(p \<mapsto> k)) r = Some j \<longrightarrow> i < j \<longrightarrow> pool_byte q3 (unat r + i) = pool_byte q2 (unat r + i)"
          using fsp.release_law [OF L2 Ld] by blast
        have b3: "pool_bytes q3 r 0 i = pool_bytes q2 r 0 i" if "(L(p \<mapsto> k)) r = Some j" "i \<le> j" for r j i
          using q3(3) that by (auto simp: pool_bytes_def)
        have "pool_bytes q3 r 0 i = pool_bytes q r 0 i" if "L r = Some j" "i \<le> j" for r j i
          using b3 [of r j i] b2 [OF that] that p(1) by (cases "r = p") auto
        moreover have "pool_bytes q3 p 0 (length vs) = vs" using b3 [of p k "length vs"] c2 vs p(2) by simp
        ultimately show ?thesis using Some q3(1,2) p(2) by (intro exI [of _ k] exI [of _ q3]) (simp add: q2_def)
      qed
    qed
    then show ?thesis using q'(1) Some p(1) b1 by auto
  qed
qed


section \<open>Writing\<close>

definition fs_inv :: "ramfs \<Rightarrow> (nat \<Rightarrow> nat list) \<Rightarrow> (u32 \<Rightarrow> nat option) \<Rightarrow> bool" where
  "fs_inv s ch L \<longleftrightarrow> tree s ch \<and> pool_live (fpool s) L \<and> files_ok s L"

lemma fs_invD:
  assumes "fs_inv s ch L"
  shows "tree s ch" "pool_live (fpool s) L" "files_ok s L" "shape s ch"
  using assms treeD(1) by (auto simp: fs_inv_def)

text \<open>Writing into the buffer a file already has.\<close>

lemma contents_poke:
  assumes L: "pool_live (fpool s) L" and ok: "files_ok s L" and n: "live_node s n" "data (nd s n) = Some p"
    and len: "off + length vs \<le> unat (alloc (nd s n))"
    and s': "s' = upd_node n (\<lambda>x. x\<lparr>fsize := sz, mtime := t x\<rparr>) (s\<lparr>fpool := copy_in (unat p + off) vs (fpool s)\<rparr>)"
  shows "pool_live (fpool s') L"
    and "m \<noteq> n \<Longrightarrow> live_node s m \<Longrightarrow> ext_bdev (nd s m) = None \<Longrightarrow> contents s' m = contents s m"
    and "pool_bytes (fpool s') p 0 i = map (\<lambda>j. if off \<le> j \<and> j < off + length vs then vs ! (j - off)
           else pool_byte (fpool s) (unat p + j)) [0..<i]"
proof -
  obtain k where k: "L p = Some k" "unat (alloc (nd s n)) \<le> k" using files_okD(1) [OF ok n] by blast
  show "pool_live (fpool s') L" unfolding s' using fsp.copy_rep [OF L k(1), of off vs] len k(2) by simp
  show "pool_bytes (fpool s') p 0 i = map (\<lambda>j. if off \<le> j \<and> j < off + length vs then vs ! (j - off)
      else pool_byte (fpool s) (unat p + j)) [0..<i]"
    by (auto simp: s' pool_bytes_def byte_copy_in)
  assume m: "m \<noteq> n" "live_node s m" "ext_bdev (nd s m) = None"
  show "contents s' m = contents s m"
  proof (cases "data (nd s m)")
    case (Some r)
    obtain j where j: "L r = Some j" "unat (alloc (nd s m)) \<le> j" using files_okD(1) [OF ok m(2) Some] by blast
    have "r \<noteq> p" using files_okD(2) [OF ok m(2) n(1) Some] n(2) m(1) by auto
    then have "pool_byte (fpool s') (unat r + i) = pool_byte (fpool s) (unat r + i)"
      if "i < unat (fsize (nd s m))" for i
      using that fsp.copy_other [OF L k(1) j(1), of off vs i] files_okD(4) [OF ok m(2,3)] j(2) k(2) len
      by (auto simp: s' word_le_nat_alt)
    then show ?thesis using m(1) Some by (auto simp: contents_def pool_bytes_def s')
  qed (use m in \<open>simp add: contents_def s'\<close>)
qed

text \<open>What a write may change: the contents and the data fields of one node.\<close>

definition writes_only :: "nat \<Rightarrow> ramfs \<Rightarrow> ramfs \<Rightarrow> bool" where
  "writes_only n s s' \<longleftrightarrow> same_tree s s' \<and> g_vols s' = g_vols s \<and>
     (\<forall>m. m \<noteq> n \<longrightarrow> nd s' m = nd s m) \<and> ext_bdev (nd s' n) = ext_bdev (nd s n) \<and>
     (\<forall>m. m \<noteq> n \<longrightarrow> live_node s m \<longrightarrow> ext_bdev (nd s m) = None \<longrightarrow> contents s' m = contents s m)"

lemma writes_only_refl: "writes_only n s s"
  by (simp add: writes_only_def same_tree_def)

lemma writes_only_trans: "writes_only n s s' \<Longrightarrow> writes_only n s' s'' \<Longrightarrow> writes_only n s s''"
  by (auto simp: writes_only_def same_tree_def live_node_def)

lemma same_tree_live: "same_tree s s' \<Longrightarrow> live_node s' n = live_node s n"
  by (simp add: same_tree_def live_node_def)

text \<open>The reallocation both \<open>RamFS_Write\<close> and \<open>VFS_Write\<close> do, with the bytes \<open>vs\<close> copied over.\<close>

lemma realloc_file:
  assumes inv: "fs_inv s ch L" and n: "live_node s n" "ext_bdev (nd s n) = None"
    and want: "want \<noteq> 0" "unat want \<le> 2 ^ 32 - 2 ^ 24" "fsize (nd s n) \<le> want"
  obtains r q' where "RamFS_AllocPool want (fpool s) = Some (r, q')"
    "r = None \<Longrightarrow> q' = fpool s"
    "\<And>p. r = Some p \<Longrightarrow> contents (s\<lparr>fpool := q'\<rparr>) n = contents s n"
    "\<And>p vs. r = Some p \<Longrightarrow> length vs \<le> unat want \<Longrightarrow>
       \<exists>q'' L'. RamFS_FreePool (data (nd s n)) (copy_in (unat p) vs q') = Some q'' \<and>
         (let s' = upd_node n (\<lambda>x. x\<lparr>data := Some p, alloc := want\<rparr>) (s\<lparr>fpool := q''\<rparr>)
          in fs_inv s' ch L' \<and> writes_only n s s' \<and> pool_bytes q'' p 0 (length vs) = vs)"
proof -
  note I = fs_invD [OF inv] and F = files_okD [OF fs_invD(3) [OF inv]]
  have old: "\<exists>j. L d = Some j" if "data (nd s n) = Some d" for d using F(1) [OF n(1) that] by blast
  obtain r q' where q': "RamFS_AllocPool want (fpool s) = Some (r, q')"
    "case r of
       None \<Rightarrow> q' = fpool s
     | Some p \<Rightarrow> L p = None \<and> (\<forall>vs. length vs \<le> unat want \<longrightarrow>
         (\<exists>k q''. unat want \<le> k \<and> RamFS_FreePool (data (nd s n)) (copy_in (unat p) vs q') = Some q'' \<and>
            pool_live q'' (case data (nd s n) of None \<Rightarrow> L(p \<mapsto> k) | Some d \<Rightarrow> (L(p \<mapsto> k))(d := None)) \<and>
            pool_bytes q'' p 0 (length vs) = vs \<and>
            (\<forall>r j i. L r = Some j \<longrightarrow> i \<le> j \<longrightarrow> pool_bytes q'' r 0 i = pool_bytes (fpool s) r 0 i))) \<and>
         (\<forall>r j i. L r = Some j \<longrightarrow> i \<le> j \<longrightarrow> pool_bytes q' r 0 i = pool_bytes (fpool s) r 0 i)"
    using realloc_pool [OF I(2) want(1,2) old] by blast
  have size: "\<exists>j. L d = Some j \<and> unat (fsize (nd s m)) \<le> j"
    if "live_node s m" "ext_bdev (nd s m) = None" "data (nd s m) = Some d" for m d
    using F(1) [OF that(1,3)] F(4) [OF that(1,2)] by (auto simp: word_le_nat_alt)
  show ?thesis
  proof (rule that [OF q'(1)])
    show "r = None \<Longrightarrow> q' = fpool s" using q'(2) by simp
    show "contents (s\<lparr>fpool := q'\<rparr>) n = contents s n" if "r = Some p" for p
      using q'(2) that size [OF n] by (auto simp: contents_def split: option.splits)
    fix p and vs :: "u8 list" assume p: "r = Some p" and vs: "length vs \<le> unat want"
    obtain k q'' where q'': "unat want \<le> k" "L p = None" "RamFS_FreePool (data (nd s n)) (copy_in (unat p) vs q') = Some q''"
      "pool_live q'' (case data (nd s n) of None \<Rightarrow> L(p \<mapsto> k) | Some d \<Rightarrow> (L(p \<mapsto> k))(d := None))"
      "pool_bytes q'' p 0 (length vs) = vs"
      "\<forall>r j i. L r = Some j \<longrightarrow> i \<le> j \<longrightarrow> pool_bytes q'' r 0 i = pool_bytes (fpool s) r 0 i"
      using q'(2) p vs by auto
    let ?s = "upd_node n (\<lambda>x. x\<lparr>data := Some p, alloc := want\<rparr>) (s\<lparr>fpool := q''\<rparr>)"
    have st: "same_tree s ?s" by (simp add: same_tree_def)
    have "files_ok ?s (case data (nd s n) of None \<Rightarrow> L(p \<mapsto> k) | Some d \<Rightarrow> (L(p \<mapsto> k))(d := None))"
      by (rule files_ok_realloc [OF I(3) n(1) q''(2,1)]) (rule want(3))
    then have "fs_inv ?s ch (case data (nd s n) of None \<Rightarrow> L(p \<mapsto> k) | Some d \<Rightarrow> (L(p \<mapsto> k))(d := None))"
      using tree_same [OF st I(1)] q''(4) by (simp add: fs_inv_def)
    moreover have "contents ?s m = contents s m" if "m \<noteq> n" "live_node s m" "ext_bdev (nd s m) = None" for m
      using size [OF that(2,3)] q''(6) that(1) by (auto simp: contents_def split: option.splits)
    then have "writes_only n s ?s" using st by (simp add: writes_only_def)
    ultimately show "\<exists>q'' L'. RamFS_FreePool (data (nd s n)) (copy_in (unat p) vs q') = Some q'' \<and>
         (let s' = upd_node n (\<lambda>x. x\<lparr>data := Some p, alloc := want\<rparr>) (s\<lparr>fpool := q''\<rparr>)
          in fs_inv s' ch L' \<and> writes_only n s s' \<and> pool_bytes q'' p 0 (length vs) = vs)"
      using q''(3,5) unfolding Let_def by blast
  qed
qed

lemma fs_inv_poke:
  assumes inv: "fs_inv s ch L" and n: "live_node s n" "data (nd s n) = Some p" "ext_bdev (nd s n) = None"
    and len: "off + length vs \<le> unat (alloc (nd s n))" and sz: "sz \<le> alloc (nd s n)"
    and s': "s' = upd_node n (\<lambda>x. x\<lparr>fsize := sz, mtime := t x\<rparr>) (s\<lparr>fpool := copy_in (unat p + off) vs (fpool s)\<rparr>)"
  shows "fs_inv s' ch L" "writes_only n s s'"
    "contents s' n = map (\<lambda>j. if off \<le> j \<and> j < off + length vs then vs ! (j - off)
       else pool_byte (fpool s) (unat p + j)) [0..<unat sz]"
proof -
  note I = fs_invD [OF inv]
  note P = contents_poke [OF I(2,3) n(1,2) len s']
  have st: "same_tree s s'" by (simp add: s' same_tree_def)
  have "files_ok s' L"
    by (rule files_ok_same [OF I(3)])
      (use sz files_okD(4) [OF I(3)] same_tree_live [OF st] in \<open>auto simp: s'\<close>)
  then show "fs_inv s' ch L" using P(1) tree_same [OF st I(1)] by (simp add: fs_inv_def)
  show "writes_only n s s'" using st P(2) by (simp add: writes_only_def s')
  show "contents s' n = map (\<lambda>j. if off \<le> j \<and> j < off + length vs then vs ! (j - off)
       else pool_byte (fpool s) (unat p + j)) [0..<unat sz]"
    using P(3) [of "unat sz"] n(2) by (simp add: contents_def s')
qed

lemma file_has_buffer:
  assumes "fs_inv s ch L" "live_node s n" "x < alloc (nd s n)"
  shows "\<exists>p. data (nd s n) = Some p"
  using files_okD(3) [OF fs_invD(3) [OF assms(1)] assms(2)] assms(3) by (cases "data (nd s n)") auto

lemma RamFS_Write_spec:
  assumes inv: "fs_inv s ch L" and n: "ntype (nd s n) = RAMFS_TYPE_FILE" "ext_bdev (nd s n) = None"
    and len: "length bytes = unat len" "unat len \<le> 2 ^ 32 - 2 ^ 24"
  shows "\<exists>rc s' L'. RamFS_Write now (Some n) bytes len s = Some (rc, s') \<and> fs_inv s' ch L' \<and> writes_only n s s' \<and>
    (if rc = 0 then contents s' n = bytes else s' = s)"
proof -
  note I = fs_invD [OF inv]
  have lv: "live_node s n" using n(1) by simp
  obtain ro where ro: "node_vol_read_only s n = Some ro" using read_only_total [OF I(4) lv] by blast
  show ?thesis
  proof (cases "attrs (nd s n) AND RAMFS_ATTR_READONLY \<noteq> 0 \<or> ro")
    case True
    then show ?thesis using inv n ro writes_only_refl by (auto simp: RamFS_Write_def)
  next
    case wr: False
    show ?thesis
    proof (cases "len = 0")
      case True
      let ?s = "upd_node n (\<lambda>x. x\<lparr>fsize := 0\<rparr>) s"
      have st: "same_tree s ?s" by (simp add: same_tree_def)
      have "files_ok ?s L"
        by (rule files_ok_same [OF I(3)]) (use files_okD(4) [OF I(3)] same_tree_live [OF st] in auto)
      then have "fs_inv ?s ch L" using I(2) tree_same [OF st I(1)] by (simp add: fs_inv_def)
      moreover have "writes_only n s ?s" using st by (simp add: writes_only_def contents_def split: option.split)
      moreover have "contents ?s n = bytes"
        using len(1) True by (simp add: contents_def pool_bytes_def split: option.split)
      ultimately show ?thesis using n ro wr True by (auto simp: RamFS_Write_def)
    next
      case nz: False
      have fin: ?thesis if W: "RamFS_Write now (Some n) bytes len s = Some (0, upd_node n (\<lambda>x. x\<lparr>fsize := len, mtime := now\<rparr>)
            (t\<lparr>fpool := copy_in (unat p) bytes (fpool t)\<rparr>))"
          "fs_inv t ch M" "writes_only n s t" "data (nd t n) = Some p" "len \<le> alloc (nd t n)" for t M p
      proof -
        have tl: "live_node t n" "ext_bdev (nd t n) = None"
          using same_tree_live lv n(2) that(3) by (auto simp: writes_only_def)
        let ?s = "upd_node n (\<lambda>x. x\<lparr>fsize := len, mtime := now\<rparr>) (t\<lparr>fpool := copy_in (unat p + 0) bytes (fpool t)\<rparr>)"
        note K = fs_inv_poke [OF that(2) tl(1) that(4) tl(2), of 0 bytes len ?s "\<lambda>_. now"]
        have c: "0 + length bytes \<le> unat (alloc (nd t n))" using that(5) len(1) by (simp add: word_le_nat_alt)
        have "contents ?s n = bytes" using K(3) [OF c that(5) refl] len(1)
          by (auto simp: list_eq_iff_nth_eq simp flip: atLeastLessThan_iff)
        then show ?thesis using W(1) K(1,2) [OF c that(5) refl] writes_only_trans [OF that(3)] by auto
      qed
      show ?thesis
      proof (cases "alloc (nd s n) < len")
        case True
        have sz: "fsize (nd s n) \<le> len" using files_okD(4) [OF I(3) lv n(2)] True by simp
        obtain r q' where R: "RamFS_AllocPool len (fpool s) = Some (r, q')" "r = None \<Longrightarrow> q' = fpool s"
          "\<And>p vs. r = Some p \<Longrightarrow> length vs \<le> unat len \<Longrightarrow>
             \<exists>q'' L'. RamFS_FreePool (data (nd s n)) (copy_in (unat p) vs q') = Some q'' \<and>
               (let s' = upd_node n (\<lambda>x. x\<lparr>data := Some p, alloc := len\<rparr>) (s\<lparr>fpool := q''\<rparr>)
                in fs_inv s' ch L' \<and> writes_only n s s' \<and> pool_bytes q'' p 0 (length vs) = vs)"
          using realloc_file [OF inv lv n(2) nz len(2) sz] by metis
        show ?thesis
        proof (cases r)
          case None
          then have "RamFS_Write now (Some n) bytes len s = Some (-1, s)"
            using n ro wr nz True R(1,2) by (simp add: RamFS_Write_def)
          then show ?thesis using inv writes_only_refl by auto
        next
          case (Some p)
          obtain q'' L' where q'': "RamFS_FreePool (data (nd s n)) (copy_in (unat p) [] q') = Some q''"
            and t: "fs_inv (upd_node n (\<lambda>x. x\<lparr>data := Some p, alloc := len\<rparr>) (s\<lparr>fpool := q''\<rparr>)) ch L'"
              "writes_only n s (upd_node n (\<lambda>x. x\<lparr>data := Some p, alloc := len\<rparr>) (s\<lparr>fpool := q''\<rparr>))"
            using R(3) [OF Some, of "[]"] by (auto simp: Let_def)
          show ?thesis
            by (rule fin [OF _ t, of p]) (use n ro wr nz True R(1) Some q'' len(1) in \<open>simp_all add: RamFS_Write_def Let_def\<close>)
        qed
      next
        case False
        obtain p where p: "data (nd s n) = Some p"
          using file_has_buffer [OF inv lv, of 0] False nz by (metis not_less word_neq_0_conv order_less_le_trans)
        show ?thesis
          by (rule fin [OF _ inv writes_only_refl p])
            (use n ro wr nz False p len(1) in \<open>simp_all add: RamFS_Write_def Let_def\<close>)
      qed
    qed
  qed
qed


definition overwrite :: "nat \<Rightarrow> 'a list \<Rightarrow> 'a list \<Rightarrow> 'a list" where
  "overwrite pos vs xs = take pos xs @ vs @ drop (pos + length vs) xs"

lemma vfs_grow_spec:
  assumes inv: "fs_inv s ch L" and n: "ntype (nd s n) = RAMFS_TYPE_FILE" "ext_bdev (nd s n) = None"
    and pos: "pos \<le> fsize (nd s n)" "len \<noteq> 0" "unat end1 = unat pos + unat len" "end1 \<le> RAMFS_MAX_FILESIZE"
  shows "\<exists>r s' L'. vfs_grow n pos len end1 s = Some (r, s') \<and> fs_inv s' ch L' \<and> writes_only n s s' \<and>
    contents s' n = contents s n \<and> fsize (nd s' n) = fsize (nd s n) \<and>
    (case r of None \<Rightarrow> s' = s | Some w \<Rightarrow> w \<le> len \<and> unat pos + unat w \<le> unat (alloc (nd s' n)))"
proof (cases "alloc (nd s n) < end1")
  case False
  then show ?thesis using inv writes_only_refl pos(3) by (auto simp: vfs_grow_def word_less_nat_alt)
next
  case True
  note I = fs_invD [OF inv]
  have lv: "live_node s n" using n(1) by simp
  define want where "want = vfs_want (alloc (nd s n)) end1"
  have fa: "fsize (nd s n) \<le> alloc (nd s n)" by (rule files_okD(4) [OF I(3) lv n(2)])
  have w: "end1 \<le> want" "want \<le> RAMFS_MAX_FILESIZE" using pos(4) by (auto simp: want_def vfs_want_def Let_def not_less)
  then have w': "want \<noteq> 0" "unat want \<le> 2 ^ 32 - 2 ^ 24" "fsize (nd s n) \<le> want"
    using True fa by (auto simp: RAMFS_MAX_FILESIZE_def word_le_nat_alt word_less_nat_alt)
  obtain r q' where R: "RamFS_AllocPool want (fpool s) = Some (r, q')" "r = None \<Longrightarrow> q' = fpool s"
    "\<And>p. r = Some p \<Longrightarrow> contents (s\<lparr>fpool := q'\<rparr>) n = contents s n"
    "\<And>p vs. r = Some p \<Longrightarrow> length vs \<le> unat want \<Longrightarrow>
       \<exists>q'' L'. RamFS_FreePool (data (nd s n)) (copy_in (unat p) vs q') = Some q'' \<and>
         (let s' = upd_node n (\<lambda>x. x\<lparr>data := Some p, alloc := want\<rparr>) (s\<lparr>fpool := q''\<rparr>)
          in fs_inv s' ch L' \<and> writes_only n s s' \<and> pool_bytes q'' p 0 (length vs) = vs)"
    using realloc_file [OF inv lv n(2) w'] by metis
  have g: "vfs_grow n pos len end1 s = (do {
      (buf, q) \<leftarrow> Some (r, q');
      (case buf of
         Some p \<Rightarrow>
           let q = (case data (nd s n) of
                      Some d \<Rightarrow> if fsize (nd s n) \<noteq> 0
                                then copy_in (unat p) (pool_bytes q d 0 (unat (fsize (nd s n)))) q else q
                    | None \<Rightarrow> q)
           in do {
             q \<leftarrow> RamFS_FreePool (data (nd s n)) q;
             Some (Some len, upd_node n (\<lambda>x. x\<lparr>data := Some p, alloc := want\<rparr>) (s\<lparr>fpool := q\<rparr>)) }
       | None \<Rightarrow>
           if pos \<ge> alloc (nd s n) then Some (None, s\<lparr>fpool := q\<rparr>)
           else Some (Some (alloc (nd s n) - pos), s\<lparr>fpool := q\<rparr>)) })"
    unfolding vfs_grow_def Let_def want_def [symmetric] using True R(1) by simp
  show ?thesis
  proof (cases r)
    case None
    show ?thesis
    proof (cases "alloc (nd s n) \<le> pos")
      case True
      then show ?thesis using g None R(2) inv writes_only_refl by (auto simp: Let_def)
    next
      case False
      then have "unat (alloc (nd s n) - pos) = unat (alloc (nd s n)) - unat pos" by (simp add: unat_sub)
      then show ?thesis using g None R(2) inv writes_only_refl False True pos(3)
        by (auto simp: Let_def word_le_nat_alt word_less_nat_alt)
    qed
  next
    case (Some p)
    have len: "length (contents s n) = unat (fsize (nd s n))" by (rule contents_length [OF I(3) lv n(2)])
    have q: "(case data (nd s n) of Some d \<Rightarrow> if fsize (nd s n) \<noteq> 0
        then copy_in (unat p) (pool_bytes q' d 0 (unat (fsize (nd s n)))) q' else q' | None \<Rightarrow> q') =
      copy_in (unat p) (contents s n) q'"
      using R(3) [OF Some] len
      by (cases "data (nd s n)"; cases "fsize (nd s n) = 0") (simp_all add: contents_def)
    have "length (contents s n) \<le> unat want" using len w'(3) by (simp add: word_le_nat_alt)
    from R(4) [OF Some this] obtain q'' L' where q'':
      "RamFS_FreePool (data (nd s n)) (copy_in (unat p) (contents s n) q') = Some q''"
      "fs_inv (upd_node n (\<lambda>x. x\<lparr>data := Some p, alloc := want\<rparr>) (s\<lparr>fpool := q''\<rparr>)) ch L'"
      "writes_only n s (upd_node n (\<lambda>x. x\<lparr>data := Some p, alloc := want\<rparr>) (s\<lparr>fpool := q''\<rparr>))"
      "pool_bytes q'' p 0 (length (contents s n)) = contents s n"
      by (auto simp: Let_def)
    let ?s = "upd_node n (\<lambda>x. x\<lparr>data := Some p, alloc := want\<rparr>) (s\<lparr>fpool := q''\<rparr>)"
    have "contents ?s n = contents s n" using q''(4) len by (simp add: contents_def [of ?s])
    moreover have "vfs_grow n pos len end1 s = Some (Some len, ?s)"
      unfolding g Some by (simp add: Let_def q q''(1))
    moreover have "unat pos + unat len \<le> unat (alloc (nd ?s n))" using w(1) pos(3) by (simp add: word_le_nat_alt)
    ultimately show ?thesis using q''(2,3) by (intro exI [of _ "Some len"] exI [of _ ?s] exI [of _ L']) simp
  qed
qed

lemma VFS_Write_spec:
  assumes inv: "fs_inv s ch L" and n: "ntype (nd s n) = RAMFS_TYPE_FILE" "ext_bdev (nd s n) = None"
    and fh: "fnode fh = Some n" "\<not> fnil fh" "fpos fh \<le> fsize (nd s n)" "fpos fh \<le> RAMFS_MAX_FILESIZE"
    and len: "length buf = unat len" "unat (fpos fh) + unat len < 2 ^ 32"
  shows "\<exists>w fh' s' L'. VFS_Write buf len fh s = Some (w, fh', s') \<and> fs_inv s' ch L' \<and> writes_only n s s' \<and>
    w \<le> len \<and> fh' = fh\<lparr>fpos := fpos fh + w\<rparr> \<and> fpos fh' \<le> fsize (nd s' n) \<and>
    contents s' n = overwrite (unat (fpos fh)) (take (unat w) buf) (contents s n)"
proof -
  note I = fs_invD [OF inv]
  have lv: "live_node s n" using n(1) by simp
  have lc: "length (contents s n) = unat (fsize (nd s n))" by (rule contents_length [OF I(3) lv n(2)])
  obtain ro where ro: "node_vol_read_only s n = Some ro" using read_only_total [OF I(4) lv] by blast
  let ?pos = "fpos fh"
  have triv: ?thesis if "VFS_Write buf len fh s = Some (0, fh, s)"
    using that inv writes_only_refl fh(3) by (auto simp: overwrite_def intro!: exI [of _ L])
  define len1 end1 where "len1 = (if ?pos + len > RAMFS_MAX_FILESIZE then RAMFS_MAX_FILESIZE - ?pos else len)"
    and "end1 = (if ?pos + len > RAMFS_MAX_FILESIZE then RAMFS_MAX_FILESIZE else ?pos + len)"
  have pr: "(if ?pos + len > RAMFS_MAX_FILESIZE then (RAMFS_MAX_FILESIZE - ?pos, RAMFS_MAX_FILESIZE) else (len, ?pos + len)) =
      (len1, end1)" by (simp add: len1_def end1_def)
  have e: "unat (?pos + len) = unat ?pos + unat len" using len(2) by (simp add: unat_word_ariths)
  have e1: "unat end1 = unat ?pos + unat len1" "end1 \<le> RAMFS_MAX_FILESIZE" "len1 \<le> len"
    using e fh(4) by (auto simp: len1_def end1_def unat_sub word_le_nat_alt word_less_nat_alt)
  show ?thesis
  proof (cases "ro \<or> len1 = 0")
    case True
    then show ?thesis using n fh ro by (intro triv) (auto simp: VFS_Write_def Let_def len1_def)
  next
    case False
    obtain r t M where t: "vfs_grow n ?pos len1 end1 s = Some (r, t)" "fs_inv t ch M" "writes_only n s t"
      "contents t n = contents s n" "fsize (nd t n) = fsize (nd s n)"
      "case r of None \<Rightarrow> t = s | Some w \<Rightarrow> w \<le> len1 \<and> unat ?pos + unat w \<le> unat (alloc (nd t n))"
      using vfs_grow_spec [OF inv n fh(3) _ e1(1,2)] False by blast
    have W: "VFS_Write buf len fh s = (do {
        (r, s) \<leftarrow> Some (r, t);
        (case r of
           None \<Rightarrow> Some (0, fh, s)
         | Some len \<Rightarrow>
             let s = (case data (nd s n) of
                        None \<Rightarrow> s
                      | Some p \<Rightarrow> s\<lparr>fpool := copy_in (unat p + unat ?pos) (take (unat len) buf) (fpool s)\<rparr>);
                 pos = ?pos + len;
                 s = (if pos > fsize (nd s n) then upd_node n (\<lambda>x. x\<lparr>fsize := pos\<rparr>) s else s)
             in Some (len, fh\<lparr>fpos := pos\<rparr>, s)) })"
      using n fh ro False t(1) by (simp add: VFS_Write_def Let_def pr split del: if_split)
    show ?thesis
    proof (cases r)
      case None
      then show ?thesis using W t(6) by (intro triv) simp
    next
      case (Some w)
      have w: "w \<le> len" "unat ?pos + unat w \<le> unat (alloc (nd t n))" using t(6) Some e1(3) by auto
      have tl: "live_node t n" "ext_bdev (nd t n) = None" "ntype (nd t n) = RAMFS_TYPE_FILE"
        using t(3) lv n by (auto simp: writes_only_def same_tree_def live_node_def)
      define sz where "sz = (if ?pos + w > fsize (nd s n) then ?pos + w else fsize (nd s n))"
      have pw: "unat (?pos + w) = unat ?pos + unat w"
        using w(1) len(2) by (simp add: unat_word_ariths word_le_nat_alt)
      have usz: "unat sz = max (unat ?pos + unat w) (unat (fsize (nd s n)))"
        by (auto simp: sz_def pw word_less_nat_alt)
      have sz: "sz \<le> alloc (nd t n)"
        using files_okD(4) [OF fs_invD(3) [OF t(2)] tl(1,2)] t(5) w(2) usz by (simp add: word_le_nat_alt)
      show ?thesis
      proof (cases "data (nd t n)")
        case None
        then have "alloc (nd t n) = 0" using files_okD(3) [OF fs_invD(3) [OF t(2)] tl(1)] by simp
        then have "w = 0" "?pos = 0" using w(2) by (auto simp: unat_eq_zero)
        then have "VFS_Write buf len fh s = Some (0, fh\<lparr>fpos := fpos fh\<rparr>, t)" using W Some None by (simp add: Let_def)
        then show ?thesis using t(2-5) fh(3) by (auto simp: overwrite_def intro!: exI [of _ M])
      next
        case (Some p)
        let ?vs = "take (unat w) buf"
        let ?s = "upd_node n (\<lambda>x. x\<lparr>fsize := sz, mtime := mtime x\<rparr>) (t\<lparr>fpool := copy_in (unat p + unat ?pos) ?vs (fpool t)\<rparr>)"
        have lw: "length ?vs = unat w" using len(1) w(1) by (simp add: word_le_nat_alt)
        have l2: "unat ?pos + length ?vs \<le> unat (alloc (nd t n))" using lw w(2) by simp
        note K = fs_inv_poke [OF t(2) tl(1) Some tl(2) l2 sz, of ?s mtime, OF refl]
        have "VFS_Write buf len fh s = Some (w, fh\<lparr>fpos := ?pos + w\<rparr>, ?s)"
          using W \<open>r = Some w\<close> Some by (simp add: Let_def sz_def upd_node_def flip: t(5))
        moreover have "contents ?s n = overwrite (unat ?pos) ?vs (contents s n)"
        proof (rule nth_equalityI)
          have c: "contents s n = map (\<lambda>j. pool_byte (fpool t) (unat p + j)) [0..<unat (fsize (nd s n))]"
            using t(4,5) Some by (simp add: contents_def pool_bytes_def)
          have pf: "unat ?pos \<le> unat (fsize (nd s n))" using fh(3) by (simp add: word_le_nat_alt)
          show l: "length (contents ?s n) = length (overwrite (unat ?pos) ?vs (contents s n))"
            using K(3) pf lc lw by (simp add: overwrite_def usz)
          fix j assume "j < length (contents ?s n)"
          then show "contents ?s n ! j = overwrite (unat ?pos) ?vs (contents s n) ! j"
            using pf lw unfolding K(3) by (auto simp: overwrite_def c usz nth_append)
        qed
        moreover have "?pos + w \<le> sz" by (auto simp: sz_def)
        ultimately show ?thesis using K(1,2) w(1) writes_only_trans [OF t(3)]
          by (intro exI [of _ w] exI [of _ "fh\<lparr>fpos := ?pos + w\<rparr>"] exI [of _ ?s] exI [of _ M]) simp
      qed
    qed
  qed
qed

end
