(* ===== verification/RamFS_Ops.thy ===== *)
theory RamFS_Ops
  imports RamFS_Files
begin

text \<open>
  The operations of the RAM file system that change the tree, on the full invariant: they
  terminate, preserve it and leave the contents of the other files alone.
\<close>

section \<open>Creating\<close>

text \<open>Every other file is untouched: same data fields and same bytes.\<close>

definition others_kept :: "nat set \<Rightarrow> ramfs \<Rightarrow> ramfs \<Rightarrow> bool" where
  "others_kept X s s' \<longleftrightarrow>
     (\<forall>m. m \<notin> X \<longrightarrow> live_node s m \<longrightarrow> ext_bdev (nd s m) = None \<longrightarrow>
        live_node s' m \<and> ext_bdev (nd s' m) = None \<and> contents s' m = contents s m)"

lemma others_kept_refl [simp]: "others_kept X s s" by (simp add: others_kept_def)

lemma others_kept_trans: "others_kept X s s' \<Longrightarrow> others_kept X s' s'' \<Longrightarrow> others_kept X s s''"
  by (simp add: others_kept_def)

lemma writes_only_kept: "writes_only n s s' \<Longrightarrow> others_kept {n} s s'"
  using same_tree_live by (auto simp: writes_only_def others_kept_def)

lemma contents_linkeq: "linkeq (nd s' m) (nd s m) \<Longrightarrow> fpool s' = fpool s \<Longrightarrow> contents s' m = contents s m"
  by (simp add: contents_def linkeqD split: option.split)

lemma fs_inv_new:
  assumes inv: "fs_inv s ch L" and d: "ntype (nd s d) = RAMFS_TYPE_DIR" and ty: "ty = RAMFS_TYPE_DIR \<or> ty = RAMFS_TYPE_FILE"
    and nm: "name_ok nm" "map lower nm \<notin> (\<lambda>c. map lower (name (nd s c))) ` set (ch d)"
  shows "\<exists>r s'. new_child ty now d nm s = Some (r, s') \<and> others_kept {} s s' \<and>
    (case r of None \<Rightarrow> s' = s
     | Some n \<Rightarrow> fs_inv s' (ch(d := ch d @ [n])) L \<and> ntype (nd s n) = RAMFS_TYPE_FREE \<and> ntype (nd s' n) = ty \<and>
         name (nd s' n) = nm \<and> contents s' n = [] \<and> ext_bdev (nd s' n) = None \<and> g_vols s' = g_vols s \<and>
         (\<forall>m. m \<noteq> n \<longrightarrow> linkeq (nd s' m) (nd s m)))"
proof -
  note I = fs_invD [OF inv] and F = files_okD [OF fs_invD(3) [OF inv]]
  obtain r s' where r: "new_child ty now d nm s = Some (r, s')"
    "case r of None \<Rightarrow> s' = s
     | Some n \<Rightarrow> ntype (nd s n) = RAMFS_TYPE_FREE \<and> tree s' (ch(d := ch d @ [n])) \<and>
         ntype (nd s' n) = ty \<and> name (nd s' n) = nm \<and> parent (nd s' n) = Some d \<and> data (nd s' n) = None \<and>
         alloc (nd s' n) = 0 \<and> fsize (nd s' n) = 0 \<and> ext_bdev (nd s' n) = None \<and>
         (\<forall>m. m \<noteq> n \<longrightarrow> linkeq (nd s' m) (nd s m)) \<and> g_vols s' = g_vols s \<and> fpool s' = fpool s"
    using new_child_tree [OF I(1) d ty nm] by blast
  show ?thesis
  proof (cases r)
    case (Some n)
    with r(2) have R: "ntype (nd s n) = RAMFS_TYPE_FREE" "tree s' (ch(d := ch d @ [n]))" "ntype (nd s' n) = ty"
      "name (nd s' n) = nm" "data (nd s' n) = None" "alloc (nd s' n) = 0" "fsize (nd s' n) = 0" "ext_bdev (nd s' n) = None"
      "\<And>m. m \<noteq> n \<Longrightarrow> linkeq (nd s' m) (nd s m)" "g_vols s' = g_vols s" "fpool s' = fpool s" by auto
    have lv: "live_node s' m = live_node s m" if "m \<noteq> n" for m using linkeqD(1) [OF R(9) [OF that]] by (simp add: live_node_def)
    have nl: "\<not> live_node s n" using R(1) by (simp add: live_node_def)
    have "files_ok s' L"
      unfolding files_ok_def
    proof (intro conjI allI impI)
      show "\<exists>k. L p = Some k \<and> unat (alloc (nd s' m)) \<le> k" if "live_node s' m" "data (nd s' m) = Some p" for m p
        using that R(5) F(1) [of m p] lv linkeqD(4,6) [OF R(9), of m] by (cases "m = n") auto
      show "m = m'" if "live_node s' m" "live_node s' m'" "data (nd s' m) = Some p" "data (nd s' m') = Some p" for m m' p
      proof -
        have "m \<noteq> n" "m' \<noteq> n" using that R(5) by auto
        then show ?thesis using that F(2) [of m m' p] lv linkeqD(4) [OF R(9)] by auto
      qed
      show "alloc (nd s' m) = 0" if "live_node s' m" "data (nd s' m) = None" for m
        using that R(6) F(3) [of m] lv linkeqD(4,6) [OF R(9), of m] by (cases "m = n") auto
      show "fsize (nd s' m) \<le> alloc (nd s' m)" if "live_node s' m" "ext_bdev (nd s' m) = None" for m
        using that R(6,7) F(4) [of m] lv linkeqD(5-7) [OF R(9), of m] by (cases "m = n") auto
      show "\<exists>m. live_node s' m \<and> data (nd s' m) = Some p" if "L p = Some k" for p k
        using F(5) [OF that] nl lv linkeqD(4) [OF R(9)] by metis
    qed
    then have "fs_inv s' (ch(d := ch d @ [n])) L" using R(2,11) I(2) by (simp add: fs_inv_def)
    moreover have "others_kept {} s s'"
      unfolding others_kept_def
    proof (intro allI impI)
      fix m assume m: "live_node s m" "ext_bdev (nd s m) = None"
      then have "m \<noteq> n" using nl by auto
      then show "live_node s' m \<and> ext_bdev (nd s' m) = None \<and> contents s' m = contents s m"
        using m lv linkeqD(7) [OF R(9)] contents_linkeq [OF R(9) R(11)] by simp
    qed
    moreover have "contents s' n = []" using R(5) by (simp add: contents_def)
    ultimately show ?thesis using r(1) Some R by (intro exI [of _ "Some n"] exI [of _ s']) simp
  qed (use r in auto)
qed

lemma RamFS_Create_spec:
  assumes inv: "fs_inv s ch L"
  shows "\<exists>r s' ch'. RamFS_Create now vol path s = Some (r, s') \<and> fs_inv s' ch' L \<and> g_vols s' = g_vols s \<and>
    (case r of None \<Rightarrow> s' = s
     | Some n \<Rightarrow> others_kept {n} s s' \<and> ntype (nd s' n) = RAMFS_TYPE_FILE \<and> contents s' n = [] \<and>
        (\<exists>v dir leaf. vol = Some v \<and> valid (g_vols s v) \<and> leaf \<noteq> [] \<and> ntype (nd s dir) = RAMFS_TYPE_DIR \<and>
           walk_parent s (root (g_vols s v)) [] (strip_path path) = Some (Some (dir, leaf)) \<and>
           (find_child s dir leaf = Some (Some n) \<and> ch' = ch \<and> same_tree s s' \<or>
            find_child s dir leaf = Some None \<and> ch' = ch(dir := ch dir @ [n]) \<and> name (nd s' n) = leaf \<and>
              ext_bdev (nd s' n) = None \<and> ntype (nd s n) = RAMFS_TYPE_FREE \<and>
              (\<forall>m. m \<noteq> n \<longrightarrow> linkeq (nd s' m) (nd s m)))))"
proof -
  note I = fs_invD [OF inv]
  have triv: ?thesis if "RamFS_Create now vol path s = Some (None, s)"
    using that inv by (intro exI [of _ None] exI [of _ s] exI [of _ ch]) simp
  show ?thesis
  proof (cases "\<exists>v. vol = Some v \<and> valid (g_vols s v) \<and> \<not> read_only (g_vols s v)")
    case False
    then show ?thesis by (intro triv) (auto simp: RamFS_Create_def split: option.splits)
  next
    case True
    then obtain v where v: "vol = Some v" "valid (g_vols s v)" "\<not> read_only (g_vols s v)" by blast
    have rt: "ntype (nd s (root (g_vols s v))) = RAMFS_TYPE_DIR" by (rule shapeD(7) [OF I(4) v(2)])
    obtain w where w: "walk_parent s (root (g_vols s v)) [] (strip_path path) = Some w"
      "\<forall>e l. w = Some (e, l) \<longrightarrow> ntype (nd s e) = RAMFS_TYPE_DIR \<and> (l = [] \<or> name_ok l)"
      using walk_parent_total [OF I(1) rt, of "[]" "strip_path path"] by blast
    show ?thesis
    proof (cases "\<exists>dir leaf. w = Some (dir, leaf) \<and> leaf \<noteq> []")
      case False
      then show ?thesis using v w(1) by (intro triv) (auto simp: RamFS_Create_def split: option.splits)
    next
      case True
      then obtain dir leaf where dl: "w = Some (dir, leaf)" "leaf \<noteq> []" by blast
      have d: "ntype (nd s dir) = RAMFS_TYPE_DIR" "name_ok leaf" using w(2) dl by auto
      define e where "e = find (\<lambda>n. seq_ci (name (nd s n)) leaf) (ch dir)"
      have fc: "find_child s dir leaf = Some e" unfolding e_def using d(1) by (intro find_child_spec [OF I(1)]) simp
      show ?thesis
      proof (cases e)
        case None
        have fresh: "map lower leaf \<notin> (\<lambda>c. map lower (name (nd s c))) ` set (ch dir)"
          by (rule find_None_fresh [OF None [unfolded e_def]])
        obtain r s' where N: "new_child RAMFS_TYPE_FILE now dir leaf s = Some (r, s')" "others_kept {} s s'"
          "case r of None \<Rightarrow> s' = s
           | Some n \<Rightarrow> fs_inv s' (ch(dir := ch dir @ [n])) L \<and> ntype (nd s n) = RAMFS_TYPE_FREE \<and>
               ntype (nd s' n) = RAMFS_TYPE_FILE \<and> name (nd s' n) = leaf \<and> contents s' n = [] \<and>
               ext_bdev (nd s' n) = None \<and> g_vols s' = g_vols s \<and> (\<forall>m. m \<noteq> n \<longrightarrow> linkeq (nd s' m) (nd s m))"
          using fs_inv_new [OF inv d(1) _ d(2) fresh, of RAMFS_TYPE_FILE now] by blast
        have c: "RamFS_Create now vol path s = Some (r, s')"
          using v w(1) dl fc None N(1) by (simp add: RamFS_Create_def)
        show ?thesis
        proof (cases r)
          case None
          then show ?thesis using c N(3) by (intro triv) simp
        next
          case (Some n)
          have "others_kept {n} s s'" using N(2) by (simp add: others_kept_def)
          then show ?thesis using c Some N(3) v w(1) dl d fc None
            by (intro exI [of _ "Some n"] exI [of _ s'] exI [of _ "ch(dir := ch dir @ [n])"]) auto
        qed
      next
        case (Some n)
        show ?thesis
        proof (cases "ntype (nd s n) = RAMFS_TYPE_FILE")
          case False
          then show ?thesis using v w(1) dl fc Some by (intro triv) (simp add: RamFS_Create_def)
        next
          case True
          let ?s = "upd_node n (\<lambda>x. x\<lparr>fsize := 0, mtime := now\<rparr>) s"
          have c: "RamFS_Create now vol path s = Some (Some n, ?s)"
            using v w(1) dl fc Some True by (simp add: RamFS_Create_def)
          have st: "same_tree s ?s" by (simp add: same_tree_def)
          have "files_ok ?s L"
            by (rule files_ok_same [OF I(3)]) (use files_okD(4) [OF I(3)] same_tree_live [OF st] in auto)
          then have "fs_inv ?s ch L" using I(2) tree_same [OF st I(1)] by (simp add: fs_inv_def)
          moreover have "contents ?s n = []" by (simp add: contents_def pool_bytes_def split: option.split)
          moreover have "others_kept {n} s ?s"
            using same_tree_live [OF st] by (auto simp: others_kept_def contents_def split: option.splits)
          ultimately show ?thesis using c st True v w(1) dl d fc Some
            by (intro exI [of _ "Some n"] exI [of _ ?s] exI [of _ ch]) auto
        qed
      qed
    qed
  qed
qed


section \<open>Deleting\<close>

lemma first_child_None:
  assumes "tree s ch" "live_node s n"
  shows "first_child (nd s n) = None \<longleftrightarrow> ch n = []"
  using treeD(2) [OF assms] by (cases "ch n") auto

text \<open>The common part of \<open>RamFS_Delete\<close> and of overwriting in \<open>RamFS_Rename\<close>: release the buffer,
  unlink, and mark the node free.\<close>

lemma fs_inv_remove:
  assumes inv: "fs_inv s ch L" and n: "n \<in> set (ch d)" "ch n = []" and f: "\<And>x. ntype (f x) = RAMFS_TYPE_FREE"
  shows "\<exists>q s1 L'. RamFS_FreePool (data (nd s n)) (fpool s) = Some q \<and>
    dir_remove_child d n (s\<lparr>fpool := q\<rparr>) = Some s1 \<and> fs_inv (upd_node n f s1) (ch(d := remove1 n (ch d))) L' \<and>
    others_kept {n} s (upd_node n f s1) \<and> (\<forall>m. linkeq (nd s1 m) (nd s m)) \<and> g_vols s1 = g_vols s"
proof -
  note I = fs_invD [OF inv] and F = files_okD [OF fs_invD(3) [OF inv]]
  have lv: "live_node s n" using shapeD(3) [OF I(4), of n d] n(1) by simp
  define L' where "L' = (case data (nd s n) of None \<Rightarrow> L | Some p \<Rightarrow> L(p := None))"
  obtain q where q: "RamFS_FreePool (data (nd s n)) (fpool s) = Some q" "pool_live q L'"
    "\<forall>r j i. L r = Some j \<longrightarrow> i < j \<longrightarrow> pool_byte q (unat r + i) = pool_byte (fpool s) (unat r + i)"
  proof (cases "data (nd s n)")
    case None
    then show ?thesis using that [of "fpool s"] I(2) fsp.release_null by (simp add: L'_def)
  next
    case (Some p)
    then obtain k where "L p = Some k" using F(1) [OF lv] by blast
    from fsp.release_law [OF I(2) this] show ?thesis using that Some by (auto simp: L'_def)
  qed
  let ?s0 = "s\<lparr>fpool := q\<rparr>"
  have t0: "tree ?s0 ch" by (rule tree_same [OF _ I(1)]) (simp add: same_tree_def)
  obtain s1 where s1: "dir_remove_child d n ?s0 = Some s1" "tree (upd_node n f s1) (ch(d := remove1 n (ch d)))"
    "\<forall>m. linkeq (nd s1 m) (nd ?s0 m)" "g_vols s1 = g_vols ?s0" "fpool s1 = fpool ?s0"
    using remove_child_tree [OF t0 n, of f] f by blast
  let ?s = "upd_node n f s1"
  have lq: "linkeq (nd ?s m) (nd s m)" if "m \<noteq> n" for m using s1(3) that by simp
  have ln: "\<not> live_node ?s n" by (simp add: live_node_def f)
  have lo: "live_node ?s m = live_node s m" if "m \<noteq> n" for m using linkeqD(1) [OF lq [OF that]] by (simp add: live_node_def)
  have pk: "L' p = L p" if "live_node s m" "m \<noteq> n" "data (nd s m) = Some p" for m p
    using F(2) [OF that(1) lv that(3)] that(2) by (auto simp: L'_def split: option.splits)
  have "files_ok ?s L'"
    unfolding files_ok_def
  proof (intro conjI allI impI)
    show "\<exists>k. L' p = Some k \<and> unat (alloc (nd ?s m)) \<le> k" if "live_node ?s m" "data (nd ?s m) = Some p" for m p
    proof -
      have "m \<noteq> n" using ln that(1) by auto
      then show ?thesis using that F(1) [of m p] lo pk [of m p] linkeqD(4,6) [OF lq] by auto
    qed
    show "m = m'" if "live_node ?s m" "live_node ?s m'" "data (nd ?s m) = Some p" "data (nd ?s m') = Some p" for m m' p
    proof -
      have "m \<noteq> n" "m' \<noteq> n" using ln that(1,2) by auto
      then show ?thesis using that F(2) [of m m' p] lo linkeqD(4) [OF lq] by auto
    qed
    show "alloc (nd ?s m) = 0" if "live_node ?s m" "data (nd ?s m) = None" for m
    proof -
      have "m \<noteq> n" using ln that(1) by auto
      then show ?thesis using that F(3) [of m] lo linkeqD(4,6) [OF lq] by auto
    qed
    show "fsize (nd ?s m) \<le> alloc (nd ?s m)" if "live_node ?s m" "ext_bdev (nd ?s m) = None" for m
    proof -
      have "m \<noteq> n" using ln that(1) by auto
      then show ?thesis using that F(4) [of m] lo linkeqD(5-7) [OF lq] by auto
    qed
    show "\<exists>m. live_node ?s m \<and> data (nd ?s m) = Some p" if "L' p = Some k" for p k
    proof -
      have "L p = Some k" "data (nd s n) \<noteq> Some p" using that by (auto simp: L'_def split: option.splits if_splits)
      then obtain m where "live_node s m" "data (nd s m) = Some p" "m \<noteq> n" using F(5) by blast
      then show ?thesis using lo linkeqD(4) [OF lq] by auto
    qed
  qed
  then have "fs_inv ?s (ch(d := remove1 n (ch d))) L'" using s1(2,5) q(2) by (simp add: fs_inv_def)
  moreover have "others_kept {n} s ?s"
    unfolding others_kept_def
  proof (intro allI impI)
    fix m assume m: "m \<notin> {n}" "live_node s m" "ext_bdev (nd s m) = None"
    have "contents ?s m = contents s m"
    proof (cases "data (nd s m)")
      case (Some p)
      obtain k where "L p = Some k" "unat (alloc (nd s m)) \<le> k" using F(1) [OF m(2) Some] by blast
      then show ?thesis using Some q(3) F(4) [OF m(2,3)] linkeqD(4,5) [OF lq, of m] m(1) s1(5)
        by (auto simp: contents_def pool_bytes_def word_le_nat_alt)
    qed (use m linkeqD(4) [OF lq] in \<open>simp add: contents_def\<close>)
    then show "live_node ?s m \<and> ext_bdev (nd ?s m) = None \<and> contents ?s m = contents s m"
      using m lo linkeqD(7) [OF lq] by simp
  qed
  ultimately show ?thesis using q(1) s1 by (intro exI [of _ q] exI [of _ s1] exI [of _ L']) simp
qed

lemma RamFS_Delete_spec:
  assumes inv: "fs_inv s ch L"
  shows "\<exists>rc s' ch' L'. RamFS_Delete vol path s = Some (rc, s') \<and> fs_inv s' ch' L' \<and>
    (if rc = 0 then \<exists>n d v. vol = Some v \<and> valid (g_vols s v) \<and> RamFS_Resolve s vol path = Some (Some n) \<and>
        n \<in> set (ch d) \<and> ch n = [] \<and> ch' = ch(d := remove1 n (ch d)) \<and> others_kept {n} s s' \<and>
        (\<forall>m. m \<noteq> n \<longrightarrow> linkeq (nd s' m) (nd s m)) \<and> g_vols s' = g_vols s \<and> \<not> live_node s' n
     else s' = s)"
proof -
  note I = fs_invD [OF inv]
  have triv: ?thesis if "RamFS_Delete vol path s = Some (c, s)" "c \<noteq> 0" for c
    using that inv by (intro exI [of _ c] exI [of _ s] exI [of _ ch] exI [of _ L]) simp
  obtain r where r: "RamFS_Resolve s vol path = Some r" "\<forall>n. r = Some n \<longrightarrow> live_node s n"
    using resolve_total [OF I(1)] by blast
  show ?thesis
  proof (cases "case vol of None \<Rightarrow> False | Some v \<Rightarrow> read_only (g_vols s v)")
    case True
    then show ?thesis by (intro triv [of "-5"]) (simp_all add: RamFS_Delete_def)
  next
    case ro: False
    show ?thesis
    proof (cases r)
      case None
      then show ?thesis using ro r(1) by (intro triv [of "-1"]) (simp_all add: RamFS_Delete_def)
    next
      case (Some n)
      have lv: "live_node s n" using r(2) Some by blast
      show ?thesis
      proof (cases "ntype (nd s n) = RAMFS_TYPE_DIR \<and> first_child (nd s n) \<noteq> None")
        case True
        then show ?thesis using ro r(1) Some by (intro triv [of "-2"]) (simp_all add: RamFS_Delete_def)
      next
        case ne: False
        then have chn: "ch n = []" using first_child_None [OF I(1) lv] shapeD(2) [OF I(4), of n] by blast
        show ?thesis
        proof (cases "parent (nd s n)")
          case None
          then show ?thesis using ro r(1) Some ne by (intro triv [of "-3"]) (simp_all add: RamFS_Delete_def)
        next
          case (Some d)
          then have nd: "n \<in> set (ch d)" using shapeD(3) [OF I(4)] lv by blast
          show ?thesis
          proof (cases "protection (nd s n) AND FIBF_DELETE \<noteq> 0")
            case True
            then show ?thesis using ro r(1) \<open>r = Some n\<close> ne Some
              by (intro triv [of "-4"]) (simp_all add: RamFS_Delete_def)
          next
            case False
            let ?f = "\<lambda>x. x\<lparr>ntype := RAMFS_TYPE_FREE, name := [], attrs := 0,
                            protection := DEFAULT_PROTECTION, fsize := 0, alloc := 0, data := None,
                            ext_bdev := None, ext_lba := 0, ext_blksz := 0, parent := None,
                            first_child := None, next_sibling := None\<rparr>"
            obtain q s1 L' where q: "RamFS_FreePool (data (nd s n)) (fpool s) = Some q"
              "dir_remove_child d n (s\<lparr>fpool := q\<rparr>) = Some s1" "fs_inv (upd_node n ?f s1) (ch(d := remove1 n (ch d))) L'"
              "others_kept {n} s (upd_node n ?f s1)" "\<forall>m. linkeq (nd s1 m) (nd s m)" "g_vols s1 = g_vols s"
              using fs_inv_remove [OF inv nd chn, of ?f] by auto
            have "RamFS_Delete vol path s = Some (0, upd_node n ?f s1)"
              using ro r(1) \<open>r = Some n\<close> ne Some False q(1,2) by (simp add: RamFS_Delete_def)
            moreover have "\<exists>v. vol = Some v \<and> valid (g_vols s v)"
              using r(1) \<open>r = Some n\<close> by (auto simp: RamFS_Resolve_def split: option.splits if_splits)
            moreover have "\<not> live_node (upd_node n ?f s1) n" by (simp add: live_node_def)
            ultimately show ?thesis using q(3-6) r(1) \<open>r = Some n\<close> nd chn
              by (intro exI [of _ 0] exI [of _ "upd_node n ?f s1"] exI [of _ "ch(d := remove1 n (ch d))"] exI [of _ L'])
                auto
          qed
        qed
      qed
    qed
  qed
qed


section \<open>Making directories\<close>

text \<open>\<open>RamFS_MkDir\<close> does not check that the components it passes through are directories; here it
  is a condition.\<close>

function path_clear :: "ramfs \<Rightarrow> nat \<Rightarrow> string \<Rightarrow> bool" where
  "path_clear s d p =
     (case next_component p of
        None \<Rightarrow> True
      | Some (cn, rest) \<Rightarrow> rest = [] \<or>
          (case find_child s d cn of
             Some (Some c) \<Rightarrow> ntype (nd s c) = RAMFS_TYPE_DIR \<and> path_clear s c rest
           | _ \<Rightarrow> True))"
  by pat_completeness auto
termination by (relation "measure (\<lambda>(s, d, p). length p)") (auto dest: next_component_shorter)

declare path_clear.simps [simp del]

lemma path_clear_empty: "tree s ch \<Longrightarrow> live_node s d \<Longrightarrow> ch d = [] \<Longrightarrow> path_clear s d p"
  using find_child_spec [of s ch d] by (subst path_clear.simps) (simp split: option.split)

lemma mkdir_walk_spec:
  assumes "fs_inv s ch L" "ntype (nd s d) = RAMFS_TYPE_DIR" "leaf = [] \<or> name_ok leaf" "path_clear s d p"
  shows "\<exists>r s' ch'. mkdir_walk now d leaf p s = Some (r, s') \<and> fs_inv s' ch' L \<and> others_kept {} s s' \<and>
    g_vols s' = g_vols s \<and> (\<forall>e l. r = Some (e, l) \<longrightarrow> ntype (nd s' e) = RAMFS_TYPE_DIR \<and> (l = [] \<or> name_ok l))"
  using assms
proof (induction now d leaf p s arbitrary: ch rule: mkdir_walk.induct)
  case (1 now d leaf p s)
  note I = fs_invD [OF 1(4)]
  show ?case
  proof (cases "next_component p")
    case None
    then show ?thesis using 1(4-6) by (subst mkdir_walk.simps) auto
  next
    case (Some q)
    obtain cn rest where q: "next_component p = Some (cn, rest)" using Some by (cases q) auto
    have cn: "name_ok cn" "scopy cn RAMFS_MAX_NAME = cn" using next_component_name [OF q] scopy_name by auto
    show ?thesis
    proof (cases "rest = []")
      case True
      have "path_clear s d []" by (simp add: path_clear.simps)
      then show ?thesis using 1(1) [OF q refl True 1(4,5)] q cn True by (subst mkdir_walk.simps) auto
    next
      case False
      define e where "e = find (\<lambda>n. seq_ci (name (nd s n)) cn) (ch d)"
      have fc: "find_child s d cn = Some e" unfolding e_def using 1(5) by (intro find_child_spec [OF I(1)]) simp
      show ?thesis
      proof (cases e)
        case (Some c)
        have "ntype (nd s c) = RAMFS_TYPE_DIR" "path_clear s c rest"
          using 1(7) q False fc Some by (simp_all add: path_clear.simps [of s d p])
        then show ?thesis using 1(3) [OF q refl False _ _ 1(4)] fc Some q cn False by (subst mkdir_walk.simps) auto
      next
        case None
        have fresh: "map lower cn \<notin> (\<lambda>c. map lower (name (nd s c))) ` set (ch d)"
          by (rule find_None_fresh [OF None [unfolded e_def]])
        obtain r s1 where N: "new_child RAMFS_TYPE_DIR now d cn s = Some (r, s1)" "others_kept {} s s1"
          "case r of None \<Rightarrow> s1 = s
           | Some n \<Rightarrow> fs_inv s1 (ch(d := ch d @ [n])) L \<and> ntype (nd s n) = RAMFS_TYPE_FREE \<and>
               ntype (nd s1 n) = RAMFS_TYPE_DIR \<and> name (nd s1 n) = cn \<and> contents s1 n = [] \<and>
               ext_bdev (nd s1 n) = None \<and> g_vols s1 = g_vols s \<and> (\<forall>m. m \<noteq> n \<longrightarrow> linkeq (nd s1 m) (nd s m))"
          using fs_inv_new [OF 1(4,5) _ cn(1) fresh, of RAMFS_TYPE_DIR now] by blast
        show ?thesis
        proof (cases r)
          case None
          then show ?thesis using N fc \<open>e = None\<close> q False 1(4) by (subst mkdir_walk.simps) auto
        next
          case (Some c)
          let ?ch = "ch(d := ch d @ [c])"
          have C: "fs_inv s1 ?ch L" "ntype (nd s1 c) = RAMFS_TYPE_DIR" "g_vols s1 = g_vols s" "ntype (nd s c) = RAMFS_TYPE_FREE"
            using N(3) Some by auto
          have "c \<noteq> d" using C(4) 1(5) by auto
          then have "?ch c = []" using shapeD(2) [OF I(4), of c] C(4) by simp
          then have pc: "path_clear s1 c rest" using fs_invD(1) [OF C(1)] C(2) by (intro path_clear_empty [of s1 ?ch]) auto
          have "\<exists>r s' ch'. mkdir_walk now c cn rest s1 = Some (r, s') \<and> fs_inv s' ch' L \<and> others_kept {} s1 s' \<and>
              g_vols s' = g_vols s1 \<and> (\<forall>e l. r = Some (e, l) \<longrightarrow> ntype (nd s' e) = RAMFS_TYPE_DIR \<and> (l = [] \<or> name_ok l))"
            using 1(2) [OF q refl False fc \<open>e = None\<close> N(1) refl Some C(1,2) _ pc] cn by simp
          then show ?thesis using N(1,2) fc \<open>e = None\<close> Some q cn False C(3)
            by (subst mkdir_walk.simps) (auto intro: others_kept_trans)
        qed
      qed
    qed
  qed
qed

lemma RamFS_MkDir_spec:
  assumes inv: "fs_inv s ch L"
    and clear: "\<And>v. vol = Some v \<Longrightarrow> path_clear s (root (g_vols s v)) (strip_path path)"
  shows "\<exists>r s' ch'. RamFS_MkDir now vol path s = Some (r, s') \<and> fs_inv s' ch' L \<and> others_kept {} s s' \<and> g_vols s' = g_vols s"
proof (cases "\<exists>v. vol = Some v \<and> valid (g_vols s v) \<and> \<not> read_only (g_vols s v)")
  case False
  then show ?thesis using inv by (auto simp: RamFS_MkDir_def split: option.splits)
next
  case True
  then obtain v where v: "vol = Some v" "valid (g_vols s v)" "\<not> read_only (g_vols s v)" by blast
  have rt: "ntype (nd s (root (g_vols s v))) = RAMFS_TYPE_DIR" by (rule shapeD(7) [OF fs_invD(4) [OF inv] v(2)])
  obtain w t cht where w: "mkdir_walk now (root (g_vols s v)) [] (strip_path path) s = Some (w, t)" "fs_inv t cht L"
    "others_kept {} s t" "g_vols t = g_vols s" "\<forall>e l. w = Some (e, l) \<longrightarrow> ntype (nd t e) = RAMFS_TYPE_DIR \<and> (l = [] \<or> name_ok l)"
    using mkdir_walk_spec [OF inv rt _ clear [OF v(1)]] by blast
  show ?thesis
  proof (cases "\<exists>dir leaf. w = Some (dir, leaf) \<and> leaf \<noteq> []")
    case False
    then show ?thesis using v w by (auto simp: RamFS_MkDir_def split: option.splits)
  next
    case True
    then obtain dir leaf where dl: "w = Some (dir, leaf)" "leaf \<noteq> []" by blast
    have d: "ntype (nd t dir) = RAMFS_TYPE_DIR" "name_ok leaf" using w(5) dl by auto
    define e where "e = find (\<lambda>n. seq_ci (name (nd t n)) leaf) (cht dir)"
    have fc: "find_child t dir leaf = Some e"
      unfolding e_def using d(1) by (intro find_child_spec [OF fs_invD(1) [OF w(2)]]) simp
    show ?thesis
    proof (cases e)
      case (Some n)
      then show ?thesis using v w dl fc by (auto simp: RamFS_MkDir_def)
    next
      case None
      have fresh: "map lower leaf \<notin> (\<lambda>c. map lower (name (nd t c))) ` set (cht dir)"
        by (rule find_None_fresh [OF None [unfolded e_def]])
      obtain r s' where N: "new_child RAMFS_TYPE_DIR now dir leaf t = Some (r, s')" "others_kept {} t s'"
        "case r of None \<Rightarrow> s' = t
         | Some n \<Rightarrow> fs_inv s' (cht(dir := cht dir @ [n])) L \<and> ntype (nd t n) = RAMFS_TYPE_FREE \<and>
             ntype (nd s' n) = RAMFS_TYPE_DIR \<and> name (nd s' n) = leaf \<and> contents s' n = [] \<and>
             ext_bdev (nd s' n) = None \<and> g_vols s' = g_vols t \<and> (\<forall>m. m \<noteq> n \<longrightarrow> linkeq (nd s' m) (nd t m))"
        using fs_inv_new [OF w(2) d(1) _ d(2) fresh, of RAMFS_TYPE_DIR now] by blast
      have c: "RamFS_MkDir now vol path s = Some (r, s')" using v w(1) dl fc None N(1) by (simp add: RamFS_MkDir_def)
      show ?thesis using c N(2,3) w(2-4) by (cases r) (auto intro: others_kept_trans)
    qed
  qed
qed

section \<open>Mounting\<close>

lemma links_new_root:
  assumes "tree s ch" "alloc_node s = (Some r, s1)"
  defines "s2 \<equiv> upd_node r (\<lambda>x. x\<lparr>ntype := RAMFS_TYPE_DIR, name := []\<rparr>) s1"
  shows "tree s2 ch" "\<forall>m. m \<noteq> r \<longrightarrow> nd s2 m = nd s m" "ntype (nd s r) = RAMFS_TYPE_FREE" "ntype (nd s2 r) = RAMFS_TYPE_DIR"
    "parent (nd s2 r) = None" "data (nd s2 r) = None" "alloc (nd s2 r) = 0" "fsize (nd s2 r) = 0" "ext_bdev (nd s2 r) = None"
    "fpool s2 = fpool s" "g_vols s2 = g_vols s"
proof -
  note A = alloc_node_Some [OF assms(2)] and S = shapeD [OF treeD(1) [OF assms(1)]]
  obtain f where f: "s1 = upd_node r f s" "\<forall>x. ntype (f x) = RAMFS_TYPE_CLAIMED \<and> first_child (f x) = None \<and>
     data (f x) = None \<and> alloc (f x) = 0 \<and> fsize (f x) = 0 \<and> ext_bdev (f x) = None \<and> parent (f x) = None \<and> next_sibling (f x) = None"
    using A(3) by blast
  define g where "g = (\<lambda>x. (f x)\<lparr>ntype := RAMFS_TYPE_DIR, name := []\<rparr>)"
  have s2: "s2 = upd_node r g s" by (simp add: s2_def f(1) g_def upd_node_def)
  show "\<forall>m. m \<noteq> r \<longrightarrow> nd s2 m = nd s m" "ntype (nd s r) = RAMFS_TYPE_FREE" "ntype (nd s2 r) = RAMFS_TYPE_DIR"
    "parent (nd s2 r) = None" "data (nd s2 r) = None" "alloc (nd s2 r) = 0" "fsize (nd s2 r) = 0" "ext_bdev (nd s2 r) = None"
    "fpool s2 = fpool s" "g_vols s2 = g_vols s"
    using f(2) A(1) by (simp_all add: s2 g_def)
  have nn: "\<forall>e. r \<notin> set (ch e)" "ch r = []" using S(3) [of r] A(1) S(2) [of r] by (auto simp: live_node_def)
  have "links s2 ch" unfolding s2 using assms(1) nn f(2) by (intro links_upd) (auto simp: tree_def g_def)
  moreover have lv: "live_node s2 m = live_node s m" if "m \<noteq> r" for m using that by (simp add: s2 live_node_def)
  have "shape s2 ch"
    unfolding shape_def
  proof (intro conjI allI impI ballI)
    show "distinct (ch d)" for d by (rule S(1))
    show "ch d = []" if "ntype (nd s2 d) \<noteq> RAMFS_TYPE_DIR" for d using that S(2) [of d] nn(2) by (cases "d = r") (auto simp: s2)
    show "c \<in> set (ch d) \<longleftrightarrow> live_node s2 c \<and> parent (nd s2 c) = Some d" for c d
      using S(3) [of c d] lv [of c] nn(1) f(2) by (cases "c = r") (auto simp: s2 g_def)
    show "\<exists>rk :: nat \<Rightarrow> nat. \<forall>c d. c \<in> set (ch d) \<longrightarrow> rk d < rk c" by (rule S(4))
    have nm: "name (nd s2 c) = name (nd s c)" if "c \<in> set (ch d)" for c d using that nn(1) by (auto simp: s2)
    show "distinct (map (\<lambda>c. map lower (name (nd s2 c))) (ch d))" for d
      using S(5) [of d] map_names_cong [of "ch d" s2 s] nm by (simp del: map_eq_conv)
    show "name_ok (name (nd s2 c))" if "c \<in> set (ch d)" for c d using S(6) [OF that] nm [OF that] by simp
    fix v assume "valid (g_vols s2 v)"
    then show "ntype (nd s2 (root (g_vols s2 v))) = RAMFS_TYPE_DIR" "parent (nd s2 (root (g_vols s2 v))) = None"
      using S(7,8) [of v] A(1) by (cases "root (g_vols s v) = r"; auto simp: s2 g_def)+
  qed
  ultimately show "tree s2 ch" by (simp add: tree_def)
qed

lemma shape_vols:
  assumes "shape s ch" "\<And>v. valid (V v) \<Longrightarrow> ntype (nd s (root (V v))) = RAMFS_TYPE_DIR \<and> parent (nd s (root (V v))) = None"
  shows "shape (s\<lparr>g_vols := V\<rparr>) ch"
proof -
  have e: "live_node (s\<lparr>g_vols := V\<rparr>) c = live_node s c" "g_nodes (s\<lparr>g_vols := V\<rparr>) = g_nodes s"
    "g_vols (s\<lparr>g_vols := V\<rparr>) = V" for c by (simp_all add: live_node_def)
  show ?thesis using assms unfolding shape_def e by blast
qed

lemma RamFS_MountVol_spec:
  assumes inv: "fs_inv s ch L" and m: "RamFS_MountVol nm s = (r, s')"
  shows "fs_inv s' ch L" "others_kept {} s s'"
proof -
  note I = fs_invD [OF inv] and F = files_okD [OF fs_invD(3) [OF inv]]
  have upd: "fs_inv (s\<lparr>g_vols := V\<rparr>) ch L" "others_kept {} s (s\<lparr>g_vols := V\<rparr>)"
    if "\<forall>v. valid (V v) = valid (g_vols s v) \<and> root (V v) = root (g_vols s v)" for V
  proof -
    have st: "same_tree s (s\<lparr>g_vols := V\<rparr>)" using that by (simp add: same_tree_def)
    have "files_ok (s\<lparr>g_vols := V\<rparr>) L"
      by (rule files_ok_same [OF I(3)]) (use F(4) in \<open>auto simp: live_node_def\<close>)
    then show "fs_inv (s\<lparr>g_vols := V\<rparr>) ch L" using tree_same [OF st I(1)] I(2) by (simp add: fs_inv_def)
    show "others_kept {} s (s\<lparr>g_vols := V\<rparr>)"
      by (simp add: others_kept_def contents_def live_node_def split: option.split)
  qed
  have "fs_inv s' ch L \<and> others_kept {} s s'"
  proof (cases "first_index (\<lambda>i. \<not> valid (g_vols s i)) MAX_VOLS")
    case None
    then show ?thesis using m inv by (simp add: RamFS_MountVol_def)
  next
    case (Some i)
    define s0 where "s0 = s\<lparr>g_vols := (g_vols s)(i := (g_vols s i)\<lparr>vname := scopy nm 16\<rparr>)\<rparr>"
    have i0: "fs_inv s0 ch L" "others_kept {} s s0" unfolding s0_def by (rule upd, simp)+
    obtain a s1 where a: "alloc_node s0 = (a, s1)" by (cases "alloc_node s0")
    show ?thesis
    proof (cases a)
      case None
      then have "s' = s1" "s1 = s0" using m Some a alloc_node_None [of s0 s1] by (auto simp: RamFS_MountVol_def Let_def s0_def)
      then show ?thesis using i0 by simp
    next
      case (Some rt)
      note N = links_new_root [OF fs_invD(1) [OF i0(1)] a [unfolded Some]]
      define s2 where "s2 = upd_node rt (\<lambda>x. x\<lparr>ntype := RAMFS_TYPE_DIR, name := []\<rparr>) s1"
      note N = N [folded s2_def]
      have s': "s' = s2\<lparr>g_vols := (g_vols s2)(i := (g_vols s2 i)\<lparr>root := rt, valid := True, read_only := False\<rparr>)\<rparr>"
        using m \<open>first_index _ _ = Some i\<close> a Some by (simp add: RamFS_MountVol_def Let_def s2_def flip: s0_def)
      have lv: "live_node s2 m = live_node s0 m" if "m \<noteq> rt" for m using N(2) that by (simp add: live_node_def)
      note F0 = files_okD [OF fs_invD(3) [OF i0(1)]]
      have nl: "\<not> live_node s0 rt" using N(3) by (simp add: live_node_def)
      have "files_ok s2 L"
        unfolding files_ok_def
      proof (intro conjI allI impI)
        show "\<exists>k. L p = Some k \<and> unat (alloc (nd s2 m)) \<le> k" if "live_node s2 m" "data (nd s2 m) = Some p" for m p
          using that N(2,6) F0(1) [of m p] lv [of m] by (cases "m = rt") auto
        show "m = m'" if "live_node s2 m" "live_node s2 m'" "data (nd s2 m) = Some p" "data (nd s2 m') = Some p" for m m' p
          using that N(2,6) F0(2) [of m m' p] lv by (cases "m = rt"; cases "m' = rt") auto
        show "alloc (nd s2 m) = 0" if "live_node s2 m" "data (nd s2 m) = None" for m
          using that N(2,7) F0(3) [of m] lv by (cases "m = rt") auto
        show "fsize (nd s2 m) \<le> alloc (nd s2 m)" if "live_node s2 m" "ext_bdev (nd s2 m) = None" for m
          using that N(2,7,8) F0(4) [of m] lv by (cases "m = rt") auto
        show "\<exists>m. live_node s2 m \<and> data (nd s2 m) = Some p" if "L p = Some k" for p k
          using F0(5) [OF that] nl lv N(2) by metis
      qed
      then have f': "files_ok s' L" unfolding s' by (rule files_ok_same) (use files_okD(4) [OF \<open>files_ok s2 L\<close>] in \<open>auto simp: live_node_def\<close>)
      have lk: "links s' ch" using N(1) sibs_frame [of _ s' s2] unfolding s' tree_def links_def by (simp add: live_node_def)
      have sh: "shape s' ch" unfolding s'
        by (rule shape_vols [OF treeD(1) [OF N(1)]]) (use N(4,5) shapeD(7,8) [OF treeD(1) [OF N(1)]] in auto)
      have "pool_live (fpool s') L" using fs_invD(2) [OF i0(1)] N(10) by (simp add: s')
      then have "fs_inv s' ch L" using f' lk sh by (simp add: fs_inv_def tree_def)
      moreover have "others_kept {} s0 s'"
        unfolding others_kept_def
      proof (intro allI impI)
        fix m assume m: "live_node s0 m" "ext_bdev (nd s0 m) = None"
        then have "nd s' m = nd s0 m" using N(2) nl by (auto simp: s')
        then show "live_node s' m \<and> ext_bdev (nd s' m) = None \<and> contents s' m = contents s0 m"
          using m N(10) by (simp add: live_node_def contents_def s' split: option.split)
      qed
      ultimately show ?thesis using i0(2) others_kept_trans by blast
    qed
  qed
  then show "fs_inv s' ch L" "others_kept {} s s'" by auto
qed


section \<open>Renaming\<close>

lemma child_rel_mono: "(\<And>d. set (ch d) \<subseteq> set (ch' d)) \<Longrightarrow> child_rel ch \<subseteq> child_rel ch'"
  by (auto simp: child_rel_def)

lemma linkeq_upd:
  assumes "linkeq x y"
  shows "linkeq (x\<lparr>name := nm\<rparr>) (y\<lparr>name := nm\<rparr>)" "linkeq (x\<lparr>parent := p\<rparr>) (y\<lparr>parent := p\<rparr>)"
    "linkeq (x\<lparr>parent := p, name := nm\<rparr>) (y\<lparr>parent := p, name := nm\<rparr>)"
  using assms by (cases x; cases y; simp add: linkeq_def)+

lemma linkeq_trans: "linkeq x y \<Longrightarrow> linkeq y z \<Longrightarrow> linkeq x z"
  by (simp add: linkeq_def)

lemma links_same:
  assumes "links s ch" "\<And>m. live_node s' m = live_node s m" "\<And>m. first_child (nd s' m) = first_child (nd s m)"
    "\<And>m. next_sibling (nd s' m) = next_sibling (nd s m)"
  shows "links s' ch"
proof -
  have "sibs s' p cs q = sibs s p cs q" for p cs q using assms(4) by (intro sibs_frame) simp
  then show ?thesis using assms unfolding links_def by simp
qed

text \<open>Moving a node to another directory under a new name.\<close>

lemma tree_move:
  assumes t: "tree s ch" and n: "n \<in> set (ch d)" and dst: "ntype (nd s dst) = RAMFS_TYPE_DIR" "dst \<noteq> d"
    and below: "(n, dst) \<notin> (child_rel ch)\<^sup>*"
    and nm: "name_ok nm" "map lower nm \<notin> (\<lambda>c. map lower (name (nd s c))) ` set (ch dst)"
  shows "\<exists>s1 s2. dir_remove_child d n s = Some s1 \<and>
    dir_add_child dst n (upd_node n (\<lambda>x. x\<lparr>parent := Some dst\<rparr>) s1) = Some s2 \<and>
    (let s3 = upd_node n (\<lambda>x. x\<lparr>name := nm\<rparr>) s2
     in tree s3 (ch(d := remove1 n (ch d), dst := ch dst @ [n])) \<and> g_vols s3 = g_vols s \<and> fpool s3 = fpool s \<and>
        (\<forall>m. linkeq (nd s3 m) (if m = n then (nd s n)\<lparr>parent := Some dst, name := nm\<rparr> else nd s m)))"
proof -
  note sh = treeD(1) [OF t]
  have l: "links s ch" using t by (simp add: tree_def)
  have d: "live_node s d" using parent_dir [OF sh n] by simp
  obtain xs ys where x: "ch d = xs @ n # ys" "n \<notin> set xs" using n by (metis split_list_first)
  obtain s1 where s1: "dir_remove_child d n s = Some s1"
    using dir_remove_child_eq [OF treeD(2) [OF t d, unfolded x(1)] x(2)] by simp
  note L1 = links_remove [OF l shape_apart [OF sh] d n s1]
  let ?ch1 = "ch(d := remove1 n (ch d))"
  let ?s1 = "upd_node n (\<lambda>x. x\<lparr>parent := Some dst\<rparr>) s1"
  have lv1: "live_node ?s1 m = live_node s m" for m using linkeqD(1) [OF L1(2) [of m]] by (auto simp: live_node_def)
  have l1: "links ?s1 ?ch1"
    by (rule links_same [OF L1(1)]) (use lv1 linkeqD(1) [OF L1(2)] in \<open>auto simp: live_node_def\<close>)
  have sub: "set (?ch1 e) \<subseteq> set (ch e)" for e using set_remove1_subset [of n "ch d"] by auto
  have ap: "apart ?ch1" using shape_apart [OF sh] sub unfolding apart_def by (auto simp del: fun_upd_apply) (simp, blast)
  have nn: "\<forall>e. n \<notin> set (?ch1 e)" using shapeD(1) [OF sh, of d] ch_disjoint [OF sh n] by auto
  have ne: "n \<noteq> dst" using below by auto
  have ld: "live_node ?s1 dst" using lv1 dst(1) by simp
  obtain s2 where s2: "dir_add_child dst n ?s1 = Some s2"
    using dir_add_child_eq [of ?s1 dst "?ch1 dst" n] l1 ld nn ne by (auto simp: links_def)
  note L2 = links_add [OF l1 ap ld nn ne s2]
  let ?s3 = "upd_node n (\<lambda>x. x\<lparr>name := nm\<rparr>) s2"
  let ?ch = "ch(d := remove1 n (ch d), dst := ch dst @ [n])"
  have le: "linkeq (nd ?s3 m) (if m = n then (nd s n)\<lparr>parent := Some dst, name := nm\<rparr> else nd s m)" for m
  proof (cases "m = n")
    case True
    have "linkeq ((nd s2 n)\<lparr>name := nm\<rparr>) ((nd s1 n)\<lparr>parent := Some dst, name := nm\<rparr>)"
      using linkeq_upd(1) [OF L2(2) [of n]] by simp
    from linkeq_trans [OF this linkeq_upd(3) [OF L1(2)]] show ?thesis using True by simp
  next
    case False
    then show ?thesis using linkeq_trans [OF L2(2) [of m]] L1(2) [of m] by simp
  qed
  have c2: "?ch1(dst := ?ch1 dst @ [n]) = ?ch" using dst(2) by simp
  have "links ?s3 ?ch" by (rule links_same [OF L2(1) [unfolded c2]]) (auto simp: live_node_def)
  moreover have "shape ?s3 ?ch"
  proof (rule shape_move [OF sh n dst below nm])
    show "ntype (nd ?s3 n) = ntype (nd s n)" "name (nd ?s3 n) = nm" "parent (nd ?s3 n) = Some dst"
      using linkeqD(1-3) [OF le [of n]] by simp_all
    show "ntype (nd ?s3 m) = ntype (nd s m)" "name (nd ?s3 m) = name (nd s m)" "parent (nd ?s3 m) = parent (nd s m)"
      if "m \<noteq> n" for m using linkeqD(1-3) [OF le [of m]] that by simp_all
  qed (use L1(3) L2(3) in simp)
  ultimately show ?thesis using s1 s2 le L1(3,4) L2(3,4)
    by (intro exI [of _ s1] exI [of _ s2]) (simp add: Let_def tree_def)
qed

lemma tree_rename:
  assumes t: "tree s ch" and n: "n \<in> set (ch d)" and nm: "name_ok nm"
    "\<And>c. c \<in> set (ch d) \<Longrightarrow> c \<noteq> n \<Longrightarrow> map lower (name (nd s c)) \<noteq> map lower nm"
  shows "tree (upd_node n (\<lambda>x. x\<lparr>name := nm\<rparr>) s) ch"
proof -
  let ?s = "upd_node n (\<lambda>x. x\<lparr>name := nm\<rparr>) s"
  note S = shapeD [OF treeD(1) [OF t]]
  have lv: "live_node ?s m = live_node s m" for m by (simp add: live_node_def)
  have "links s ch" using t by (simp add: tree_def)
  then have "links ?s ch" by (rule links_same) (simp_all add: lv)
  moreover have "shape ?s ch"
    unfolding shape_def lv
  proof (intro conjI allI impI ballI)
    show "distinct (map (\<lambda>c. map lower (name (nd ?s c))) (ch e))" for e
    proof (cases "e = d")
      case True
      have "inj_on (\<lambda>c. map lower (name (nd ?s c))) (set (ch d))"
        using S(5) [of d] nm(2) unfolding distinct_map inj_on_def by (auto split: if_splits) metis+
      then show ?thesis using True S(1) by (simp add: distinct_map)
    next
      case False
      then have "n \<notin> set (ch e)" using ch_disjoint [OF treeD(1) [OF t] n] by blast
      then have "map (\<lambda>c. map lower (name (nd ?s c))) (ch e) = map (\<lambda>c. map lower (name (nd s c))) (ch e)"
        by (intro map_names_cong) auto
      then show ?thesis using S(5) [of e] by (simp only:)
    qed
    show "distinct (ch e)" for e by (rule S(1))
    show "ch e = []" if "ntype (nd ?s e) \<noteq> RAMFS_TYPE_DIR" for e using that S(2) [of e] by (simp split: if_splits)
    show "c \<in> set (ch e) \<longleftrightarrow> live_node s c \<and> parent (nd ?s c) = Some e" for c e using S(3) [of c e] by simp
    show "\<exists>rk :: nat \<Rightarrow> nat. \<forall>c d. c \<in> set (ch d) \<longrightarrow> rk d < rk c" by (rule S(4))
    show "name_ok (name (nd ?s c))" if "c \<in> set (ch e)" for c e using S(6) [OF that] nm(1) by simp
    show "ntype (nd ?s (root (g_vols ?s v))) = RAMFS_TYPE_DIR" "parent (nd ?s (root (g_vols ?s v))) = None"
      if "valid (g_vols ?s v)" for v using that S(7,8) [of v] by auto
  qed
  ultimately show ?thesis by (simp add: tree_def)
qed


lemma files_kept:
  assumes "files_ok s L" "\<And>m. ntype (nd s' m) = ntype (nd s m)" "\<And>m. data (nd s' m) = data (nd s m)"
    "\<And>m. alloc (nd s' m) = alloc (nd s m)" "\<And>m. fsize (nd s' m) = fsize (nd s m)"
    "\<And>m. ext_bdev (nd s' m) = ext_bdev (nd s m)" "fpool s' = fpool s"
  shows "files_ok s' L" "contents s' m = contents s m" "others_kept X s s'"
proof -
  have lv: "live_node s' m = live_node s m" for m using assms(2) by (simp add: live_node_def)
  show "files_ok s' L" by (rule files_ok_same [OF assms(1)]) (use assms lv files_okD(4) [OF assms(1)] in auto)
  show c: "contents s' m = contents s m" for m by (simp add: contents_def assms split: option.split)
  show "others_kept X s s'" using lv c assms(6) by (simp add: others_kept_def)
qed

lemma rename_link_spec:
  assumes inv: "fs_inv s ch L" and src: "src \<in> set (ch d)" and dst: "ntype (nd s dst) = RAMFS_TYPE_DIR"
    and below: "(src, dst) \<notin> (child_rel ch)\<^sup>*" and nm: "name_ok leaf"
    "\<And>c. c \<in> set (ch dst) \<Longrightarrow> c \<noteq> src \<Longrightarrow> map lower (name (nd s c)) \<noteq> map lower leaf"
  shows "\<exists>s' ch'. rename_link src dst leaf s = Some s' \<and> fs_inv s' ch' L \<and> others_kept {} s s' \<and>
    contents s' src = contents s src \<and> src \<in> set (ch' dst) \<and> name (nd s' src) = leaf \<and>
    live_node s' dst \<and> ntype (nd s' src) = ntype (nd s src)"
proof -
  note I = fs_invD [OF inv]
  have p: "parent (nd s src) = Some d" using shapeD(3) [OF I(4), of src d] src by simp
  have sc: "scopy leaf RAMFS_MAX_NAME = leaf" by (rule scopy_name [OF nm(1)])
  show ?thesis
  proof (cases "d = dst")
    case True
    let ?s = "upd_node src (\<lambda>x. x\<lparr>name := leaf\<rparr>) s"
    have t: "tree ?s ch" by (rule tree_rename [OF I(1) src nm(1)]) (use nm(2) True in auto)
    have K: "files_ok ?s L" "contents ?s src = contents s src" "others_kept {} s ?s"
      using files_kept [OF I(3), of ?s] by auto
    have "rename_link src dst leaf s = Some ?s" using p True sc by (simp add: rename_link_def)
    then show ?thesis using t K I(2) src True dst by (intro exI [of _ ?s] exI [of _ ch]) (auto simp: fs_inv_def live_node_def)
  next
    case False
    have fresh: "map lower leaf \<notin> (\<lambda>c. map lower (name (nd s c))) ` set (ch dst)"
      using nm(2) ch_disjoint [OF I(4) src] False by fastforce
    obtain s1 s2 where M: "dir_remove_child d src s = Some s1"
      "dir_add_child dst src (upd_node src (\<lambda>x. x\<lparr>parent := Some dst\<rparr>) s1) = Some s2"
      "tree (upd_node src (\<lambda>x. x\<lparr>name := leaf\<rparr>) s2) (ch(d := remove1 src (ch d), dst := ch dst @ [src]))"
      "fpool (upd_node src (\<lambda>x. x\<lparr>name := leaf\<rparr>) s2) = fpool s"
      "\<And>m. linkeq (nd (upd_node src (\<lambda>x. x\<lparr>name := leaf\<rparr>) s2) m)
         (if m = src then (nd s src)\<lparr>parent := Some dst, name := leaf\<rparr> else nd s m)"
      using tree_move [OF I(1) src dst _ below nm(1) fresh] False unfolding Let_def by blast
    let ?s = "upd_node src (\<lambda>x. x\<lparr>name := leaf\<rparr>) s2"
    have e: "ntype (nd ?s m) = ntype (nd s m)" "data (nd ?s m) = data (nd s m)" "alloc (nd ?s m) = alloc (nd s m)"
      "fsize (nd ?s m) = fsize (nd s m)" "ext_bdev (nd ?s m) = ext_bdev (nd s m)" for m
      using linkeqD [OF M(5) [of m]] by (cases "m = src"; simp)+
    note K = files_kept [OF I(3) e M(4)]
    have "rename_link src dst leaf s = Some ?s" using p False sc M(1,2) by (simp add: rename_link_def)
    then show ?thesis using M(3,4) K I(2) dst e(1) [of src] e(1) [of dst]
      by (intro exI [of _ ?s] exI [of _ "ch(d := remove1 src (ch d), dst := ch dst @ [src])"])
        (auto simp: fs_inv_def live_node_def split: if_splits)
  qed
qed

lemma rename_to_spec:
  assumes inv: "fs_inv s ch L" and src: "src \<in> set (ch d)" and dst: "ntype (nd s dst) = RAMFS_TYPE_DIR"
    and below: "(src, dst) \<notin> (child_rel ch)\<^sup>*" and nm: "name_ok leaf"
  shows "\<exists>rc s' ch' L' X. rename_to src dst leaf s = Some (rc, s') \<and> fs_inv s' ch' L' \<and>
    (if rc = 0 then find_child s' dst leaf = Some (Some src) \<and>
       (ext_bdev (nd s src) = None \<longrightarrow> contents s' src = contents s src) \<and>
       find_child s dst leaf = Some X \<and> others_kept (set_option X - {src}) s s'
     else s' = s)"
proof -
  note I = fs_invD [OF inv]
  have ld: "live_node s dst" using dst by simp
  define e where "e = find (\<lambda>n. seq_ci (name (nd s n)) leaf) (ch dst)"
  have fc: "find_child s dst leaf = Some e" unfolding e_def by (rule find_child_spec [OF I(1) ld])
  have found: "find_child s' dst leaf = Some (Some src)"
    if "fs_inv s' ch' L'" "src \<in> set (ch' dst)" "name (nd s' src) = leaf" "live_node s' dst" for s' ch' L'
  proof -
    note J = fs_invD [OF that(1)]
    have f: "find_child s' dst leaf = Some (find (\<lambda>n. seq_ci (name (nd s' n)) leaf) (ch' dst))"
      by (rule find_child_spec [OF J(1) that(4)])
    have "find (\<lambda>n. seq_ci (name (nd s' n)) leaf) (ch' dst) \<noteq> None" using that(2,3) by (auto simp: find_None_iff seq_ci_iff)
    then obtain y where y: "find (\<lambda>n. seq_ci (name (nd s' n)) leaf) (ch' dst) = Some y" by blast
    then have "y \<in> set (ch' dst)" "map lower (name (nd s' y)) = map lower leaf" using find_SomeD [OF y] by (auto simp: seq_ci_iff)
    then have "y = src" using shapeD(5) [OF J(4), of dst] that(2,3) by (auto simp: distinct_map inj_on_def)
    then show ?thesis using f y by simp
  qed
  show ?thesis
  proof (cases e)
    case None
    have "map lower (name (nd s c)) \<noteq> map lower leaf" if "c \<in> set (ch dst)" for c
      using None that unfolding e_def find_None_iff by (auto simp: seq_ci_iff)
    then obtain s' ch' where R: "rename_link src dst leaf s = Some s'" "fs_inv s' ch' L" "others_kept {} s s'"
      "contents s' src = contents s src" "src \<in> set (ch' dst)" "name (nd s' src) = leaf" "live_node s' dst"
      using rename_link_spec [OF inv src dst below nm] by blast
    have "rename_to src dst leaf s = Some (0, s')" using fc None R(1) by (simp add: rename_to_def)
    then show ?thesis using R found [OF R(2,5-7)] fc None
      by (intro exI [of _ 0] exI [of _ s'] exI [of _ ch'] exI [of _ L] exI [of _ None]) simp
  next
    case (Some x)
    have x: "x \<in> set (ch dst)" "seq_ci (name (nd s x)) leaf" using find_SomeD Some unfolding e_def by fastforce+
    have lx: "live_node s x" "parent (nd s x) = Some dst" using shapeD(3) [OF I(4), of x dst] x(1) by auto
    have triv: ?thesis if "rename_to src dst leaf s = Some (c, s)" "c \<noteq> 0" for c
      using that inv by (intro exI [of _ c] exI [of _ s] exI [of _ ch] exI [of _ L] exI [of _ None]) simp
    show ?thesis
    proof (cases "x = src")
      case True
      then have "rename_to src dst leaf s = Some (0, s)" using fc Some by (simp add: rename_to_def)
      then show ?thesis using inv fc Some True
        by (intro exI [of _ 0] exI [of _ s] exI [of _ ch] exI [of _ L] exI [of _ "Some src"]) simp
    next
      case ne: False
      show ?thesis
      proof (cases "ntype (nd s x) = RAMFS_TYPE_DIR \<and> first_child (nd s x) \<noteq> None")
        case True
        then show ?thesis using fc Some ne by (intro triv [of "-2"]) (simp_all add: rename_to_def)
      next
        case em: False
        then have chx: "ch x = []" using first_child_None [OF I(1) lx(1)] shapeD(2) [OF I(4), of x] by blast
        show ?thesis
        proof (cases "protection (nd s x) AND FIBF_DELETE \<noteq> 0")
          case True
          then show ?thesis using fc Some ne em by (intro triv [of "-4"]) (simp_all add: rename_to_def)
        next
          case pr: False
          let ?f = "\<lambda>y. y\<lparr>ntype := RAMFS_TYPE_FREE, parent := None, first_child := None, next_sibling := None\<rparr>"
          obtain q s1 L' where R: "RamFS_FreePool (data (nd s x)) (fpool s) = Some q"
            "dir_remove_child dst x (s\<lparr>fpool := q\<rparr>) = Some s1"
            "fs_inv (upd_node x ?f s1) (ch(dst := remove1 x (ch dst))) L'" "others_kept {x} s (upd_node x ?f s1)"
            "\<forall>m. linkeq (nd s1 m) (nd s m)"
            using fs_inv_remove [OF inv x(1) chx, of ?f] by auto
          let ?s = "upd_node x ?f s1" and ?ch = "ch(dst := remove1 x (ch dst))"
          have u: "rename_unlink x s = Some ?s" using R(1,2) lx(2) by (simp add: rename_unlink_def)
          have sub: "set (?ch e) \<subseteq> set (ch e)" for e using set_remove1_subset [of x "ch dst"] by auto
          have src': "src \<in> set (?ch d)" using src ne by (auto simp: in_set_remove1)
          have xd: "x \<noteq> dst" using chx x(1) by auto
          have dst': "ntype (nd ?s dst) = RAMFS_TYPE_DIR" using dst linkeqD(1) [OF R(5) [rule_format, of dst]] xd by simp
          have below': "(src, dst) \<notin> (child_rel ?ch)\<^sup>*"
            using below rtrancl_mono [OF child_rel_mono [of ?ch ch]] sub by blast
          have nm': "map lower (name (nd ?s c)) \<noteq> map lower leaf" if "c \<in> set (?ch dst)" for c
          proof -
            have c: "c \<in> set (ch dst)" "c \<noteq> x" using that shapeD(1) [OF I(4), of dst] by auto
            then have "map lower (name (nd s c)) \<noteq> map lower (name (nd s x))"
              using shapeD(5) [OF I(4), of dst] x(1) by (auto simp: distinct_map inj_on_def)
            then show ?thesis using x(2) c(2) linkeqD(3) [OF R(5) [rule_format]] by (simp add: seq_ci_iff)
          qed
          obtain s' ch' where S: "rename_link src dst leaf ?s = Some s'" "fs_inv s' ch' L'" "others_kept {} ?s s'"
            "contents s' src = contents ?s src" "src \<in> set (ch' dst)" "name (nd s' src) = leaf" "live_node s' dst"
            using rename_link_spec [OF R(3) src' dst' below' nm] nm' by blast
          have "rename_to src dst leaf s = Some (0, s')" using fc Some ne em pr u S(1) by (simp add: rename_to_def)
          moreover have "ext_bdev (nd s src) = None \<longrightarrow> contents ?s src = contents s src"
            using R(4) ne shapeD(3) [OF I(4), of src d] src by (auto simp: others_kept_def)
          moreover have "others_kept {x} s s'" using R(4) S(3) by (simp add: others_kept_def)
          ultimately show ?thesis using S found [OF S(2,5-7)] fc Some ne
            by (intro exI [of _ 0] exI [of _ s'] exI [of _ ch'] exI [of _ L'] exI [of _ "Some x"]) simp
        qed
      qed
    qed
  qed
qed

text \<open>\<open>RamFS_Rename\<close> keeps the invariant as long as the destination directory is not below the
  object that moves (the code does not check it).\<close>

definition rename_safe :: "nat \<Rightarrow> string \<Rightarrow> string \<Rightarrow> ramfs \<Rightarrow> (nat \<Rightarrow> nat list) \<Rightarrow> bool" where
  "rename_safe v old new s ch \<longleftrightarrow>
     (\<forall>src dst leaf. RamFS_Resolve s (Some v) old = Some (Some src) \<longrightarrow>
        walk_parent s (root (g_vols s v)) [] (strip_path new) = Some (Some (dst, leaf)) \<longrightarrow>
        (src, dst) \<notin> (child_rel ch)\<^sup>*)"

lemma RamFS_Rename_spec:
  assumes inv: "fs_inv s ch L" and safe: "rename_safe v old new s ch"
  shows "\<exists>rc s' ch' L'. RamFS_Rename (Some v) old new s = Some (rc, s') \<and> fs_inv s' ch' L' \<and>
    (if rc = 0 then \<exists>src dst leaf X. RamFS_Resolve s (Some v) old = Some (Some src) \<and>
       walk_parent s (root (g_vols s v)) [] (strip_path new) = Some (Some (dst, leaf)) \<and>
       find_child s dst leaf = Some X \<and> find_child s' dst leaf = Some (Some src) \<and>
       (ext_bdev (nd s src) = None \<longrightarrow> contents s' src = contents s src) \<and> others_kept (set_option X - {src}) s s'
     else s' = s)"
proof -
  note I = fs_invD [OF inv]
  have triv: ?thesis if "RamFS_Rename (Some v) old new s = Some (c, s)" "c \<noteq> 0" for c
    using that inv by (intro exI [of _ c] exI [of _ s] exI [of _ ch] exI [of _ L]) simp
  obtain r where r: "RamFS_Resolve s (Some v) old = Some r" "\<forall>n. r = Some n \<longrightarrow> live_node s n"
    using resolve_total [OF I(1)] by blast
  show ?thesis
  proof (cases "valid (g_vols s v) \<and> \<not> read_only (g_vols s v) \<and>
      (\<exists>src d. r = Some src \<and> parent (nd s src) = Some d \<and> protection (nd s src) AND FIBF_DELETE = 0)")
    case False
    then have "\<exists>c. c \<noteq> 0 \<and> RamFS_Rename (Some v) old new s = Some (c, s)"
      using r(1) by (auto simp: RamFS_Rename_def split: option.split)
    then show ?thesis using triv by blast
  next
    case True
    then obtain src d where v: "valid (g_vols s v)" "\<not> read_only (g_vols s v)"
      and src: "r = Some src" "parent (nd s src) = Some d" "protection (nd s src) AND FIBF_DELETE = 0" by blast
    have sd: "src \<in> set (ch d)" using shapeD(3) [OF I(4), of src d] r(2) src by simp
    have rt: "ntype (nd s (root (g_vols s v))) = RAMFS_TYPE_DIR" by (rule shapeD(7) [OF I(4) v(1)])
    obtain w where w: "walk_parent s (root (g_vols s v)) [] (strip_path new) = Some w"
      "\<forall>e l. w = Some (e, l) \<longrightarrow> ntype (nd s e) = RAMFS_TYPE_DIR \<and> (l = [] \<or> name_ok l)"
      using walk_parent_total [OF I(1) rt, of "[]" "strip_path new"] by blast
    show ?thesis
    proof (cases "\<exists>dst leaf. w = Some (dst, leaf) \<and> leaf \<noteq> []")
      case False
      then show ?thesis using v r(1) src w(1)
        by (intro triv [of "-1"]) (auto simp: RamFS_Rename_def split: option.split)
    next
      case True
      then obtain dst leaf where dl: "w = Some (dst, leaf)" "leaf \<noteq> []" by blast
      have d: "ntype (nd s dst) = RAMFS_TYPE_DIR" "name_ok leaf" using w(2) dl by auto
      have nb: "(src, dst) \<notin> (child_rel ch)\<^sup>*" using safe r(1) src(1) w(1) dl(1) by (auto simp: rename_safe_def)
      have e: "RamFS_Rename (Some v) old new s = rename_to src dst leaf s"
        using v r(1) src w(1) dl by (simp add: RamFS_Rename_def)
      show ?thesis unfolding e using rename_to_spec [OF inv sd d(1) nb d(2)]
        apply (elim exE conjE)
        subgoal for rc s' ch' L' X
          by (rule exI [of _ rc], rule exI [of _ s'], rule exI [of _ ch'], rule exI [of _ L'])
            (use r(1) src(1) w(1) dl(1) in auto)
        done
    qed
  qed
qed

end
