(* ===== verification/RamFS_System.thy ===== *)
theory RamFS_System
  imports RamFS_Ops
begin

text \<open>
  The RAM file system as a transition system: the operations of \<^verbatim>\<open>kernel/dos/ramfs.c\<close> and the
  RAM-backed \<open>VFS_Write\<close> as steps from the state after \<open>RamFS_Init\<close>, the contract callers have to
  keep (\<open>caller_ok\<close>), and the invariant, termination and isolation of every call that keeps it.
\<close>

section \<open>Reading RAM files\<close>

lemma pool_bytes_drop:
  "unat off + k \<le> n \<Longrightarrow> pool_bytes q p off k = take k (drop (unat off) (pool_bytes q p 0 n))"
  by (rule nth_equalityI) (simp_all add: pool_bytes_def add.assoc)

lemma RamFS_Read_spec:
  assumes inv: "fs_inv s ch L" and n: "ntype (nd s n) = RAMFS_TYPE_FILE" "ext_bdev (nd s n) = None"
  shows "RamFS_Read devs (Some n) off len s = Some (take (unat len) (drop (unat off) (contents s n)), s)"
proof -
  note I = fs_invD [OF inv]
  have l: "live_node s n" using n(1) by simp
  have len: "length (contents s n) = unat (fsize (nd s n))" by (rule contents_length [OF I(3) l n(2)])
  show ?thesis
  proof (cases "off \<ge> fsize (nd s n)")
    case True
    then show ?thesis using n len by (simp add: RamFS_Read_def word_le_nat_alt)
  next
    case False
    then have o: "unat off < unat (fsize (nd s n))" by (simp add: word_le_nat_alt)
    obtain p where p: "data (nd s n) = Some p"
      using file_has_buffer [OF inv l, of off] files_okD(4) [OF I(3) l n(2)] False by force
    define k where "k = (if len > fsize (nd s n) - off then fsize (nd s n) - off else len)"
    have sub: "unat (fsize (nd s n) - off) = unat (fsize (nd s n)) - unat off"
      using False by (intro unat_sub) simp
    have k: "unat k = min (unat len) (unat (fsize (nd s n)) - unat off)"
      unfolding k_def using sub by (simp add: word_less_nat_alt min_def)
    then have "pool_bytes (fpool s) p off (unat k) = take (unat k) (drop (unat off) (contents s n))"
      using o p by (subst pool_bytes_drop [where n = "unat (fsize (nd s n))"]) (auto simp: contents_def)
    also have "\<dots> = take (unat len) (drop (unat off) (contents s n))" using k len by (simp add: min_def)
    finally have "pool_bytes (fpool s) p off (unat k) = take (unat len) (drop (unat off) (contents s n))" .
    then show ?thesis using False n p unfolding k_def by (simp add: RamFS_Read_def Let_def)
  qed
qed

section \<open>Operations as steps\<close>

datatype fs_op =
    Mount string
  | SetRO nat bool
  | Relabel nat string
  | MkDir u32 nat string
  | Create u32 nat string
  | Write u32 nat "u8 list"
  | VWrite vfs_file "u8 list"
  | Delete nat string
  | Rename nat string string
  | SetAttr nat u8
  | SetProt nat u16

fun fs_exec :: "fs_op \<Rightarrow> ramfs \<Rightarrow> ramfs option" where
  "fs_exec (Mount nm) s = Some (snd (RamFS_MountVol nm s))"
| "fs_exec (SetRO v b) s = Some (RamFS_SetReadOnly (Some v) b s)"
| "fs_exec (Relabel v nm) s = Some (snd (RamFS_RenameVol (Some v) (Some nm) s))"
| "fs_exec (MkDir now v p) s = map_option snd (RamFS_MkDir now (Some v) p s)"
| "fs_exec (Create now v p) s = map_option snd (RamFS_Create now (Some v) p s)"
| "fs_exec (Write now n bs) s = map_option snd (RamFS_Write now (Some n) bs (of_nat (length bs)) s)"
| "fs_exec (VWrite fh bs) s = map_option (snd \<circ> snd) (VFS_Write bs (of_nat (length bs)) fh s)"
| "fs_exec (Delete v p) s = map_option snd (RamFS_Delete (Some v) p s)"
| "fs_exec (Rename v p q) s = map_option snd (RamFS_Rename (Some v) p q s)"
| "fs_exec (SetAttr n a) s = map_option snd (RamFS_SetAttrs (Some n) a s)"
| "fs_exec (SetProt n p) s = map_option snd (RamFS_SetProtection (Some n) p s)"

text \<open>The contract of the callers.  The code checks none of these conditions, so they are assumptions
  on its clients and not branches of the model:
  \<^item> \<open>RamFS_MkDir\<close> is called on a path whose existing components are directories (the code descends
    into a file as if it were one);
  \<^item> \<open>RamFS_Write\<close> gets a RAM file and at most \<open>2 ^ 32 - 2 ^ 24\<close> bytes, so that the size computation
    of the pool does not wrap (the end of theory RamFS_Buffers shows what happens beyond);
  \<^item> \<open>VFS_Write\<close> gets an open RAM file whose position is inside the file and below the size limit,
    and a count with which the end position does not wrap;
  \<^item> \<open>RamFS_Rename\<close> does not move a directory below itself (the end of theory RamFS_Props shows
    what happens if it does);
  \<^item> \<open>RamFS_SetAttrs\<close> and \<open>RamFS_SetProtection\<close> get a node that is in use.
  \<^noindent> Mounting, relabelling, write protection, \<open>RamFS_Create\<close> and \<open>RamFS_Delete\<close> are unrestricted.\<close>

definition fs_below :: "ramfs \<Rightarrow> (nat \<times> nat) set" where
  "fs_below s = {(d, c). live_node s c \<and> parent (nd s c) = Some d}"

definition rename_ok :: "nat \<Rightarrow> string \<Rightarrow> string \<Rightarrow> ramfs \<Rightarrow> bool" where
  "rename_ok v old new s \<longleftrightarrow>
     (\<forall>src dst leaf. RamFS_Resolve s (Some v) old = Some (Some src) \<longrightarrow>
        walk_parent s (root (g_vols s v)) [] (strip_path new) = Some (Some (dst, leaf)) \<longrightarrow>
        (src, dst) \<notin> (fs_below s)\<^sup>*)"

definition ram_file :: "ramfs \<Rightarrow> nat \<Rightarrow> bool" where
  "ram_file s n \<longleftrightarrow> ntype (nd s n) = RAMFS_TYPE_FILE \<and> ext_bdev (nd s n) = None"

fun caller_ok :: "fs_op \<Rightarrow> ramfs \<Rightarrow> bool" where
  "caller_ok (MkDir now v p) s = path_clear s (root (g_vols s v)) (strip_path p)"
| "caller_ok (Write now n bs) s = (ram_file s n \<and> length bs \<le> 2 ^ 32 - 2 ^ 24)"
| "caller_ok (VWrite fh bs) s =
     (\<not> fnil fh \<and> (case fnode fh of None \<Rightarrow> False
                   | Some n \<Rightarrow> ram_file s n \<and> fpos fh \<le> fsize (nd s n) \<and> fpos fh \<le> RAMFS_MAX_FILESIZE \<and>
                       unat (fpos fh) + length bs < 2 ^ 32))"
| "caller_ok (Rename v p q) s = rename_ok v p q s"
| "caller_ok (SetAttr n a) s = live_node s n"
| "caller_ok (SetProt n p) s = live_node s n"
| "caller_ok _ s = True"

text \<open>The nodes an operation names: the file that is written, truncated, deleted or overwritten.\<close>

definition entry_of :: "ramfs \<Rightarrow> nat \<Rightarrow> string \<Rightarrow> nat set" where
  "entry_of s v p =
     (case walk_parent s (root (g_vols s v)) [] (strip_path p) of
        Some (Some (dir, leaf)) \<Rightarrow> (case find_child s dir leaf of Some (Some n) \<Rightarrow> {n} | _ \<Rightarrow> {})
      | _ \<Rightarrow> {})"

fun fs_target :: "fs_op \<Rightarrow> ramfs \<Rightarrow> nat set" where
  "fs_target (Create now v p) s = entry_of s v p"
| "fs_target (Write now n bs) s = {n}"
| "fs_target (VWrite fh bs) s = set_option (fnode fh)"
| "fs_target (Delete v p) s = (case RamFS_Resolve s (Some v) p of Some (Some n) \<Rightarrow> {n} | _ \<Rightarrow> {})"
| "fs_target (Rename v p q) s = entry_of s v q"
| "fs_target _ s = {}"

lemma others_kept_mono: "others_kept X s s' \<Longrightarrow> X \<subseteq> Y \<Longrightarrow> others_kept Y s s'"
  by (auto simp: others_kept_def)

lemma child_rel_below: "tree s ch \<Longrightarrow> child_rel ch = fs_below s"
  using shapeD(3) [OF treeD(1)] by (auto simp: child_rel_def fs_below_def)

section \<open>Steps that change no link\<close>

lemma fs_inv_fields:
  assumes inv: "fs_inv s ch L" and st: "same_tree s s'"
    and k: "\<And>m. data (nd s' m) = data (nd s m)" "\<And>m. alloc (nd s' m) = alloc (nd s m)"
      "\<And>m. fsize (nd s' m) = fsize (nd s m)" "\<And>m. ext_bdev (nd s' m) = ext_bdev (nd s m)" "fpool s' = fpool s"
  shows "fs_inv s' ch L \<and> others_kept {} s s'"
proof -
  note I = fs_invD [OF inv]
  have ty: "ntype (nd s' m) = ntype (nd s m)" for m using st by (simp add: same_tree_def)
  show ?thesis
    using tree_same [OF st I(1)] I(2) files_kept [OF I(3) ty k] k(5) by (simp add: fs_inv_def)
qed

lemmas fs_inv_keep = fs_inv_fields [THEN conjunct1] fs_inv_fields [THEN conjunct2]

lemma SetReadOnly_spec:
  "fs_inv s ch L \<Longrightarrow> fs_inv (RamFS_SetReadOnly v b s) ch L \<and> others_kept {} s (RamFS_SetReadOnly v b s)"
  by (rule fs_inv_fields) (auto simp: RamFS_SetReadOnly_def same_tree_def split: option.split)

lemma RenameVol_spec:
  "fs_inv s ch L \<Longrightarrow> fs_inv (snd (RamFS_RenameVol v nm s)) ch L \<and> others_kept {} s (snd (RamFS_RenameVol v nm s))"
  by (rule fs_inv_fields) (auto simp: RamFS_RenameVol_def same_tree_def split: option.split)

lemma SetAttrs_spec:
  assumes "fs_inv s ch L" "live_node s n"
  shows "\<exists>rc s'. RamFS_SetAttrs (Some n) a s = Some (rc, s') \<and> fs_inv s' ch L \<and> others_kept {} s s'"
    "\<exists>rc s'. RamFS_SetProtection (Some n) p s = Some (rc, s') \<and> fs_inv s' ch L \<and> others_kept {} s s'"
proof -
  obtain b where b: "node_vol_read_only s n = Some b" using read_only_total [OF fs_invD(4) assms(2)] assms(1) by blast
  have "fs_inv (upd_node n f s) ch L \<and> others_kept {} s (upd_node n f s)"
    if "f = (\<lambda>x. x\<lparr>attrs := a\<rparr>) \<or> f = (\<lambda>x. x\<lparr>protection := p\<rparr>)" for f
    by (rule fs_inv_fields [OF assms(1)]) (use that in \<open>auto simp: same_tree_def\<close>)
  then show "\<exists>rc s'. RamFS_SetAttrs (Some n) a s = Some (rc, s') \<and> fs_inv s' ch L \<and> others_kept {} s s'"
    "\<exists>rc s'. RamFS_SetProtection (Some n) p s = Some (rc, s') \<and> fs_inv s' ch L \<and> others_kept {} s s'"
    using b assms(1) by (cases b; simp add: RamFS_SetAttrs_def RamFS_SetProtection_def)+
qed

section \<open>Every operation\<close>

lemma exec_Create:
  assumes inv: "fs_inv s ch L"
  shows "\<exists>s' ch' L'. fs_exec (Create now v p) s = Some s' \<and> fs_inv s' ch' L' \<and> others_kept (entry_of s v p) s s'"
proof -
  obtain r s' ch' where C: "RamFS_Create now (Some v) p s = Some (r, s')" "fs_inv s' ch' L"
    "case r of None \<Rightarrow> s' = s
     | Some n \<Rightarrow> others_kept {n} s s' \<and> ntype (nd s' n) = RAMFS_TYPE_FILE \<and> contents s' n = [] \<and>
        (\<exists>v' dir leaf. Some v = Some v' \<and> valid (g_vols s v') \<and> leaf \<noteq> [] \<and> ntype (nd s dir) = RAMFS_TYPE_DIR \<and>
           walk_parent s (root (g_vols s v')) [] (strip_path p) = Some (Some (dir, leaf)) \<and>
           (find_child s dir leaf = Some (Some n) \<and> ch' = ch \<and> same_tree s s' \<or>
            find_child s dir leaf = Some None \<and> ch' = ch(dir := ch dir @ [n]) \<and> name (nd s' n) = leaf \<and>
              ext_bdev (nd s' n) = None \<and> ntype (nd s n) = RAMFS_TYPE_FREE \<and>
              (\<forall>m. m \<noteq> n \<longrightarrow> linkeq (nd s' m) (nd s m))))"
    using RamFS_Create_spec [OF inv, of now "Some v" p] by blast
  have "others_kept (entry_of s v p) s s'"
  proof (cases r)
    case None
    then show ?thesis using C(3) by simp
  next
    case (Some n)
    then have k: "others_kept {n} s s'" and e: "n \<in> entry_of s v p \<or> \<not> live_node s n"
      using C(3) by (auto simp: entry_of_def live_node_def)
    then show ?thesis by (auto simp: others_kept_def)
  qed
  then show ?thesis using C(1,2) by auto
qed

lemma exec_Rename:
  assumes inv: "fs_inv s ch L" and ok: "rename_ok v p q s"
  shows "\<exists>s' ch' L'. fs_exec (Rename v p q) s = Some s' \<and> fs_inv s' ch' L' \<and> others_kept (entry_of s v q) s s'"
proof -
  have "rename_safe v p q s ch"
    using ok child_rel_below [OF fs_invD(1) [OF inv]] by (simp add: rename_safe_def rename_ok_def)
  from RamFS_Rename_spec [OF inv this]
  obtain rc s' ch' L' where R: "RamFS_Rename (Some v) p q s = Some (rc, s')" "fs_inv s' ch' L'"
    "if rc = 0 then \<exists>src dst leaf X. RamFS_Resolve s (Some v) p = Some (Some src) \<and>
       walk_parent s (root (g_vols s v)) [] (strip_path q) = Some (Some (dst, leaf)) \<and>
       find_child s dst leaf = Some X \<and> find_child s' dst leaf = Some (Some src) \<and>
       (ext_bdev (nd s src) = None \<longrightarrow> contents s' src = contents s src) \<and> others_kept (set_option X - {src}) s s'
     else s' = s"
    by blast
  have "others_kept (entry_of s v q) s s'"
  proof (cases "rc = 0")
    case True
    then obtain src dst leaf X where X: "walk_parent s (root (g_vols s v)) [] (strip_path q) = Some (Some (dst, leaf))"
      "find_child s dst leaf = Some X" "others_kept (set_option X - {src}) s s'" using R(3) by auto
    have "set_option X - {src} \<subseteq> entry_of s v q" using X(1,2) by (cases X) (auto simp: entry_of_def)
    with X(3) show ?thesis by (rule others_kept_mono)
  qed (use R(3) in simp)
  then show ?thesis using R(1,2) by auto
qed

lemma exec_Delete:
  assumes inv: "fs_inv s ch L"
  shows "\<exists>s' ch' L'. fs_exec (Delete v p) s = Some s' \<and> fs_inv s' ch' L' \<and> others_kept (fs_target (Delete v p) s) s s'"
proof -
  obtain rc s' ch' L' where D: "RamFS_Delete (Some v) p s = Some (rc, s')" "fs_inv s' ch' L'"
    "if rc = 0 then \<exists>n. RamFS_Resolve s (Some v) p = Some (Some n) \<and> others_kept {n} s s' else s' = s"
    using RamFS_Delete_spec [OF inv, of "Some v" p] by (auto split: if_splits)
  then have "others_kept (fs_target (Delete v p) s) s s'" by (auto split: if_splits)
  then show ?thesis using D(1,2) by auto
qed

lemma exec_Write:
  assumes inv: "fs_inv s ch L" and ok: "caller_ok (Write now n bs) s"
  shows "\<exists>s' ch' L'. fs_exec (Write now n bs) s = Some s' \<and> fs_inv s' ch' L' \<and> others_kept {n} s s'"
proof -
  have len: "unat (of_nat (length bs) :: u32) = length bs"
    using ok by (simp add: unat_of_nat take_bit_nat_eq_self)
  obtain rc s' L' where W: "RamFS_Write now (Some n) bs (of_nat (length bs)) s = Some (rc, s')" "fs_inv s' ch L'"
    "writes_only n s s'"
    using RamFS_Write_spec [OF inv, of n bs "of_nat (length bs)" now] ok len by (auto simp: ram_file_def)
  then show ?thesis using writes_only_kept by auto
qed

lemma exec_VWrite:
  assumes inv: "fs_inv s ch L" and ok: "caller_ok (VWrite fh bs) s"
  shows "\<exists>s' ch' L'. fs_exec (VWrite fh bs) s = Some s' \<and> fs_inv s' ch' L' \<and> others_kept (set_option (fnode fh)) s s'"
proof -
  obtain n where n: "fnode fh = Some n" "ram_file s n" "\<not> fnil fh" "fpos fh \<le> fsize (nd s n)"
    "fpos fh \<le> RAMFS_MAX_FILESIZE" "unat (fpos fh) + length bs < 2 ^ 32"
    using ok by (auto split: option.splits)
  have len: "unat (of_nat (length bs) :: u32) = length bs"
    using n(6) by (simp add: unat_of_nat take_bit_nat_eq_self)
  obtain w fh' s' L' where W: "VFS_Write bs (of_nat (length bs)) fh s = Some (w, fh', s')" "fs_inv s' ch L'"
    "writes_only n s s'"
    using VFS_Write_spec [OF inv, of n fh bs "of_nat (length bs)"] n len by (auto simp: ram_file_def)
  then show ?thesis using writes_only_kept n(1) by auto
qed

lemma fs_exec_spec:
  assumes inv: "fs_inv s ch L" and ok: "caller_ok op s"
  shows "\<exists>s' ch' L'. fs_exec op s = Some s' \<and> fs_inv s' ch' L' \<and> others_kept (fs_target op s) s s'"
proof (cases op)
  case (Mount nm)
  obtain r s' where m: "RamFS_MountVol nm s = (r, s')" by fastforce
  show ?thesis using RamFS_MountVol_spec [OF inv m] Mount m by auto
next
  case (MkDir now v p)
  obtain r s' ch' where "RamFS_MkDir now (Some v) p s = Some (r, s')" "fs_inv s' ch' L" "others_kept {} s s'"
    using RamFS_MkDir_spec [OF inv, of "Some v" p now] ok MkDir by auto
  then show ?thesis using MkDir by auto
next
  case (SetAttr n a)
  then obtain rc s' where "RamFS_SetAttrs (Some n) a s = Some (rc, s')" "fs_inv s' ch L" "others_kept {} s s'"
    using SetAttrs_spec(1) [OF inv] ok by (metis caller_ok.simps(5))
  then show ?thesis using SetAttr by auto
next
  case (SetProt n a)
  then obtain rc s' where "RamFS_SetProtection (Some n) a s = Some (rc, s')" "fs_inv s' ch L" "others_kept {} s s'"
    using SetAttrs_spec(2) [OF inv] ok by (metis caller_ok.simps(6))
  then show ?thesis using SetProt by auto
next
  case (Delete v p)
  then show ?thesis using exec_Delete [OF inv] by simp
next
  case (SetRO v b)
  then show ?thesis using SetReadOnly_spec [OF inv, of "Some v" b] by auto
next
  case (Relabel v nm)
  then show ?thesis using RenameVol_spec [OF inv, of "Some v" "Some nm"] by auto
next
  case (Create now v p)
  then show ?thesis using exec_Create [OF inv] by simp
next
  case (Write now n bs)
  then show ?thesis using exec_Write [OF inv] ok by (simp del: caller_ok.simps fs_exec.simps)
next
  case (VWrite fh bs)
  then show ?thesis using exec_VWrite [OF inv] ok by (simp del: caller_ok.simps fs_exec.simps)
next
  case (Rename v p q)
  then show ?thesis using exec_Rename [OF inv] ok by simp
qed

section \<open>Reachable states\<close>

text \<open>The static storage is zero at boot.\<close>

definition node_zero :: ramfs_node where
  "node_zero = \<lparr>ntype = RAMFS_TYPE_FREE, attrs = 0, protection = 0, name = [], comment = [], parent = None,
     first_child = None, next_sibling = None, mtime = 0, data = None, fsize = 0, alloc = 0, ext_bdev = None,
     ext_lba = 0, ext_blksz = 0\<rparr>"

definition sec_zero :: "u8 list" where "sec_zero = replicate 8192 0"

definition fs_zero :: ramfs where
  "fs_zero = \<lparr>fpool = \<lparr>g_pool = \<lambda>_. 0, g_pool_top = 0, g_free_head = POOL_NIL, g_pool_used = 0\<rparr>,
     g_nodes = \<lambda>_. node_zero, g_vols = \<lambda>_. \<lparr>vname = [], root = 0, valid = False, read_only = False\<rparr>,
     g_sec_bdev = None, g_sec_devsec = 0, g_sec_blksz = 0, g_sec_valid = False, g_sec_buf = sec_zero\<rparr>"

text \<open>A sequence of calls, and when all of its calls keep the contract.  \<open>fs_reach\<close> is the set of
  states such sequences lead to (\<open>fs_reach_runs\<close>).\<close>

fun fs_run :: "fs_op list \<Rightarrow> ramfs \<Rightarrow> ramfs option" where
  "fs_run [] s = Some s"
| "fs_run (op # ops) s = (case fs_exec op s of None \<Rightarrow> None | Some s' \<Rightarrow> fs_run ops s')"

fun within_contract :: "fs_op list \<Rightarrow> ramfs \<Rightarrow> bool" where
  "within_contract [] s = True"
| "within_contract (op # ops) s =
     (caller_ok op s \<and> (case fs_exec op s of None \<Rightarrow> True | Some s' \<Rightarrow> within_contract ops s'))"

inductive fs_reach :: "ramfs \<Rightarrow> bool" where
  boot: "fs_reach (RamFS_Init fs_zero)"
| oper: "fs_reach s \<Longrightarrow> caller_ok op s \<Longrightarrow> fs_exec op s = Some s' \<Longrightarrow> fs_reach s'"

lemma fs_inv_boot: "fs_inv (RamFS_Init fs_zero) (\<lambda>_. []) Map.empty"
proof -
  let ?s = "RamFS_Init fs_zero"
  have z: "nd ?s n = node_zero" "\<not> live_node ?s n" "\<not> valid (g_vols ?s v)" for n v
    by (simp_all add: RamFS_Init_def fs_zero_def live_node_def node_zero_def)
  have "pool_live (fpool ?s) Map.empty"
    using pool_rep_Init by (auto simp: RamFS_Init_def pool_live_def buffers_def intro!: exI [of _ "[]"])
  moreover have "tree ?s (\<lambda>_. [])" unfolding tree_def links_def shape_def using z by auto
  moreover have "files_ok ?s Map.empty" unfolding files_ok_def using z by auto
  ultimately show ?thesis by (simp add: fs_inv_def)
qed

lemma fs_reach_inv: "fs_reach s \<Longrightarrow> \<exists>ch L. fs_inv s ch L"
proof (induction rule: fs_reach.induct)
  case (oper s op s')
  then show ?case using fs_exec_spec by fastforce
qed (use fs_inv_boot in blast)

lemma fs_run_inv:
  "fs_inv s ch L \<Longrightarrow> within_contract ops s \<Longrightarrow> \<exists>s' ch' L'. fs_run ops s = Some s' \<and> fs_inv s' ch' L'"
proof (induction ops arbitrary: s ch L)
  case (Cons op ops)
  obtain t ch' L' where t: "fs_exec op s = Some t" "fs_inv t ch' L'"
    using fs_exec_spec [OF Cons.prems(1)] Cons.prems(2) by fastforce
  then show ?case using Cons.IH [OF t(2)] Cons.prems(2) by simp
qed auto

lemma fs_run_append: "fs_run (ops @ ops') s = (case fs_run ops s of None \<Rightarrow> None | Some s' \<Rightarrow> fs_run ops' s')"
  by (induction ops arbitrary: s) (auto split: option.split)

lemma within_contract_append:
  "within_contract (ops @ ops') s \<longleftrightarrow>
     within_contract ops s \<and> (case fs_run ops s of None \<Rightarrow> True | Some s' \<Rightarrow> within_contract ops' s')"
  by (induction ops arbitrary: s) (auto split: option.split)

lemma fs_run_reach: "fs_reach s \<Longrightarrow> within_contract ops s \<Longrightarrow> fs_run ops s = Some s' \<Longrightarrow> fs_reach s'"
  by (induction ops arbitrary: s) (auto split: option.splits intro: fs_reach.oper)

lemma fs_reach_runs:
  "fs_reach s \<longleftrightarrow> (\<exists>ops. within_contract ops (RamFS_Init fs_zero) \<and> fs_run ops (RamFS_Init fs_zero) = Some s)"
proof
  assume "fs_reach s"
  then show "\<exists>ops. within_contract ops (RamFS_Init fs_zero) \<and> fs_run ops (RamFS_Init fs_zero) = Some s"
  proof (induction rule: fs_reach.induct)
    case boot
    show ?case by (rule exI [of _ "[]"]) simp
  next
    case (oper s op s')
    then obtain ops where "within_contract ops (RamFS_Init fs_zero)" "fs_run ops (RamFS_Init fs_zero) = Some s" by blast
    then show ?case using oper.hyps
      by (intro exI [of _ "ops @ [op]"]) (simp add: fs_run_append within_contract_append)
  qed
qed (use fs_run_reach fs_reach.boot in blast)

end
