(* ===== verification/RamFS_Props.thy ===== *)
theory RamFS_Props
  imports RamFS_System
begin

text \<open>
  The properties of the RAM file system: the invariant, termination and isolation over all
  states reached by calls that keep the contract \<open>caller_ok\<close> of theory RamFS_System, writing and
  reading back, path names against creation and deletion, and what a rename below itself does.
\<close>

section \<open>Looking up names\<close>

lemma find_child_iff:
  assumes t: "tree s ch" and d: "live_node s d"
  shows "find_child s d c = Some (Some e) \<longleftrightarrow> e \<in> set (ch d) \<and> seq_ci (name (nd s e)) c"
    and "find_child s d c = Some None \<longleftrightarrow> (\<forall>e\<in>set (ch d). \<not> seq_ci (name (nd s e)) c)"
proof -
  note f = find_child_spec [OF t d, of c]
  have u: "e = e'" if "e \<in> set (ch d)" "e' \<in> set (ch d)" "seq_ci (name (nd s e)) c" "seq_ci (name (nd s e')) c" for e e'
    using shapeD(5) [OF treeD(1) [OF t], of d] that by (auto simp: seq_ci_iff distinct_map inj_on_def)
  show "find_child s d c = Some (Some e) \<longleftrightarrow> e \<in> set (ch d) \<and> seq_ci (name (nd s e)) c"
  proof
    assume e: "e \<in> set (ch d) \<and> seq_ci (name (nd s e)) c"
    then have "find (\<lambda>n. seq_ci (name (nd s n)) c) (ch d) \<noteq> None" by (auto simp: find_None_iff)
    then obtain e' where e': "find (\<lambda>n. seq_ci (name (nd s n)) c) (ch d) = Some e'" by blast
    have "e' = e" using u find_SomeD [OF e'] e by blast
    then show "find_child s d c = Some (Some e)" using f e' by simp
  qed (use find_child_live(2) [OF t d] in blast)
  show "find_child s d c = Some None \<longleftrightarrow> (\<forall>e\<in>set (ch d). \<not> seq_ci (name (nd s e)) c)"
    using f by (auto simp: find_None_iff)
qed

lemma comps_nonempty: "walk_parent s d [] p = Some (Some (dir, leaf)) \<Longrightarrow> leaf \<noteq> [] \<Longrightarrow> comps p \<noteq> []"
  by (subst (asm) walk_parent.simps, subst comps.simps) (auto split: option.splits)

lemma walk_parent_mono:
  assumes f: "\<And>e c f. live_node s e \<Longrightarrow> find_child s e c = Some (Some f) \<Longrightarrow> find_child s' e c = Some (Some f)"
    and ty: "\<And>m. live_node s m \<Longrightarrow> ntype (nd s' m) = ntype (nd s m)" and t: "tree s ch"
  shows "live_node s d \<Longrightarrow> walk_parent s d l p = Some (Some r) \<Longrightarrow> walk_parent s' d l p = Some (Some r)"
  using f ty t
proof (induction s d l p rule: walk_parent.induct)
  case (1 s d l p)
  show ?case
  proof (cases "next_component p")
    case None
    then show ?thesis using 1(4) by (subst walk_parent.simps, subst (asm) walk_parent.simps) simp
  next
    case (Some q)
    obtain cn rest where q: "next_component p = Some (cn, rest)" using Some by (cases q) auto
    show ?thesis
    proof (cases "rest = []")
      case True
      have w: "walk_parent s d (scopy cn RAMFS_MAX_NAME) rest = Some (Some r)"
        using 1(4) q True by (subst (asm) walk_parent.simps) simp
      have "walk_parent s' d (scopy cn RAMFS_MAX_NAME) rest = Some (Some r)"
        by (rule 1(1) [OF q refl True 1(3) w]) (fact 1(5), fact 1(6), fact 1(7))
      then show ?thesis using q True by (subst walk_parent.simps) simp
    next
      case False
      then obtain c where c: "find_child s d cn = Some (Some c)" "ntype (nd s c) = RAMFS_TYPE_DIR"
        "walk_parent s c (scopy cn RAMFS_MAX_NAME) rest = Some (Some r)"
        using 1(4) q by (subst (asm) walk_parent.simps) (auto split: option.splits if_splits)
      have lc: "live_node s c" using c(2) by simp
      have "walk_parent s' c (scopy cn RAMFS_MAX_NAME) rest = Some (Some r)"
        by (rule 1(2) [OF q refl False c(1) refl _ lc c(3)]) (simp add: c(2), fact 1(5), fact 1(6), fact 1(7))
      then show ?thesis using q False 1(5) [OF 1(3) c(1)] 1(6) [OF lc] c(2) by (subst walk_parent.simps) simp
    qed
  qed
qed

lemma linkeq_names: "linkeq x y \<Longrightarrow> name x = name y" by (rule linkeqD(3))

lemma create_resolve:
  assumes inv: "fs_inv s ch L" and p: "path_rest (strip_path p) = []"
    and c: "RamFS_Create now (Some v) p s = Some (Some n, s')"
  shows "RamFS_Resolve s' (Some v) p = Some (Some n)"
proof -
  note I = fs_invD [OF inv]
  obtain ch' dir leaf where C: "fs_inv s' ch' L" "g_vols s' = g_vols s" "valid (g_vols s v)" "leaf \<noteq> []"
    "ntype (nd s dir) = RAMFS_TYPE_DIR" "walk_parent s (root (g_vols s v)) [] (strip_path p) = Some (Some (dir, leaf))"
    and D: "find_child s dir leaf = Some (Some n) \<and> ch' = ch \<and> same_tree s s' \<or>
      find_child s dir leaf = Some None \<and> ch' = ch(dir := ch dir @ [n]) \<and> name (nd s' n) = leaf \<and>
        ntype (nd s n) = RAMFS_TYPE_FREE \<and> (\<forall>m. m \<noteq> n \<longrightarrow> linkeq (nd s' m) (nd s m))"
    using RamFS_Create_spec [OF inv, of now "Some v" p] c by auto
  note J = fs_invD [OF C(1)]
  have rt: "live_node s (root (g_vols s v))" using shapeD(7) [OF I(4) C(3)] by simp
  have same: "ntype (nd s' m) = ntype (nd s m) \<and> name (nd s' m) = name (nd s m)" if "live_node s m" for m
    using D
  proof
    assume "find_child s dir leaf = Some (Some n) \<and> ch' = ch \<and> same_tree s s'"
    then show ?thesis by (simp add: same_tree_def)
  next
    assume a: "find_child s dir leaf = Some None \<and> ch' = ch(dir := ch dir @ [n]) \<and> name (nd s' n) = leaf \<and>
        ntype (nd s n) = RAMFS_TYPE_FREE \<and> (\<forall>m. m \<noteq> n \<longrightarrow> linkeq (nd s' m) (nd s m))"
    then have "m \<noteq> n" using that by (auto simp: live_node_def)
    then show ?thesis using a linkeqD(1,3) by blast
  qed
  have lv: "live_node s' m" if "live_node s m" for m using same [OF that] that by (simp add: live_node_def)
  have ld: "live_node s dir" using C(5) by simp
  have sub: "set (ch e) \<subseteq> set (ch' e)" for e using D by auto
  have f: "find_child s' e c = Some (Some f)" if "live_node s e" "find_child s e c = Some (Some f)" for e c f
  proof -
    have "f \<in> set (ch e)" "seq_ci (name (nd s f)) c" using find_child_iff(1) [OF I(1) that(1)] that(2) by auto
    then show ?thesis using find_child_iff(1) [OF J(1) lv [OF that(1)]] sub same shapeD(3) [OF I(4), of f e] by auto
  qed
  have "walk_parent s' (root (g_vols s v)) [] (strip_path p) = Some (Some (dir, leaf))"
    by (rule walk_parent_mono [OF f _ I(1) rt C(6)]) (use same in auto)
  then have "resolve_comps s' (root (g_vols s v)) (comps (strip_path p)) = find_child s' dir leaf"
    using walk_resolve p comps_nonempty C(4) by blast
  moreover have "find_child s' dir leaf = Some (Some n)"
    using D f [OF ld, of leaf n] find_child_iff(1) [OF J(1) lv [OF ld], of leaf n] by (auto simp: seq_ci_iff)
  ultimately show ?thesis using C(2,3) by (simp add: RamFS_Resolve_def resolve_from_comps)
qed

lemma resolve_removed:
  assumes t: "tree s ch" "tree s' ch'" and n: "n \<in> set (ch d)" "ch n = []" and ch': "ch' = ch(d := remove1 n (ch d))"
    and same: "\<And>m. m \<noteq> n \<Longrightarrow> live_node s' m = live_node s m \<and> name (nd s' m) = name (nd s m)"
  shows "live_node s e \<Longrightarrow> e \<noteq> n \<Longrightarrow> resolve_comps s e cs = Some (Some n) \<Longrightarrow> resolve_comps s' e cs = Some None"
proof (induction cs arbitrary: e)
  case (Cons c cs)
  obtain f where f: "find_child s e c = Some (Some f)" "resolve_comps s f cs = Some (Some n)"
    using Cons.prems(3) by (auto split: option.splits)
  have F: "f \<in> set (ch e)" "seq_ci (name (nd s f)) c" "live_node s f"
    using find_child_live(2) [OF t(1) Cons.prems(1) f(1)] by auto
  have le: "live_node s' e" using same Cons.prems by simp
  have mem: "g \<in> set (ch' e) \<longleftrightarrow> g \<in> set (ch e) \<and> g \<noteq> n" for g
    using ch' shapeD(1) [OF treeD(1) [OF t(1)], of d] ch_disjoint [OF treeD(1) [OF t(1)] n(1), of e] by auto
  show ?case
  proof (cases "f = n")
    case True
    have "\<not> seq_ci (name (nd s' g)) c" if "g \<in> set (ch' e)" for g
    proof
      assume "seq_ci (name (nd s' g)) c"
      then have "find_child s e c = Some (Some g)"
        using find_child_iff(1) [OF t(1) Cons.prems(1)] mem same that by auto
      then show False using f(1) True mem that by auto
    qed
    then have "find_child s' e c = Some None" using find_child_iff(2) [OF t(2) le] by blast
    then show ?thesis by simp
  next
    case False
    then have "find_child s' e c = Some (Some f)" using find_child_iff(1) [OF t(2) le] mem same F by auto
    then show ?thesis using Cons.IH [OF F(3) False f(2)] by simp
  qed
qed simp

lemma delete_resolve:
  assumes inv: "fs_inv s ch L" and d: "RamFS_Delete (Some v) p s = Some (0, s')"
  shows "RamFS_Resolve s' (Some v) p = Some None"
proof -
  obtain ch' L' n d where D: "fs_inv s' ch' L'" "valid (g_vols s v)" "RamFS_Resolve s (Some v) p = Some (Some n)"
    "n \<in> set (ch d)" "ch n = []" "ch' = ch(d := remove1 n (ch d))" "\<forall>m. m \<noteq> n \<longrightarrow> linkeq (nd s' m) (nd s m)"
    "g_vols s' = g_vols s"
    using RamFS_Delete_spec [OF inv, of "Some v" p] d by auto
  have t: "tree s ch" "tree s' ch'" using fs_invD(1) inv D(1) by blast+
  have rt: "live_node s (root (g_vols s v))" "root (g_vols s v) \<noteq> n"
    using shapeD(7,8) [OF treeD(1) [OF t(1)] D(2)] shapeD(3) [OF treeD(1) [OF t(1)], of n d] D(4) by auto
  have R: "resolve_comps s (root (g_vols s v)) (comps (strip_path p)) = Some (Some n)"
    using D(2,3) by (simp add: RamFS_Resolve_def resolve_from_comps)
  have "live_node s' m = live_node s m \<and> name (nd s' m) = name (nd s m)" if "m \<noteq> n" for m
    using linkeqD(1,3) D(7) that unfolding live_node_def by metis
  from resolve_removed [OF t D(4-6) this rt R]
  have "resolve_comps s' (root (g_vols s v)) (comps (strip_path p)) = Some None" .
  then show ?thesis using D(2,8) by (simp add: RamFS_Resolve_def resolve_from_comps)
qed

section \<open>A concrete session\<close>

text \<open>Mount a volume, create a directory in a directory and a file, and write the file.\<close>

lemma first_index_from_numeral:
  "first_index_from p i (numeral k) = (if p i then Some i else first_index_from p (Suc i) (pred_numeral k))"
  by (simp add: numeral_eq_Suc)

lemma find_sibling_eqs:
  "find_sibling s nm None = Some None"
  "find_sibling s nm (Some n) = (if seq_ci (name (nd s n)) nm then Some (Some n)
     else find_sibling s nm (next_sibling (nd s n)))"
  by (subst find_sibling.simps, simp)+

lemma last_sibling_eqs:
  "next_sibling (nd s n) = None \<Longrightarrow> last_sibling s n = Some n"
  "next_sibling (nd s n) = Some m \<Longrightarrow> last_sibling s n = last_sibling s m"
  by (subst last_sibling.simps, simp)+

lemma climb_root_eqs:
  "parent (nd s n) = None \<Longrightarrow> climb_root s n = Some n"
  "parent (nd s n) = Some m \<Longrightarrow> climb_root s n = climb_root s m"
  by (subst climb_root.simps, simp)+

lemma alloc_scan_NIL: "alloc_scan need prev POOL_NIL t = Some (None, t)"
  by (subst alloc_scan.simps) simp

lemmas fs_eval = RamFS_MountVol_def MAX_VOLS_def first_index_def alloc_node_def RAMFS_MAX_NODES_def upd_node_def
  first_index_from_numeral RamFS_Init_def RamFS_Init_pool_def node_zero_def fs_zero_def scopy_def RamFS_MkDir_def
  strip_path_def skip_vol_prefix_def next_component_def RAMFS_MAX_NAME_def new_child_def dir_add_child_def find_child_def
  lower_def mkdir_walk.simps path_clear.simps find_sibling_eqs last_sibling_eqs RamFS_Create_def walk_parent.simps

definition fs_demo_ops :: "fs_op list" where
  "fs_demo_ops = [Mount ''RAM'', MkDir 7 0 ''RAM:a'', MkDir 7 0 ''a/b'', Create 7 0 ''a/f'', Write 8 3 [1, 2, 3]]"

definition fs_demo :: ramfs where "fs_demo = the (fs_run fs_demo_ops (RamFS_Init fs_zero))"

lemmas pool_steps = RamFS_AllocPool_def alloc_need_def POOL_HDR_def POOL_ALIGN_def POOL_SZ_def set_size_def
  RamFS_FreePool_def Let_def alloc_scan_NIL

lemma free_scan_NIL: "free_scan off prev POOL_NIL q = Some (prev, POOL_NIL)"
  by (subst free_scan.simps) simp

lemma prev_sibling_eqs:
  "prev_sibling s c None = Some None"
  "prev_sibling s c (Some n) = (if next_sibling (nd s n) = Some c then Some (Some n)
     else prev_sibling s c (next_sibling (nd s n)))"
  by (subst prev_sibling.simps, simp)+

lemmas fs_file_eval = fs_eval ram_file_def RamFS_Write_def RAMFS_ATTR_READONLY_def node_vol_read_only_def vol_of_node_def
  climb_root_eqs pool_steps RamFS_Resolve_def resolve_from.simps DEFAULT_PROTECTION_def FIBF_DELETE_def

lemma fs_demo_evals:
  "map_option (\<lambda>s. (ntype (nd s 2), valid (g_vols s 0), read_only (g_vols s 0), protection (nd s 1) AND FIBF_DELETE,
       walk_parent s (root (g_vols s 0)) [] (strip_path ''a/b/c''), find_child s 2 ''c''))
     (fs_run fs_demo_ops (RamFS_Init fs_zero)) =
   Some (RAMFS_TYPE_DIR, True, False, 0, Some (Some (2, ''c'')), Some None)"
  "map_option (\<lambda>s. case RamFS_Create 9 (Some 0) ''RAM:a/b/g'' s of None \<Rightarrow> False | Some (r, t) \<Rightarrow> r = Some 4)
     (fs_run fs_demo_ops (RamFS_Init fs_zero)) = Some True"
  "map_option (\<lambda>s. case RamFS_Delete (Some 0) ''a/f'' s of None \<Rightarrow> False | Some (rc, t) \<Rightarrow> rc = 0)
     (fs_run fs_demo_ops (RamFS_Init fs_zero)) = Some True"
  unfolding fs_demo_ops_def
  by (simp_all add: fs_file_eval RamFS_Delete_def dir_remove_child_def prev_sibling_eqs free_scan_NIL merge_next_def merge_prev_def
    pool_put_def)

lemma fs_demo_run:
  "fs_run fs_demo_ops (RamFS_Init fs_zero) = Some fs_demo"
  "map_option (\<lambda>s. (parent (nd s 1), parent (nd s 2), ntype (nd s 3), ext_bdev (nd s 3), fsize (nd s 3), parent (nd s 3),
       RamFS_Resolve s (Some 0) ''a/b'', attrs (nd s 3), node_vol_read_only s 3, RamFS_Resolve s (Some 0) ''a''))
     (fs_run fs_demo_ops (RamFS_Init fs_zero)) =
     Some (Some 0, Some 1, RAMFS_TYPE_FILE, None, 3, Some 1, Some (Some 2), 0, Some False, Some (Some 1))"
  unfolding fs_demo_def fs_demo_ops_def by (simp_all add: fs_file_eval)

lemma fs_demo_contract: "within_contract fs_demo_ops (RamFS_Init fs_zero)"
  unfolding fs_demo_ops_def by (simp add: fs_file_eval)

lemma fs_demo_reach: "fs_reach fs_demo"
  by (rule fs_run_reach [OF fs_reach.boot fs_demo_contract fs_demo_run(1)])

lemma fs_demo_nodes:
  "parent (nd fs_demo 1) = Some 0" "parent (nd fs_demo 2) = Some 1" "ntype (nd fs_demo 3) = RAMFS_TYPE_FILE"
  "ext_bdev (nd fs_demo 3) = None" "fsize (nd fs_demo 3) = 3" "parent (nd fs_demo 3) = Some 1"
  "RamFS_Resolve fs_demo (Some 0) ''a/b'' = Some (Some 2)" "attrs (nd fs_demo 3) = 0"
  "node_vol_read_only fs_demo 3 = Some False" "RamFS_Resolve fs_demo (Some 0) ''a'' = Some (Some 1)"
  using fs_demo_run by simp_all

lemma fs_demo_more:
  "ntype (nd fs_demo 2) = RAMFS_TYPE_DIR" "valid (g_vols fs_demo 0)" "\<not> read_only (g_vols fs_demo 0)"
  "protection (nd fs_demo 1) AND FIBF_DELETE = 0"
  "walk_parent fs_demo (root (g_vols fs_demo 0)) [] (strip_path ''a/b/c'') = Some (Some (2, ''c''))"
  "find_child fs_demo 2 ''c'' = Some None"
  using fs_demo_evals(1) fs_demo_run(1) by simp_all

lemma fs_demo_create: "\<exists>n s'. RamFS_Create 9 (Some 0) ''RAM:a/b/g'' fs_demo = Some (Some n, s')"
  using fs_demo_evals(2) fs_demo_run(1) by (auto split: option.splits)

lemma fs_demo_delete: "\<exists>s'. RamFS_Delete (Some 0) ''a/f'' fs_demo = Some (0, s')"
  using fs_demo_evals(3) fs_demo_run(1) by (auto split: option.splits)

section \<open>Renaming below itself\<close>

lemma climb_root_cycle:
  assumes closed: "\<And>m. m \<in> C \<Longrightarrow> \<exists>p\<in>C. parent (nd s m) = Some p" and n: "n \<in> C"
  shows "climb_root s n = None"
proof (rule ccontr)
  assume "climb_root s n \<noteq> None"
  then obtain r where "climb_root s n = Some r" by blast
  then have "s = s \<longrightarrow> n \<notin> C"
  proof (rule climb_root.raw_induct [of "\<lambda>t m y. t = s \<longrightarrow> m \<notin> C", rotated])
    fix f t m y assume IH: "\<And>t m y. f t m = Some y \<Longrightarrow> t = s \<longrightarrow> m \<notin> C"
      and e: "(case parent (nd t m) of None \<Rightarrow> Some m | Some p \<Rightarrow> f t p) = Some y"
    show "t = s \<longrightarrow> m \<notin> C"
    proof (intro impI notI)
      assume "t = s" "m \<in> C"
      then obtain p where p: "p \<in> C" "parent (nd t m) = Some p" using closed by blast
      then have "f t p = Some y" using e by simp
      then show False using IH \<open>t = s\<close> p(1) by blast
    qed
  qed
  then show False using n by blast
qed

lemma dir_add_child_parents:
  assumes "sibs s (first_child (nd s d)) cs None" "child \<notin> set cs"
  shows "\<exists>s'. dir_add_child d child s = Some s' \<and> (\<forall>m. parent (nd s' m) = parent (nd s m))"
proof (cases cs)
  case Nil
  then show ?thesis using assms by (cases "child = d") (simp_all add: dir_add_child_def Let_def)
next
  case (Cons c cs')
  let ?s = "upd_node child (\<lambda>x. x\<lparr>next_sibling := None\<rparr>) s"
  have "sibs ?s (Some c) (c # cs') None"
    using assms(1,2) by (subst sibs_frame [of _ _ s]) (auto simp: Cons)
  from last_sibling_spec [OF this] show ?thesis
    using assms(1) by (cases "child = d") (simp_all add: dir_add_child_def Let_def Cons)
qed

lemma rename_link_cycle:
  assumes inv: "fs_inv s ch L" and src: "src \<in> set (ch d)" and dst: "(src, dst) \<in> (fs_below s)\<^sup>*"
  shows "\<exists>s'. rename_link src dst leaf s = Some s' \<and> climb_root s' src = None"
proof -
  note I = fs_invD [OF inv]
  have below: "fs_below s = child_rel ch" using child_rel_below [OF I(1)] by simp
  obtain rk :: "nat \<Rightarrow> nat" where rk: "\<forall>c d. c \<in> set (ch d) \<longrightarrow> rk d < rk c" using shapeD(4) [OF I(4)] by blast
  have le: "rk a \<le> rk b" if "(a, b) \<in> (fs_below s)\<^sup>*" for a b
    using that by (induction rule: rtrancl_induct) (use rk below in \<open>force simp: child_rel_def\<close>)+
  have p: "parent (nd s src) = Some d" "live_node s src" using shapeD(3) [OF I(4), of src d] src by auto
  have dd: "d \<noteq> dst" using le [OF dst] rk src by fastforce
  have ns: "src \<notin> set (ch dst)" using le [OF dst] rk by fastforce
  have lv: "live_node s d" "live_node s dst"
  proof -
    show "live_node s d" using parent_dir [OF I(4) src] by simp
    show "live_node s dst" using dst p(2) by (cases rule: rtranclE) (auto simp: fs_below_def)
  qed
  obtain xs ys where x: "ch d = xs @ src # ys" "src \<notin> set xs" using src by (metis split_list_first)
  obtain s1 where s1: "dir_remove_child d src s = Some s1"
    using dir_remove_child_eq [OF treeD(2) [OF I(1) lv(1), unfolded x(1)] x(2)] by simp
  have l: "links s ch" using I(1) by (simp add: tree_def)
  note R = links_remove [OF l shape_apart [OF I(4)] lv(1) src s1]
  let ?s1 = "upd_node src (\<lambda>x. x\<lparr>parent := Some dst\<rparr>) s1"
  have ld: "live_node s1 dst" using linkeqD(1) [OF R(2) [of dst]] lv(2) by (simp add: live_node_def)
  have "sibs s1 (first_child (nd s1 dst)) (ch dst) None" using R(1) [unfolded links_def, rule_format, OF ld] dd by (auto split: if_splits)
  then have "sibs ?s1 (first_child (nd ?s1 dst)) (ch dst) None"
    using ns by (subst sibs_frame [of _ _ s1]) auto
  from dir_add_child_parents [OF this ns]
  obtain s2 where s2: "dir_add_child dst src ?s1 = Some s2" "\<forall>m. parent (nd s2 m) = parent (nd ?s1 m)" by blast
  let ?s3 = "upd_node src (\<lambda>x. x\<lparr>name := scopy leaf RAMFS_MAX_NAME\<rparr>) s2"
  have par: "parent (nd ?s3 m) = (if m = src then Some dst else parent (nd s m))" for m
    using s2(2) linkeqD(2) [OF R(2) [of m]] by simp
  let ?C = "{m. (src, m) \<in> (fs_below s)\<^sup>* \<and> (m, dst) \<in> (fs_below s)\<^sup>*}"
  have "climb_root ?s3 src = None"
  proof (rule climb_root_cycle)
    fix m assume m: "m \<in> ?C"
    show "\<exists>q\<in>?C. parent (nd ?s3 m) = Some q"
    proof (cases "m = src")
      case True
      then show ?thesis using par [of m] dst by auto
    next
      case False
      with m obtain q where q: "(src, q) \<in> (fs_below s)\<^sup>*" "(q, m) \<in> fs_below s" by (auto elim: rtranclE)
      then have "(q, dst) \<in> (fs_below s)\<^sup>*" using m by (auto intro: converse_rtrancl_into_rtrancl)
      then show ?thesis using q par [of m] False by (auto simp: fs_below_def)
    qed
  qed (use dst in auto)
  moreover have "rename_link src dst leaf s = Some ?s3" using p(1) dd s1 s2(1) by (simp add: rename_link_def)
  ultimately show ?thesis by blast
qed

section \<open>Writes that complete\<close>

lemma VFS_Write_complete:
  assumes "ntype (nd s n) = RAMFS_TYPE_FILE" "fnode fh = Some n" "\<not> fnil fh" "node_vol_read_only s n = Some False"
    and "len \<noteq> 0" "fpos fh + len \<le> RAMFS_MAX_FILESIZE"
    and "fpos fh + len \<le> alloc (nd s n) \<or>
      (\<exists>p q. RamFS_AllocPool (vfs_want (alloc (nd s n)) (fpos fh + len)) (fpool s) = Some (Some p, q))"
    and "VFS_Write buf len fh s = Some (w, fh', s')"
  shows "w = len"
  using assms by (auto simp: VFS_Write_def vfs_grow_def Let_def split: option.splits if_splits Option.bind_splits)

text \<open>The node can take a write up to a position.\<close>

definition can_hold :: "ramfs \<Rightarrow> nat \<Rightarrow> u32 \<Rightarrow> bool" where
  "can_hold s n end1 \<longleftrightarrow> node_vol_read_only s n = Some False \<and> end1 \<le> RAMFS_MAX_FILESIZE \<and>
     (end1 \<le> alloc (nd s n) \<or>
      (\<exists>p q. RamFS_AllocPool (vfs_want (alloc (nd s n)) end1) (fpool s) = Some (Some p, q)))"

lemma overwrite_back: "pos \<le> length xs \<Longrightarrow> take (length vs) (drop pos (overwrite pos vs xs)) = vs"
  by (simp add: overwrite_def)

definition demo_fh :: vfs_file where "demo_fh = \<lparr>fnode = Some 3, fpos = 2, fnil = False\<rparr>"

lemma fs_exec_total:
  assumes "fs_reach s" "caller_ok op s"
  obtains s' where "fs_exec op s = Some s'" "others_kept (fs_target op s) s s'"
proof -
  obtain ch L where "fs_inv s ch L" using fs_reach_inv [OF assms(1)] by blast
  then show ?thesis using fs_exec_spec [OF _ assms(2)] that by blast
qed

section \<open>Properties\<close>

text \<open>(C3) Start from the state after \<open>RamFS_Init\<close> and make any sequence of calls in which each call
  keeps the callers' contract \<open>caller_ok\<close> when it is made: \<open>RamFS_MkDir\<close> only along directories,
  \<open>RamFS_Write\<close> of at most \<open>2 ^ 32 - 2 ^ 24\<close> bytes to a RAM file, \<open>VFS_Write\<close> to an open RAM file at a position
  inside the file and below the size limit with an end that does not wrap, \<open>RamFS_Rename\<close> to a
  place outside the moved subtree, attributes of nodes in use; other calls are unrestricted.  Then
  all calls return, and in the final state the nodes form a forest of linked child lists below the
  mounted roots with distinct names in each directory, every file's buffer is a live chunk of the
  pool with room for the file, no two files share a buffer, and every live chunk belongs to a file,
  so that no operation leaks pool memory.  The code does not check the contract itself.\<close>

theorem ramfs_invariant:
  assumes "within_contract ops (RamFS_Init fs_zero)"
  shows "\<exists>s ch L. fs_run ops (RamFS_Init fs_zero) = Some s \<and> tree s ch \<and> pool_live (fpool s) L \<and> files_ok s L"
  using fs_run_inv [OF fs_inv_boot assms] by (simp add: fs_inv_def)

theorem ramfs_invariant_witness:
  "within_contract fs_demo_ops (RamFS_Init fs_zero) \<and> fs_run fs_demo_ops (RamFS_Init fs_zero) = Some fs_demo \<and>
     (\<exists>ch L. tree fs_demo ch \<and> pool_live (fpool fs_demo) L \<and> files_ok fs_demo L)"
  using ramfs_invariant [OF fs_demo_contract] fs_demo_contract fs_demo_run(1) by auto



text \<open>(C11) Isolation: in every state reached by calls within the callers' contract (\<open>caller_ok\<close>),
  a further call within the contract changes the contents of no RAM file other than the one
  it names.  Pool buffers move, split and merge below the files, but every other RAM file stays
  and keeps its bytes.\<close>

theorem ramfs_isolation:
  assumes "fs_reach s" "caller_ok op s" "fs_exec op s = Some s'" "ram_file s n" "n \<notin> fs_target op s"
  shows "live_node s' n \<and> contents s' n = contents s n"
proof -
  have "others_kept (fs_target op s) s s'" by (rule fs_exec_total [OF assms(1,2)]) (use assms(3) in simp)
  then show ?thesis using assms(4,5) by (simp add: others_kept_def ram_file_def)
qed

theorem ramfs_isolation_witness:
  "\<exists>s'. fs_exec (Delete 0 ''a/b'') fs_demo = Some s' \<and> live_node s' 3 \<and> contents s' 3 = contents fs_demo 3"
proof -
  obtain s' where s': "fs_exec (Delete 0 ''a/b'') fs_demo = Some s'"
    by (rule fs_exec_total [OF fs_demo_reach, of "Delete 0 ''a/b''"]) simp_all
  moreover have "3 \<notin> fs_target (Delete 0 ''a/b'') fs_demo" using fs_demo_nodes(7) by simp
  ultimately show ?thesis
    using ramfs_isolation [OF fs_demo_reach _ s', of 3] fs_demo_nodes by (auto simp: ram_file_def)
qed

text \<open>(C17) In a state reached by calls within the callers' contract, and for a position inside the
  file and below the size limit with an end that does not wrap, \<open>VFS_Write\<close> on a RAM file overwrites the bytes at the file position with a prefix of the
  buffer, extends the file when it ends inside the write, keeps every other byte and advances the
  position by the count it returns; the whole buffer is written when the volume is writable, the
  size limit is respected and the file's buffer has room or can grow.\<close>

theorem vfs_write_overwrites:
  assumes "fs_reach s" "ram_file s n" "fnode fh = Some n" "\<not> fnil fh" "fpos fh \<le> fsize (nd s n)"
    and "fpos fh \<le> RAMFS_MAX_FILESIZE" "unat (fpos fh) + length buf < 2 ^ 32"
  shows "\<exists>w s'. VFS_Write buf (of_nat (length buf)) fh s = Some (w, fh\<lparr>fpos := fpos fh + w\<rparr>, s') \<and>
    unat w \<le> length buf \<and> contents s' n = overwrite (unat (fpos fh)) (take (unat w) buf) (contents s n) \<and>
    (can_hold s n (fpos fh + of_nat (length buf)) \<longrightarrow> w = of_nat (length buf))"
proof -
  let ?len = "of_nat (length buf) :: u32"
  obtain ch L where inv: "fs_inv s ch L" using fs_reach_inv [OF assms(1)] by blast
  have len: "unat ?len = length buf" using assms(7) by (simp add: unat_of_nat take_bit_nat_eq_self)
  obtain w fh' s' where W: "VFS_Write buf ?len fh s = Some (w, fh', s')" "w \<le> ?len" "fh' = fh\<lparr>fpos := fpos fh + w\<rparr>"
    "contents s' n = overwrite (unat (fpos fh)) (take (unat w) buf) (contents s n)"
    using VFS_Write_spec [OF inv, of n fh buf ?len] assms len by (auto simp: ram_file_def)
  have "w = ?len" if "can_hold s n (fpos fh + ?len)"
  proof (cases "?len = 0")
    case False
    show ?thesis
      by (rule VFS_Write_complete [OF _ assms(3,4) _ False _ _ W(1)]) (use that assms(2) in \<open>auto simp: can_hold_def ram_file_def\<close>)
  qed (use W(2) in simp)
  then show ?thesis using W len by (auto simp: word_le_nat_alt)
qed

theorem vfs_write_overwrites_witness:
  "\<exists>w s'. VFS_Write [7, 8, 9] 3 demo_fh fs_demo = Some (w, demo_fh\<lparr>fpos := 2 + w\<rparr>, s') \<and> unat w \<le> 3 \<and>
     contents s' 3 = overwrite 2 (take (unat w) [7, 8, 9]) (contents fs_demo 3)"
  using vfs_write_overwrites [OF fs_demo_reach, of 3 demo_fh "[7, 8, 9]"] fs_demo_nodes
  by (auto simp: demo_fh_def ram_file_def RAMFS_MAX_FILESIZE_def)

text \<open>(C18) In a state reached by calls within the callers' contract, and for a position inside the
  RAM file and below the size limit with an end that does not wrap: writing, seeking back and reading returns exactly the bytes that were written.\<close>

theorem vfs_write_read_roundtrip:
  assumes "fs_reach s" "ram_file s n" "fnode fh = Some n" "\<not> fnil fh" "fpos fh \<le> fsize (nd s n)"
    and "fpos fh \<le> RAMFS_MAX_FILESIZE" "unat (fpos fh) + length buf < 2 ^ 32"
    and "VFS_Write buf (of_nat (length buf)) fh s = Some (w, fh', s')"
  shows "VFS_Read devs w (VFS_Seek (fpos fh) fh' s') s' = Some (take (unat w) buf, fh', s')"
proof -
  let ?len = "of_nat (length buf) :: u32"
  obtain ch L where inv: "fs_inv s ch L" using fs_reach_inv [OF assms(1)] by blast
  have len: "unat ?len = length buf" using assms(7) by (simp add: unat_of_nat take_bit_nat_eq_self)
  obtain L' where W: "fs_inv s' ch L'" "writes_only n s s'" "w \<le> ?len" "fh' = fh\<lparr>fpos := fpos fh + w\<rparr>"
    "fpos fh' \<le> fsize (nd s' n)" "contents s' n = overwrite (unat (fpos fh)) (take (unat w) buf) (contents s n)"
    using VFS_Write_spec [OF inv, of n fh buf ?len] assms len by (auto simp: ram_file_def)
  have wl: "length (take (unat w) buf) = unat w" using W(3) len by (simp add: word_le_nat_alt)
  have n': "ntype (nd s' n) = RAMFS_TYPE_FILE" "ext_bdev (nd s' n) = None"
    using W(2) assms(2) by (auto simp: writes_only_def same_tree_def ram_file_def)
  have ln: "unat (fpos fh) \<le> length (contents s n)"
    using contents_length [OF fs_invD(3) [OF inv]] assms(2,5) by (simp add: ram_file_def word_le_nat_alt)
  have "unat (fpos fh) + unat w \<le> length (contents s' n)" using ln wl unfolding W(6) by (simp add: overwrite_def)
  then have "unat (fpos fh) \<le> unat (fsize (nd s' n))" using contents_length [OF fs_invD(3) [OF W(1)] _ n'(2)] n' by simp
  then have sk: "VFS_Seek (fpos fh) fh' s' = fh" using W(4) assms(3,4) by (simp add: VFS_Seek_def word_le_nat_alt)
  have "take (unat w) (drop (unat (fpos fh)) (contents s' n)) = take (unat w) buf"
    using overwrite_back [OF ln, of "take (unat w) buf"] wl W(6) by simp
  then show ?thesis using sk assms(3,4) RamFS_Read_spec [OF W(1) n'] wl W(4) by (simp add: VFS_Read_def)
qed

theorem vfs_write_read_roundtrip_witness:
  "\<exists>w s'. VFS_Write [7, 8, 9] 3 demo_fh fs_demo = Some (w, demo_fh\<lparr>fpos := 2 + w\<rparr>, s') \<and>
     VFS_Read (\<lambda>_. undefined) w (VFS_Seek 2 (demo_fh\<lparr>fpos := 2 + w\<rparr>) s') s' =
       Some (take (unat w) [7, 8, 9], demo_fh\<lparr>fpos := 2 + w\<rparr>, s')"
proof -
  obtain ch L where inv: "fs_inv fs_demo ch L" using fs_reach_inv [OF fs_demo_reach] by blast
  have d: "ram_file fs_demo 3" "fnode demo_fh = Some 3" "\<not> fnil demo_fh" "fpos demo_fh \<le> fsize (nd fs_demo 3)"
    "fpos demo_fh \<le> RAMFS_MAX_FILESIZE" "unat (fpos demo_fh) + length [7, 8, 9 :: u8] < 2 ^ 32" "fpos demo_fh = 2"
    using fs_demo_nodes by (auto simp: demo_fh_def ram_file_def RAMFS_MAX_FILESIZE_def)
  obtain w s' where W: "VFS_Write [7, 8, 9] 3 demo_fh fs_demo = Some (w, demo_fh\<lparr>fpos := 2 + w\<rparr>, s')"
    using VFS_Write_spec [OF inv, of 3 demo_fh "[7, 8, 9]" 3] d by (auto simp: ram_file_def)
  then show ?thesis
    using vfs_write_read_roundtrip [OF fs_demo_reach d(1-6), of w "demo_fh\<lparr>fpos := 2 + w\<rparr>" s'] d(7) by auto
qed

text \<open>(C21) A path names what was created under it: in a state reached by calls within the callers'
  contract, when \<open>RamFS_Create\<close> succeeds on a path without empty components, \<open>RamFS_Resolve\<close> of the
  same path returns the new node.  With an empty component it does not hold: for
  \<open>a//b\<close> the code creates \<open>a/a\<close>, and the same path resolves to \<open>a\<close>.\<close>

theorem create_then_resolve:
  assumes "fs_reach s" "path_rest (strip_path p) = []" "RamFS_Create now (Some v) p s = Some (Some n, s')"
  shows "RamFS_Resolve s' (Some v) p = Some (Some n)"
  using fs_reach_inv [OF assms(1)] create_resolve assms(2,3) by blast

theorem create_then_resolve_witness:
  "\<exists>n s'. RamFS_Create 9 (Some 0) ''RAM:a/b/g'' fs_demo = Some (Some n, s') \<and>
     RamFS_Resolve s' (Some 0) ''RAM:a/b/g'' = Some (Some n)"
proof -
  obtain n s' where c: "RamFS_Create 9 (Some 0) ''RAM:a/b/g'' fs_demo = Some (Some n, s')"
    using fs_demo_create by blast
  have "path_rest (strip_path ''RAM:a/b/g'') = []" by (simp add: fs_eval path_rest.simps)
  from create_then_resolve [OF fs_demo_reach this c] c show ?thesis by blast
qed

text \<open>(C22) In a state reached by calls within the callers' contract, after a successful \<open>RamFS_Delete\<close> the path no longer resolves.\<close>

theorem delete_then_resolve:
  assumes "fs_reach s" "RamFS_Delete (Some v) p s = Some (0, s')"
  shows "RamFS_Resolve s' (Some v) p = Some None"
  using fs_reach_inv [OF assms(1)] delete_resolve [OF _ assms(2)] by blast

theorem delete_then_resolve_witness:
  "\<exists>s'. RamFS_Delete (Some 0) ''a/f'' fs_demo = Some (0, s') \<and> RamFS_Resolve s' (Some 0) ''a/f'' = Some None"
proof -
  obtain s' where c: "RamFS_Delete (Some 0) ''a/f'' fs_demo = Some (0, s')" using fs_demo_delete by blast
  from delete_then_resolve [OF fs_demo_reach c] c show ?thesis by blast
qed

text \<open>(C35) In a state reached by calls within the callers' contract, \<open>RamFS_Rename\<close> does not check that the destination lies outside the object it moves:
  renaming a directory that may be deleted into its own subtree, under a new name on a writable
  volume, succeeds and closes a cycle of parent pointers, after
  which looking up the volume of the moved node never ends.\<close>

theorem rename_below_itself:
  assumes "fs_reach s" "valid (g_vols s v)" "\<not> read_only (g_vols s v)"
    and "RamFS_Resolve s (Some v) old = Some (Some src)" "parent (nd s src) \<noteq> None"
    and "protection (nd s src) AND FIBF_DELETE = 0"
    and "walk_parent s (root (g_vols s v)) [] (strip_path new) = Some (Some (dst, leaf))" "leaf \<noteq> []"
    and "find_child s dst leaf = Some None" "(src, dst) \<in> (fs_below s)\<^sup>*"
  shows "\<exists>s'. RamFS_Rename (Some v) old new s = Some (0, s') \<and> vol_of_node s' src = None"
proof -
  obtain ch L where inv: "fs_inv s ch L" using fs_reach_inv [OF assms(1)] by blast
  obtain d where d: "parent (nd s src) = Some d" using assms(5) by blast
  have "live_node s src" using resolve_total [OF fs_invD(1) [OF inv]] assms(4) by (metis option.inject)
  then have "src \<in> set (ch d)" using shapeD(3) [OF fs_invD(4) [OF inv]] d by blast
  from rename_link_cycle [OF inv this assms(10)]
  obtain s' where "rename_link src dst leaf s = Some s'" "climb_root s' src = None" by blast
  then show ?thesis using assms d by (intro exI [of _ s']) (simp add: RamFS_Rename_def rename_to_def vol_of_node_def)
qed

theorem rename_below_itself_witness:
  "\<exists>s'. RamFS_Rename (Some 0) ''a'' ''a/b/c'' fs_demo = Some (0, s') \<and> vol_of_node s' 1 = None"
proof -
  have "(1, 2) \<in> (fs_below fs_demo)\<^sup>*" using fs_demo_nodes(2) fs_demo_more(1) by (auto simp: fs_below_def)
  then show ?thesis
    using rename_below_itself [OF fs_demo_reach, of 0 "''a''" 1 "''a/b/c''" 2 "''c''"] fs_demo_nodes fs_demo_more by simp
qed

end
