(* ===== verification/RamFS_Proxy.thy ===== *)
theory RamFS_Proxy
  imports RamFS_System
begin

text \<open>
  Proxy files: files of a RAM volume whose data lives on a block device (the ISO9660 sysroot).
  \<open>RamFS_Read\<close> fetches whole file-system blocks and keeps the last one in \<open>g_sec_buf\<close>.  The reads are
  compared with the device seen as one sequence of bytes.
\<close>

text \<open>What the driver promises: a read of sectors inside the device returns their bytes.\<close>

definition dev_image :: "block_dev \<Rightarrow> (nat \<Rightarrow> u8) \<Rightarrow> bool" where
  "dev_image d img \<longleftrightarrow> sector_size d \<noteq> 0 \<and>
     (\<forall>sec cnt. unat sec + unat cnt \<le> unat (num_sectors d) \<longrightarrow>
        ops_read d (sec + part_offset d) cnt =
          (0, map img [unat sec * unat (sector_size d) ..< (unat sec + unat cnt) * unat (sector_size d)]))"

text \<open>The cached block is a block of the device it is keyed with.\<close>

definition cache_ok :: "(nat \<Rightarrow> block_dev) \<Rightarrow> (nat \<Rightarrow> nat \<Rightarrow> u8) \<Rightarrow> ramfs \<Rightarrow> bool" where
  "cache_ok devs img s \<longleftrightarrow> (g_sec_valid s \<longrightarrow> (\<exists>d. g_sec_bdev s = Some d \<and>
     take (unat (g_sec_blksz s)) (g_sec_buf s) =
       map (img d) [unat (g_sec_devsec s) * unat (sector_size (devs d)) ..<
                    unat (g_sec_devsec s) * unat (sector_size (devs d)) + unat (g_sec_blksz s)]))"

lemma unat_u64 [simp]: "unat (ucast (w :: u32) :: u64) = unat w"
proof -
  have "unat w < 2 ^ 64" using unsigned_less [of w, where 'a = nat] by simp
  then show ?thesis by (simp add: unsigned_ucast_eq take_bit_nat_eq_self)
qed

lemma unat_bounds: "unat (w :: u32) < 2 ^ 32" "unat (v :: u64) < 2 ^ 64"
  using unsigned_less [of w, where 'a = nat] unsigned_less [of v, where 'a = nat] by simp_all

lemma BlockDev_Read_image:
  assumes "dev_image d img" "unat sec + unat cnt \<le> unat (num_sectors d)"
  shows "BlockDev_Read d sec cnt =
    (0, map img [unat sec * unat (sector_size d) ..< (unat sec + unat cnt) * unat (sector_size d)])"
proof -
  have "unat sec + unat cnt < 2 ^ 64" using assms(2) unat_bounds(2) [of "num_sectors d"] by simp
  then have "unat (sec + ucast cnt) = unat sec + unat cnt" by (subst unat_add_lem [THEN iffD1]) simp_all
  then have "\<not> sec + ucast cnt > num_sectors d" using assms(2) by (simp add: word_less_nat_alt)
  then show ?thesis using assms by (simp add: BlockDev_Read_def dev_image_def)
qed

lemma map_upt_sub: "off + k \<le> n \<Longrightarrow> take k (drop off (map f [a..<a + n])) = map f [a + off..<a + off + k]"
  by (rule nth_equalityI) (auto simp: add.assoc)

text \<open>One turn of the loop: after the cache look-up the buffer holds the wanted block.\<close>

lemma ext_fetch_image:
  assumes img: "\<And>d. dev_image (devs d) (img d)" and c: "cache_ok devs img s"
    and B: "unat blksz = unat ratio * unat (sector_size (devs dev))"
    and E: "(unat sector + 1) * unat ratio \<le> unat (num_sectors (devs dev))"
    and r: "ext_fetch devs dev blksz ratio (ucast (sector :: u32) * ucast ratio) s = (rc, s')"
  shows "rc = 0" "cache_ok devs img s'"
    "take (unat blksz) (g_sec_buf s') = map (img dev) [unat sector * unat blksz ..< unat sector * unat blksz + unat blksz]"
    "g_nodes s' = g_nodes s" "fpool s' = fpool s" "g_vols s' = g_vols s"
proof -
  let ?ss = "unat (sector_size (devs dev))" and ?ds = "ucast sector * ucast ratio :: u64"
  have ds: "unat ?ds = unat sector * unat ratio"
  proof -
    have "unat sector * unat ratio < 2 ^ 32 * 2 ^ 32"
      using unat_bounds(1) [of sector] unat_bounds(1) [of ratio] by (intro mult_strict_mono) auto
    then show ?thesis by (subst unat_mult_lem [THEN iffD1]) simp_all
  qed
  have blk: "unat sector * unat ratio * ?ss = unat sector * unat blksz" using B by simp
  have "rc = 0 \<and> cache_ok devs img s' \<and> take (unat blksz) (g_sec_buf s') =
      map (img dev) [unat sector * unat blksz ..< unat sector * unat blksz + unat blksz] \<and>
      g_nodes s' = g_nodes s \<and> fpool s' = fpool s \<and> g_vols s' = g_vols s"
  proof (cases "g_sec_valid s \<and> g_sec_bdev s = Some dev \<and> g_sec_blksz s = blksz \<and> g_sec_devsec s = ?ds")
    case True
    then have "rc = 0" "s' = s" using r by (auto simp: ext_fetch_def)
    moreover have "take (unat blksz) (g_sec_buf s) =
        map (img dev) [unat sector * unat blksz ..< unat sector * unat blksz + unat blksz]"
      using True c by (simp add: cache_ok_def ds blk)
    ultimately show ?thesis using c by simp
  next
    case False
    have rd: "BlockDev_Read (devs dev) ?ds ratio =
        (0, map (img dev) [unat sector * unat blksz ..< unat sector * unat blksz + unat blksz])"
      using BlockDev_Read_image [OF img, of ?ds ratio dev] E ds blk B by (simp add: algebra_simps)
    then have "rc = 0 \<and> s' = s\<lparr>g_sec_buf := map (img dev) [unat sector * unat blksz ..< unat sector * unat blksz + unat blksz] @
        drop (unat blksz) (g_sec_buf s), g_sec_bdev := Some dev, g_sec_blksz := blksz, g_sec_devsec := ?ds,
        g_sec_valid := True\<rparr>"
      using False r by (auto simp: ext_fetch_def)
    then show ?thesis by (simp add: cache_ok_def ds blk)
  qed
  then show "rc = 0" "cache_ok devs img s'"
    "take (unat blksz) (g_sec_buf s') = map (img dev) [unat sector * unat blksz ..< unat sector * unat blksz + unat blksz]"
    "g_nodes s' = g_nodes s" "fpool s' = fpool s" "g_vols s' = g_vols s" by blast+
qed

lemma ext_read_image:
  assumes img: "\<And>d. dev_image (devs d) (img d)"
    and B: "unat blksz = unat ratio * unat (sector_size (devs dev))" "blksz \<noteq> 0"
    and E: "E * unat ratio \<le> unat (num_sectors (devs dev))" "E < 2 ^ 32"
  shows "cache_ok devs img s \<Longrightarrow> sec_off < blksz \<Longrightarrow>
    unat sector * unat blksz + unat sec_off + unat len \<le> E * unat blksz \<Longrightarrow>
    \<exists>s'. ext_read devs dev blksz ratio sector sec_off len acc s =
      Some (acc @ map (img dev) [unat sector * unat blksz + unat sec_off ..<
                                 unat sector * unat blksz + unat sec_off + unat len], s') \<and>
      cache_ok devs img s' \<and> g_nodes s' = g_nodes s \<and> fpool s' = fpool s \<and> g_vols s' = g_vols s"
proof (induction "unat len" arbitrary: sector sec_off len acc s rule: less_induct)
  case less
  show ?case
  proof (cases "len = 0")
    case True
    then show ?thesis using less.prems(1) by (subst ext_read.simps) auto
  next
    case False
    define b where "b = unat sector * unat blksz"
    have bpos: "unat sec_off < unat blksz" using less.prems(2) by (simp add: word_less_nat_alt)
    have lpos: "0 < unat len" using False by (simp add: unat_gt_0)
    have "unat sector * unat blksz < E * unat blksz" using less.prems(3) lpos by linarith
    then have sE: "unat sector < E" by simp
    then have "(unat sector + 1) * unat ratio \<le> E * unat ratio" by (intro mult_le_mono1) simp
    with E(1) have sec: "(unat sector + 1) * unat ratio \<le> unat (num_sectors (devs dev))" by simp
    obtain rc t where f: "ext_fetch devs dev blksz ratio (ucast sector * ucast ratio) s = (rc, t)" by fastforce
    note r = ext_fetch_image [OF img less.prems(1) B(1) sec f, folded b_def]
    define ck where "ck = (if blksz - sec_off > len then len else blksz - sec_off)"
    have "unat (blksz - sec_off) = unat blksz - unat sec_off" using less.prems(2) by (intro unat_sub) simp
    then have ck: "unat ck = min (unat len) (unat blksz - unat sec_off)"
      by (simp add: ck_def word_less_nat_alt min_def)
    have got: "take (unat ck) (drop (unat sec_off) (g_sec_buf t)) =
        map (img dev) [b + unat sec_off ..< b + unat sec_off + unat ck]"
    proof -
      have "take (unat ck) (drop (unat sec_off) (g_sec_buf t)) =
          take (unat ck) (drop (unat sec_off) (take (unat blksz) (g_sec_buf t)))"
        using ck bpos by (simp add: drop_take min_def)
      then show ?thesis using r(3) ck bpos by (simp add: map_upt_sub)
    qed
    have step: "ext_read devs dev blksz ratio sector sec_off len acc s =
        ext_read devs dev blksz ratio (sector + 1) 0 (len - ck)
          (acc @ map (img dev) [b + unat sec_off ..< b + unat sec_off + unat ck]) t"
      using False f r(1) got by (subst ext_read.simps) (simp add: ck_def Let_def)
    have ul: "unat (len - ck) = unat len - unat ck" using ck by (intro unat_sub) (simp add: word_le_nat_alt)
    have us: "unat (sector + 1) = unat sector + 1" using sE E(2) by (simp add: unat_add_lem [THEN iffD1])
    have dec: "unat (len - ck) < unat len" using ul ck lpos bpos by simp
    show ?thesis
    proof (cases "len = ck")
      case True
      have "ext_read devs dev blksz ratio (sector + 1) 0 0 acc' t = Some (acc', t)" for acc' t
        by (subst ext_read.simps) simp
      then show ?thesis using step True r by (simp add: b_def)
    next
      case False
      then have "unat len \<noteq> unat ck" by (simp add: word_unat_eq_iff)
      then have "unat ck = unat blksz - unat sec_off" using ck by linarith
      then have e: "unat (sector + 1) * unat blksz + unat (0 :: u32) = b + unat sec_off + unat ck"
        using us bpos by (simp add: b_def)
      have "unat (sector + 1) * unat blksz + unat (0 :: u32) + unat (len - ck) \<le> E * unat blksz"
        unfolding e ul using less.prems(3) ck by (simp add: b_def)
      from less.hyps [OF dec r(2) _ this, of "acc @ map (img dev) [b + unat sec_off ..< b + unat sec_off + unat ck]"]
      obtain s' where R: "ext_read devs dev blksz ratio (sector + 1) 0 (len - ck)
          (acc @ map (img dev) [b + unat sec_off ..< b + unat sec_off + unat ck]) t =
        Some ((acc @ map (img dev) [b + unat sec_off ..< b + unat sec_off + unat ck]) @
          map (img dev) [b + unat sec_off + unat ck ..< b + unat sec_off + unat ck + unat (len - ck)], s')"
        "cache_ok devs img s'" "g_nodes s' = g_nodes t" "fpool s' = fpool t" "g_vols s' = g_vols t"
        unfolding e using B(2) by (auto simp: word_gt_0)
      have "[b + unat sec_off ..< b + unat sec_off + unat ck] @
          [b + unat sec_off + unat ck ..< b + unat sec_off + unat ck + unat (len - ck)] =
          [b + unat sec_off ..< b + unat sec_off + unat len]"
        using upt_add_eq_append [of "b + unat sec_off" "b + unat sec_off + unat ck" "unat (len - ck)"] ul ck by (simp add: add.assoc)
      then show ?thesis using step R r by (simp add: b_def flip: map_append)
    qed
  qed
qed

section \<open>Property\<close>

text \<open>The extent of a proxy file: whole blocks of the device, inside it and inside the buffer.\<close>

definition proxy_file :: "(nat \<Rightarrow> block_dev) \<Rightarrow> ramfs_node \<Rightarrow> nat \<Rightarrow> bool" where
  "proxy_file devs x dev \<longleftrightarrow> ntype x = RAMFS_TYPE_FILE \<and> ext_bdev x = Some dev \<and>
     ext_blksz x \<noteq> 0 \<and> ext_blksz x \<le> SEC_BUF_SZ \<and>
     unat (sector_size (devs dev)) dvd unat (ext_blksz x) \<and>
     (let blocks = unat (fsize x) div unat (ext_blksz x) + 1;
          ratio = unat (ext_blksz x) div unat (sector_size (devs dev))
      in (unat (ext_lba x) + blocks) * ratio \<le> unat (num_sectors (devs dev)) \<and> unat (ext_lba x) + blocks < 2 ^ 32)"

text \<open>Two devices for the concrete statements: one that counts bytes, and one that stores a byte
  and then fails on sector 5.\<close>

definition byte_dev :: block_dev where
  "byte_dev = \<lparr>sector_size = 512, num_sectors = 100, part_offset = 4, ops_read = \<lambda>sec cnt.
     (0, map of_nat [(unat sec - 4) * 512 ..< (unat sec - 4 + unat cnt) * 512])\<rparr>"

definition bad_dev :: block_dev where
  "bad_dev = \<lparr>sector_size = 1, num_sectors = 10, part_offset = 0, ops_read = \<lambda>sec cnt. if sec = 5 then (-1, [9]) else (0, [7])\<rparr>"

definition proxy_node :: "u32 \<Rightarrow> u32 \<Rightarrow> u32 \<Rightarrow> ramfs_node" where
  "proxy_node lba blksz sz = node_zero\<lparr>ntype := RAMFS_TYPE_FILE, fsize := sz, ext_bdev := Some 0, ext_lba := lba, ext_blksz := blksz\<rparr>"

definition proxy_demo :: ramfs where
  "proxy_demo = fs_zero\<lparr>g_nodes := (\<lambda>n. proxy_node (if n = 0 then 0 else 5) 1 1)\<rparr>"

lemma byte_dev_image: "dev_image byte_dev of_nat"
  unfolding dev_image_def
proof (intro conjI allI impI)
  fix sec :: u64 and cnt :: u32 assume a: "unat sec + unat cnt \<le> unat (num_sectors byte_dev)"
  then have "unat sec \<le> 100" by (simp add: byte_dev_def)
  then have "unat (sec + 4) = unat sec + 4" by (subst unat_add_lem [THEN iffD1]) simp_all
  then show "ops_read byte_dev (sec + part_offset byte_dev) cnt =
      (0, map of_nat [unat sec * unat (sector_size byte_dev) ..< (unat sec + unat cnt) * unat (sector_size byte_dev)])"
    by (simp add: byte_dev_def)
qed (simp add: byte_dev_def)

text \<open>(C20) Reading a proxy file through the one-block cache returns exactly the bytes of the
  device at the file's extent, whatever was read before, and leaves the cache coherent.\<close>

theorem proxy_read_image:
  assumes "\<And>d. dev_image (devs d) (img d)" "cache_ok devs img s" "proxy_file devs (nd s n) dev"
  shows "\<exists>s'. RamFS_Read devs (Some n) off len s =
      Some (take (unat len) (drop (unat off)
        (map (\<lambda>i. img dev (unat (ext_lba (nd s n)) * unat (ext_blksz (nd s n)) + i)) [0..<unat (fsize (nd s n))])), s') \<and>
      cache_ok devs img s'"
proof -
  let ?x = "nd s n"
  define B where "B = unat (ext_blksz ?x)"
  define lba where "lba = unat (ext_lba ?x)"
  define sz where "sz = unat (fsize ?x)"
  define E where "E = lba + (sz div B + 1)"
  let ?ratio = "ext_blksz ?x div sector_size (devs dev)"
  have P: "ntype ?x = RAMFS_TYPE_FILE" "ext_bdev ?x = Some dev" "ext_blksz ?x \<noteq> 0" "ext_blksz ?x \<le> SEC_BUF_SZ"
    "unat (sector_size (devs dev)) dvd B" "E * unat ?ratio \<le> unat (num_sectors (devs dev))" "E < 2 ^ 32" "0 < B"
    using assms(3) by (simp_all add: proxy_file_def Let_def B_def lba_def sz_def E_def unat_div unat_gt_0)
  have BR: "B = unat ?ratio * unat (sector_size (devs dev))" using P(5) by (simp add: unat_div B_def)
  have whole: "take k (drop o1 (map (\<lambda>i. img dev (lba * B + i)) [0..<sz])) = map (img dev) [lba * B + o1 ..< lba * B + o1 + k]"
    if "o1 + k \<le> sz" for k o1
    using that by (intro nth_equalityI) (auto simp: add.assoc)
  show ?thesis
  proof (cases "off \<ge> fsize ?x")
    case True
    then show ?thesis using P(1) assms(2) by (simp add: RamFS_Read_def word_le_nat_alt)
  next
    case False
    then have o: "unat off < sz" by (simp add: word_le_nat_alt sz_def)
    define k where "k = (if len > fsize ?x - off then fsize ?x - off else len)"
    have "unat (fsize ?x - off) = sz - unat off" unfolding sz_def using False by (intro unat_sub) simp
    then have k: "unat k = min (unat len) (sz - unat off)" by (simp add: k_def word_less_nat_alt min_def)
    have ob: "unat off div B \<le> sz div B" using o by (simp add: div_le_mono)
    have sec: "unat (ext_lba ?x + off div ext_blksz ?x) = lba + unat off div B"
      using ob P(7) by (subst unat_add_lem [THEN iffD1]) (simp_all add: unat_div B_def lba_def E_def)
    have md: "unat (off mod ext_blksz ?x) = unat off mod B" by (simp add: unat_mod B_def)
    have pos: "(lba + unat off div B) * B + unat off mod B = lba * B + unat off" by (simp add: algebra_simps)
    have "off mod ext_blksz ?x < ext_blksz ?x" using P(8) by (simp add: word_less_nat_alt md B_def unat_mod)
    moreover have "unat (ext_lba ?x + off div ext_blksz ?x) * unat (ext_blksz ?x) + unat (off mod ext_blksz ?x) + unat k
        \<le> E * unat (ext_blksz ?x)"
    proof -
      have "sz < (sz div B + 1) * B" using P(8) by (metis add.commute dividend_less_times_div mult.commute mult_Suc plus_1_eq_Suc)
      then have "lba * B + unat off + unat k \<le> E * B" using k o by (simp add: E_def algebra_simps)
      then show ?thesis unfolding sec md by (simp add: pos flip: B_def)
    qed
    ultimately obtain s' where R: "ext_read devs dev (ext_blksz ?x) ?ratio (ext_lba ?x + off div ext_blksz ?x)
        (off mod ext_blksz ?x) k [] s = Some (map (img dev) [lba * B + unat off ..< lba * B + unat off + unat k], s')"
      "cache_ok devs img s'"
      using ext_read_image [OF assms(1) BR [unfolded B_def] P(3,6,7) assms(2), of "off mod ext_blksz ?x"
        "ext_lba ?x + off div ext_blksz ?x" k "[]"] unfolding sec md by (auto simp: pos simp flip: B_def)
    have "RamFS_Read devs (Some n) off len s = Some (map (img dev) [lba * B + unat off ..< lba * B + unat off + unat k], s')"
      using False P(1-4) R(1) unfolding k_def by (simp add: RamFS_Read_def Let_def)
    also have "map (img dev) [lba * B + unat off ..< lba * B + unat off + unat k] =
        take (unat len) (drop (unat off) (map (\<lambda>i. img dev (lba * B + i)) [0..<sz]))"
      using whole [of "unat off" "unat k"] k o by (simp add: min_def split: if_splits)
    finally show ?thesis using R(2) by (simp add: B_def lba_def sz_def)
  qed
qed

theorem proxy_read_image_witness:
  "\<exists>s'. RamFS_Read (\<lambda>_. byte_dev) (Some 1) 2000 100 (fs_zero\<lparr>g_nodes := \<lambda>_. proxy_node 3 2048 5000\<rparr>) =
     Some (take 100 (drop 2000 (map (\<lambda>i. of_nat (3 * 2048 + i)) [0..<5000])), s')"
proof -
  let ?s = "fs_zero\<lparr>g_nodes := \<lambda>_. proxy_node 3 2048 5000\<rparr>"
  have "cache_ok (\<lambda>_. byte_dev) (\<lambda>_. of_nat) ?s" by (simp add: cache_ok_def fs_zero_def)
  moreover have "proxy_file (\<lambda>_. byte_dev) (nd ?s 1) 0"
    by (simp add: proxy_file_def proxy_node_def node_zero_def byte_dev_def SEC_BUF_SZ_def)
  ultimately have "\<exists>s'. RamFS_Read (\<lambda>_. byte_dev) (Some 1) 2000 100 ?s = Some (take (unat (100 :: u32)) (drop (unat (2000 :: u32))
      (map (\<lambda>i. of_nat (unat (ext_lba (nd ?s 1)) * unat (ext_blksz (nd ?s 1)) + i)) [0..<unat (fsize (nd ?s 1))])), s') \<and>
      cache_ok (\<lambda>_. byte_dev) (\<lambda>_. of_nat) s'"
    by (intro proxy_read_image [of "\<lambda>_. byte_dev" "\<lambda>_. of_nat" ?s 1 0 2000 100] byte_dev_image)
  then show ?thesis by (auto simp: proxy_node_def node_zero_def simp del: upt_rec_numeral)
qed

section \<open>Failed reads\<close>

text \<open>The block of the device that a read of a proxy file at an offset starts with, and when it is
  the cached one.\<close>

definition blk_size :: "ramfs_node \<Rightarrow> u32" where
  "blk_size x = (if ext_blksz x \<noteq> 0 then ext_blksz x else 2048)"

definition reads_from :: "ramfs_node \<Rightarrow> u32 \<Rightarrow> nat \<Rightarrow> bool" where
  "reads_from x off dev \<longleftrightarrow>
     ntype x = RAMFS_TYPE_FILE \<and> off < fsize x \<and> ext_bdev x = Some dev \<and> blk_size x \<le> SEC_BUF_SZ"

definition dev_sector :: "(nat \<Rightarrow> block_dev) \<Rightarrow> ramfs_node \<Rightarrow> u32 \<Rightarrow> nat \<Rightarrow> u64" where
  "dev_sector devs x off dev =
     ucast (ext_lba x + off div blk_size x) * ucast (blk_size x div sector_size (devs dev))"

definition cache_hit :: "(nat \<Rightarrow> block_dev) \<Rightarrow> ramfs \<Rightarrow> ramfs_node \<Rightarrow> u32 \<Rightarrow> nat \<Rightarrow> bool" where
  "cache_hit devs s x off dev \<longleftrightarrow> g_sec_valid s \<and> g_sec_bdev s = Some dev \<and> g_sec_blksz s = blk_size x \<and>
     g_sec_devsec s = dev_sector devs x off dev"

lemma RamFS_Read_proxy:
  assumes "reads_from (nd s n) off dev" "len \<le> fsize (nd s n) - off"
  shows "RamFS_Read devs (Some n) off len s =
    ext_read devs dev (blk_size (nd s n)) (blk_size (nd s n) div sector_size (devs dev))
      (ext_lba (nd s n) + off div blk_size (nd s n)) (off mod blk_size (nd s n)) len [] s"
proof -
  have "\<not> fsize (nd s n) \<le> off" "\<not> fsize (nd s n) - off < len" "\<not> SEC_BUF_SZ < blk_size (nd s n)"
    "ntype (nd s n) = RAMFS_TYPE_FILE" "ext_bdev (nd s n) = Some dev"
    using assms by (auto simp: reads_from_def)
  then show ?thesis by (simp add: RamFS_Read_def Let_def flip: blk_size_def)
qed

lemma read_failed:
  assumes "reads_from (nd s m) off dev" "len \<noteq> 0" "\<not> cache_hit devs s (nd s m) off dev"
    and "BlockDev_Read (devs dev) (dev_sector devs (nd s m) off dev) (blk_size (nd s m) div sector_size (devs dev)) = (rc, bytes)"
    and "rc \<noteq> 0"
  shows "RamFS_Read devs (Some m) off len s = Some ([], s\<lparr>g_sec_buf := bytes @ drop (length bytes) (g_sec_buf s)\<rparr>)"
proof -
  let ?x = "nd s m" and ?s' = "s\<lparr>g_sec_buf := bytes @ drop (length bytes) (g_sec_buf s)\<rparr>"
  have f: "ext_fetch devs dev (blk_size ?x) (blk_size ?x div sector_size (devs dev)) (dev_sector devs ?x off dev) s = (rc, ?s')"
    using assms(3-5) unfolding ext_fetch_def cache_hit_def by (simp del: de_Morgan_conj)
  have e: "ext_read devs dev (blk_size ?x) (blk_size ?x div sector_size (devs dev)) (ext_lba ?x + off div blk_size ?x) so k [] s =
      Some ([], ?s')" if "k \<noteq> 0" for so k
    using that assms(5) f unfolding dev_sector_def by (subst ext_read.simps) simp
  define k where "k = (if len > fsize ?x - off then fsize ?x - off else len)"
  have "fsize ?x - off \<noteq> 0" using assms(1) by (auto simp: reads_from_def)
  then have k: "k \<noteq> 0" "k \<le> fsize ?x - off" using assms(2) by (auto simp: k_def)
  have "RamFS_Read devs (Some m) off len s = RamFS_Read devs (Some m) off k s" by (simp add: RamFS_Read_def k_def Let_def)
  then show ?thesis using RamFS_Read_proxy [OF assms(1) k(2)] e [OF k(1)] by simp
qed

lemma read_cached:
  assumes "reads_from (nd s n) off dev" "cache_hit devs s (nd s n) off dev"
    and "unat off + unat len \<le> unat (fsize (nd s n))"
    and "unat (off mod blk_size (nd s n)) + unat len \<le> unat (blk_size (nd s n))"
  shows "RamFS_Read devs (Some n) off len s = Some (take (unat len) (drop (unat (off mod blk_size (nd s n))) (g_sec_buf s)), s)"
proof -
  let ?x = "nd s n"
  let ?o = "off mod blk_size ?x"
  have f: "ext_fetch devs dev (blk_size ?x) (blk_size ?x div sector_size (devs dev)) (dev_sector devs ?x off dev) s = (0, s)"
    using assms(2) unfolding ext_fetch_def cache_hit_def by simp
  have "off < fsize ?x" using assms(1) by (simp add: reads_from_def)
  then have "unat (fsize ?x - off) = unat (fsize ?x) - unat off" by (intro unat_sub) simp
  then have le: "len \<le> fsize ?x - off" using assms(3) by (simp add: word_le_nat_alt)
  have "?o \<le> blk_size ?x" using assms(4) by (simp add: word_le_nat_alt)
  then have "unat (blk_size ?x - ?o) = unat (blk_size ?x) - unat ?o" by (rule unat_sub)
  then have ck: "len \<le> blk_size ?x - ?o" using assms(4) by (simp add: word_le_nat_alt)
  then have chunk: "(if blk_size ?x - ?o > len then len else blk_size ?x - ?o) = len" by auto
  have done1: "ext_read devs dev b r sec so 0 acc s = Some (acc, s)" for b r sec so acc by (subst ext_read.simps) simp
  have "ext_read devs dev (blk_size ?x) (blk_size ?x div sector_size (devs dev)) (ext_lba ?x + off div blk_size ?x) ?o len [] s =
      Some (take (unat len) (drop (unat ?o) (g_sec_buf s)), s)"
  proof (cases "len = 0")
    case False
    then show ?thesis using f chunk unfolding dev_sector_def by (subst ext_read.simps) (simp add: Let_def done1)
  qed (simp add: done1)
  then show ?thesis using RamFS_Read_proxy [OF assms(1) le] by simp
qed

text \<open>(C36) The cache is not invalidated by a failed device read.  Let \<open>m\<close> and \<open>n\<close> be proxy files, the
  block of \<open>n\<close> the cached one and the block of \<open>m\<close> another.  If reading \<open>m\<close> makes the driver store
  some bytes in the buffer and then report an error, that read returns nothing, but the cache still
  claims to hold the block of \<open>n\<close>: the next read of \<open>n\<close> inside that block returns the bytes of the
  failed transfer, without an error and without asking the device.\<close>

theorem proxy_cache_stale:
  assumes "reads_from (nd s m) off dev" "len \<noteq> 0" "\<not> cache_hit devs s (nd s m) off dev"
    and "BlockDev_Read (devs dev) (dev_sector devs (nd s m) off dev) (blk_size (nd s m) div sector_size (devs dev)) = (rc, bytes)"
    and "rc \<noteq> 0" "reads_from (nd s n) off' dev'" "cache_hit devs s (nd s n) off' dev'"
    and "unat off' + unat len' \<le> unat (fsize (nd s n))"
    and "unat (off' mod blk_size (nd s n)) + unat len' \<le> min (unat (blk_size (nd s n))) (length bytes)"
  shows "\<exists>s'. RamFS_Read devs (Some m) off len s = Some ([], s') \<and>
    RamFS_Read devs (Some n) off' len' s' = Some (take (unat len') (drop (unat (off' mod blk_size (nd s n))) bytes), s')"
proof -
  let ?s' = "s\<lparr>g_sec_buf := bytes @ drop (length bytes) (g_sec_buf s)\<rparr>"
  have "RamFS_Read devs (Some n) off' len' ?s' =
      Some (take (unat len') (drop (unat (off' mod blk_size (nd s n))) (g_sec_buf ?s')), ?s')"
    using read_cached [of ?s' n off' dev' devs len'] assms(6-9) by (simp add: cache_hit_def)
  then show ?thesis using read_failed [OF assms(1-5)] assms(9) by simp
qed

theorem proxy_cache_stale_witness:
  "\<exists>s s' s''. RamFS_Read (\<lambda>_. bad_dev) (Some 0) 0 1 proxy_demo = Some ([7], s) \<and>
     RamFS_Read (\<lambda>_. bad_dev) (Some 1) 0 1 s = Some ([], s') \<and> RamFS_Read (\<lambda>_. bad_dev) (Some 0) 0 1 s' = Some ([9], s'')"
proof -
  note D = proxy_demo_def proxy_node_def node_zero_def SEC_BUF_SZ_def BlockDev_Read_def bad_dev_def fs_zero_def
  obtain s where s: "RamFS_Read (\<lambda>_. bad_dev) (Some 0) 0 1 proxy_demo = Some ([7], s)" "g_nodes s = g_nodes proxy_demo"
    "g_sec_valid s" "g_sec_bdev s = Some 0" "g_sec_blksz s = 1" "g_sec_devsec s = 0"
    by (simp add: D RamFS_Read_def Let_def ext_fetch_def ext_read.simps)
  have r: "reads_from (nd s k) 0 0" for k using s(2) by (simp add: reads_from_def blk_size_def D)
  have h: "cache_hit (\<lambda>_. bad_dev) s (nd s 0) 0 0" "\<not> cache_hit (\<lambda>_. bad_dev) s (nd s 1) 0 0"
    using s by (simp_all add: cache_hit_def dev_sector_def blk_size_def D)
  have b: "BlockDev_Read bad_dev (dev_sector (\<lambda>_. bad_dev) (nd s 1) 0 0) (blk_size (nd s 1) div sector_size bad_dev) = (-1, [9])"
    using s(2) by (simp add: dev_sector_def blk_size_def D)
  from proxy_cache_stale [OF r _ h(2) b _ r h(1), of 1 1] s(1,2) show ?thesis
    by (auto simp: blk_size_def D)
qed

end
