(* ===== verification/Net_Defs.thy ===== *)
theory Net_Defs
  imports Prelude
begin

text \<open>
  The lower half of the network stack: byte order and checksums of \<^verbatim>\<open>kernel/net/net.h\<close>, Ethernet
  framing (\<^verbatim>\<open>eth.h\<close>), the device wrapper \<open>netdev_send\<close> (\<^verbatim>\<open>net_device.c\<close>), the ARP cache (\<^verbatim>\<open>arp.c\<close>) and
  the sending side of IPv4 (\<^verbatim>\<open>ip.c\<close>).  The globals of these files are one record that the upper
  layers extend.  A received packet is a pointer: the bytes from an address on (\<open>nat \<Rightarrow> u8\<close>) and a
  length, so that a read past the packet is a read of what lies there; packets that are built are
  byte lists.  The active device is its \<open>send\<close> operation, and \<open>netdev_out\<close> is the sequence of frames
  handed to it.  A call is one function on the state: that calls do not overlap is an assumption, which
  the code ensures by masking interrupts in some of them only.
\<close>

unbundle bit_operations_syntax

type_synonym mem = "nat \<Rightarrow> u8"

section \<open>Byte order and checksums (net.h)\<close>

definition net_htons :: "u16 \<Rightarrow> u16" where
  "net_htons v = drop_bit 8 v OR push_bit 8 v"

definition net_ntohs :: "u16 \<Rightarrow> u16" where "net_ntohs v = net_htons v"

definition net_htonl :: "u32 \<Rightarrow> u32" where
  "net_htonl v = (drop_bit 24 v AND 0xFF) OR (drop_bit 8 v AND 0xFF00) OR
     (push_bit 8 v AND 0xFF0000) OR (push_bit 24 v AND 0xFF000000)"

definition net_ntohl :: "u32 \<Rightarrow> u32" where "net_ntohl v = net_htonl v"

text \<open>Fields of packed structures, as the little-endian machine loads and stores them.\<close>

definition fld8 :: "mem \<Rightarrow> nat \<Rightarrow> u8" where "fld8 p off = p off"

definition fld16 :: "mem \<Rightarrow> nat \<Rightarrow> u16" where
  "fld16 p off = ucast (p off) OR push_bit 8 (ucast (p (off + 1)))"

definition fld32 :: "mem \<Rightarrow> nat \<Rightarrow> u32" where
  "fld32 p off = ucast (p off) OR push_bit 8 (ucast (p (off + 1))) OR
     push_bit 16 (ucast (p (off + 2))) OR push_bit 24 (ucast (p (off + 3)))"

definition bytes16 :: "u16 \<Rightarrow> u8 list" where
  "bytes16 v = [ucast v, ucast (drop_bit 8 v)]"

definition bytes32 :: "u32 \<Rightarrow> u8 list" where
  "bytes32 v = [ucast v, ucast (drop_bit 8 v), ucast (drop_bit 16 v), ucast (drop_bit 24 v)]"

text \<open>The bytes at a pointer.\<close>

definition slice :: "mem \<Rightarrow> nat \<Rightarrow> nat \<Rightarrow> u8 list" where
  "slice p off n = map (\<lambda>i. p (off + i)) [0..<n]"

text \<open>\<open>while (sum >> 16) sum = (sum & 0xFFFF) + (sum >> 16)\<close>\<close>

lemma carry_less:
  assumes "drop_bit 16 (v :: u32) \<noteq> 0"
  shows "unat ((v AND 0xFFFF) + drop_bit 16 v) < unat v"
proof -
  define n where "n = unat v"
  have m: "(0xFFFF :: u32) = mask 16" by (simp add: mask_eq_exp_minus_1)
  have lo: "unat (v AND 0xFFFF) = n mod 2 ^ 16"
    unfolding m n_def take_bit_eq_mask [symmetric] unsigned_take_bit_eq by (simp add: take_bit_eq_mod)
  have b: "n < 2 ^ 32" unfolding n_def using unsigned_less [of v, where 'a = nat] by simp
  then have hi: "unat (drop_bit 16 v) = n div 2 ^ 16"
    unfolding n_def unsigned_drop_bit_eq by (simp add: drop_bit_eq_div take_bit_nat_eq_self)
  have d: "0 < n div 2 ^ 16" using assms unat_gt_0 [of "drop_bit 16 v"] unfolding hi by simp
  have "n mod k + n div k < n" if "0 < n div k" "1 < k" for k
  proof -
    have "n div k < k * (n div k)" using that by simp
    then show ?thesis using mod_mult_div_eq [of n k] by linarith
  qed
  then have "n mod 2 ^ 16 + n div 2 ^ 16 < n" using d by simp
  then show ?thesis using lo hi b by (subst unat_add_lem [THEN iffD1]) (simp_all add: n_def)
qed

function cksum_fold :: "u32 \<Rightarrow> u32" where
  "cksum_fold v = (if drop_bit 16 v \<noteq> 0 then cksum_fold ((v AND 0xFFFF) + drop_bit 16 v) else v)"
  by pat_completeness auto
termination by (relation "measure unat") (simp_all add: carry_less)

declare cksum_fold.simps [simp del]

fun sum16be :: "u8 list \<Rightarrow> u32 \<Rightarrow> u32" where
  "sum16be (a # b # r) acc = sum16be r (acc + (push_bit 8 (ucast a) OR ucast b))"
| "sum16be [a] acc = acc + push_bit 8 (ucast a)"
| "sum16be [] acc = acc"

definition inet_cksum :: "u8 list \<Rightarrow> u16" where
  "inet_cksum p = ucast (NOT (cksum_fold (sum16be p 0)))"

section \<open>State\<close>

record arp_entry =
  e_ip :: u32
  e_mac :: "u8 list"
  e_valid :: bool
  e_pinned :: bool
  e_last_use :: u64

record arp_pend =
  p_valid :: bool
  p_nexthop :: u32
  p_tstamp :: u64
  p_frame :: "u8 list"

record net =
  g_pit_ticks :: u64
  netdev_up :: bool
  g_netdev :: "(u8 list \<Rightarrow> int) option"
  netdev_out :: "u8 list list"
  arp_my_ip :: u32
  arp_gateway :: u32
  arp_my_mac :: "u8 list"
  g_cache :: "nat \<Rightarrow> arp_entry"
  g_my_ip :: u32
  g_gateway :: u32
  g_netmask :: u32
  g_my_mac :: "u8 list"
  g_ip_id :: u16
  g_pend :: "nat \<Rightarrow> arp_pend"
  g_arp_req :: "nat \<Rightarrow> u32 \<times> u64"

section \<open>Frames and the device\<close>

definition ETH_HDR_LEN :: nat where "ETH_HDR_LEN = 14"
definition ETHERTYPE_ARP :: u16 where "ETHERTYPE_ARP = 0x0806"
definition ETHERTYPE_IP :: u16 where "ETHERTYPE_IP = 0x0800"
definition ETH_BCAST :: "u8 list" where "ETH_BCAST = replicate 6 0xFF"
definition ETH_MIN_FRAME :: nat where "ETH_MIN_FRAME = 60"

text \<open>The header is written over the first 14 bytes of the frame buffer.\<close>

definition eth_build :: "u8 list \<Rightarrow> u8 list \<Rightarrow> u8 list \<Rightarrow> u16 \<Rightarrow> u8 list" where
  "eth_build buf dst src ethertype = dst @ src @ bytes16 (net_htons ethertype) @ drop ETH_HDR_LEN buf"

definition netdev_send :: "u8 list \<Rightarrow> 'a net_scheme \<Rightarrow> int \<times> 'a net_scheme" where
  "netdev_send bs s =
     (if \<not> netdev_up s then (0, s)
      else case g_netdev s of
             None \<Rightarrow> (0, s)
           | Some dev \<Rightarrow>
               let f = (if length bs \<ge> ETH_MIN_FRAME then bs else bs @ replicate (ETH_MIN_FRAME - length bs) 0)
               in (dev f, s\<lparr>netdev_out := netdev_out s @ [f]\<rparr>))"

section \<open>The ARP cache (arp.c)\<close>

definition ARP_CACHE_SIZE :: nat where "ARP_CACHE_SIZE = 16"

definition arp_zero :: arp_entry where
  "arp_zero = \<lparr>e_ip = 0, e_mac = replicate 6 0, e_valid = False, e_pinned = False, e_last_use = 0\<rparr>"

definition arp_init :: "u32 \<Rightarrow> u8 list \<Rightarrow> 'a net_scheme \<Rightarrow> 'a net_scheme" where
  "arp_init my_ip my_mac s = s\<lparr>arp_my_ip := my_ip, arp_gateway := 0, arp_my_mac := my_mac, g_cache := \<lambda>_. arp_zero\<rparr>"

definition upd_cache :: "nat \<Rightarrow> (arp_entry \<Rightarrow> arp_entry) \<Rightarrow> 'a net_scheme \<Rightarrow> 'a net_scheme" where
  "upd_cache i f s = s\<lparr>g_cache := (g_cache s)(i := f (g_cache s i))\<rparr>"

definition arp_set_gateway :: "u32 \<Rightarrow> 'a net_scheme \<Rightarrow> 'a net_scheme" where
  "arp_set_gateway gw s =
     s\<lparr>arp_gateway := gw, g_cache := \<lambda>i. if i < ARP_CACHE_SIZE \<and> e_valid (g_cache s i) \<and> e_ip (g_cache s i) = gw
                                         then (g_cache s i)\<lparr>e_pinned := True\<rparr> else g_cache s i\<rparr>"

definition arp_cache_find :: "u32 \<Rightarrow> 'a net_scheme \<Rightarrow> nat option" where
  "arp_cache_find ip s = first_index (\<lambda>i. e_valid (g_cache s i) \<and> e_ip (g_cache s i) = ip) ARP_CACHE_SIZE"

text \<open>The eviction scan: the least recently used entry that is not pinned.\<close>

fun lru_scan :: "(nat \<Rightarrow> arp_entry) \<Rightarrow> nat list \<Rightarrow> u64 \<Rightarrow> nat option \<Rightarrow> nat option" where
  "lru_scan c [] oldest slot = slot"
| "lru_scan c (i # is) oldest slot =
     (if e_pinned (c i) then lru_scan c is oldest slot
      else if e_last_use (c i) < oldest then lru_scan c is (e_last_use (c i)) (Some i)
      else lru_scan c is oldest slot)"

definition arp_victim :: "'a net_scheme \<Rightarrow> nat option" where
  "arp_victim s =
     (case first_index (\<lambda>i. \<not> e_valid (g_cache s i)) ARP_CACHE_SIZE of
        Some i \<Rightarrow> Some i
      | None \<Rightarrow> lru_scan (g_cache s) [0..<ARP_CACHE_SIZE] (NOT 0) None)"

definition arp_cache_update :: "u32 \<Rightarrow> u8 list \<Rightarrow> 'a net_scheme \<Rightarrow> 'a net_scheme" where
  "arp_cache_update ip mac s =
     (if ip = 0 then s
      else case arp_cache_find ip s of
             Some i \<Rightarrow> upd_cache i (\<lambda>e. e\<lparr>e_mac := mac, e_last_use := g_pit_ticks s,
                                          e_pinned := e_pinned e \<or> ip = arp_gateway s\<rparr>) s
           | None \<Rightarrow>
               (case arp_victim s of
                  None \<Rightarrow> s
                | Some slot \<Rightarrow> upd_cache slot (\<lambda>_. \<lparr>e_ip = ip, e_mac = mac, e_valid = True,
                    e_pinned = (ip = arp_gateway s), e_last_use = g_pit_ticks s\<rparr>) s))"

definition arp_lookup :: "u32 \<Rightarrow> 'a net_scheme \<Rightarrow> u8 list option \<times> 'a net_scheme" where
  "arp_lookup ip s =
     (case arp_cache_find ip s of
        None \<Rightarrow> (None, s)
      | Some i \<Rightarrow> (Some (e_mac (g_cache s i)), upd_cache i (\<lambda>e. e\<lparr>e_last_use := g_pit_ticks s\<rparr>) s))"

definition arp_send :: "u16 \<Rightarrow> u8 list \<Rightarrow> u32 \<Rightarrow> 'a net_scheme \<Rightarrow> 'a net_scheme" where
  "arp_send oper tha tpa s =
     (let dst_mac = (if oper = 1 then ETH_BCAST else tha);
          pkt = bytes16 (net_htons 1) @ bytes16 (net_htons 0x0800) @ [6, 4] @ bytes16 (net_htons oper) @
                arp_my_mac s @ bytes32 (net_htonl (arp_my_ip s)) @ tha @ bytes32 (net_htonl tpa);
          frame = eth_build (replicate ETH_HDR_LEN 0 @ pkt) dst_mac (arp_my_mac s) ETHERTYPE_ARP
      in snd (netdev_send frame s))"

definition arp_request :: "u32 \<Rightarrow> 'a net_scheme \<Rightarrow> 'a net_scheme" where
  "arp_request target s = arp_send 1 (replicate 6 0) target s"

section \<open>Frames waiting for an address (ip.c)\<close>

definition ARP_PEND_MAX :: nat where "ARP_PEND_MAX = 8"
definition ARP_PEND_PER_PEER :: nat where "ARP_PEND_PER_PEER = 2"
definition ARP_PEND_TTL :: u64 where "ARP_PEND_TTL = 300"
definition ARP_REQ_MIN_GAP :: u64 where "ARP_REQ_MIN_GAP = 100"

text \<open>The throttle loop: the index of the oldest request seen so far is carried along.\<close>

fun throttle_scan :: "u32 \<Rightarrow> nat list \<Rightarrow> nat \<Rightarrow> 'a net_scheme \<Rightarrow> 'a net_scheme" where
  "throttle_scan nexthop [] oldest s =
     arp_request nexthop (s\<lparr>g_arp_req := (g_arp_req s)(oldest := (nexthop, g_pit_ticks s))\<rparr>)"
| "throttle_scan nexthop (i # is) oldest s =
     (if fst (g_arp_req s i) = nexthop
      then if g_pit_ticks s - snd (g_arp_req s i) < ARP_REQ_MIN_GAP then s
           else arp_request nexthop (s\<lparr>g_arp_req := (g_arp_req s)(i := (nexthop, g_pit_ticks s))\<rparr>)
      else throttle_scan nexthop is (if snd (g_arp_req s i) < snd (g_arp_req s oldest) then i else oldest) s)"

definition arp_request_throttled :: "u32 \<Rightarrow> 'a net_scheme \<Rightarrow> 'a net_scheme" where
  "arp_request_throttled nexthop s = throttle_scan nexthop [0..<4] 0 s"

text \<open>The scan of the pending frames: the first free slot, the number of frames of the peer, and the
  oldest frame of the peer, of the expired frames and of all frames with their time stamps.\<close>

record pend_scan =
  free_slot :: "nat option"
  peer_count :: nat
  peer_oldest :: "(u64 \<times> nat) option"
  exp_oldest :: "(u64 \<times> nat) option"
  any_oldest :: "(u64 \<times> nat) option"

definition older :: "u64 \<Rightarrow> nat \<Rightarrow> (u64 \<times> nat) option \<Rightarrow> (u64 \<times> nat) option" where
  "older t i m = (if t < (case m of None \<Rightarrow> NOT 0 | Some (u, _) \<Rightarrow> u) then Some (t, i) else m)"

definition pend_visit :: "u64 \<Rightarrow> u32 \<Rightarrow> (nat \<Rightarrow> arp_pend) \<Rightarrow> nat \<Rightarrow> pend_scan \<Rightarrow> pend_scan" where
  "pend_visit now nexthop q i r =
     (if \<not> p_valid (q i) then (if free_slot r = None then r\<lparr>free_slot := Some i\<rparr> else r)
      else let t = p_tstamp (q i);
               r = (if p_nexthop (q i) = nexthop
                    then r\<lparr>peer_count := peer_count r + 1, peer_oldest := older t i (peer_oldest r)\<rparr> else r);
               r = (if now - t \<ge> ARP_PEND_TTL then r\<lparr>exp_oldest := older t i (exp_oldest r)\<rparr> else r)
           in r\<lparr>any_oldest := older t i (any_oldest r)\<rparr>)"

definition pend_slot :: "u32 \<Rightarrow> 'a net_scheme \<Rightarrow> nat option" where
  "pend_slot nexthop s =
     (let r = fold (pend_visit (g_pit_ticks s) nexthop (g_pend s)) [0..<ARP_PEND_MAX]
                \<lparr>free_slot = None, peer_count = 0, peer_oldest = None, exp_oldest = None, any_oldest = None\<rparr>
      in if peer_count r \<ge> ARP_PEND_PER_PEER \<and> peer_oldest r \<noteq> None then map_option snd (peer_oldest r)
         else if free_slot r \<noteq> None then free_slot r
         else if exp_oldest r \<noteq> None then map_option snd (exp_oldest r)
         else map_option snd (any_oldest r))"

definition arp_pend_enqueue :: "u32 \<Rightarrow> u8 list \<Rightarrow> 'a net_scheme \<Rightarrow> 'a net_scheme" where
  "arp_pend_enqueue nexthop frame s =
     (case pend_slot nexthop s of
        None \<Rightarrow> s
      | Some i \<Rightarrow> s\<lparr>g_pend := (g_pend s)(i := \<lparr>p_valid = True, p_nexthop = nexthop, p_tstamp = g_pit_ticks s,
                                             p_frame = frame\<rparr>)\<rparr>)"

fun flush_pend :: "u32 \<Rightarrow> u8 list \<Rightarrow> nat list \<Rightarrow> 'a net_scheme \<Rightarrow> 'a net_scheme" where
  "flush_pend ip mac [] s = s"
| "flush_pend ip mac (i # is) s =
     (if \<not> p_valid (g_pend s i) \<or> p_nexthop (g_pend s i) \<noteq> ip then flush_pend ip mac is s
      else let s = s\<lparr>g_pend := (g_pend s)(i := (g_pend s i)\<lparr>p_valid := False\<rparr>)\<rparr>
           in flush_pend ip mac is
                (snd (netdev_send (eth_build (p_frame (g_pend s i)) mac (g_my_mac s) ETHERTYPE_IP) s)))"

definition ip_arp_resolved :: "u32 \<Rightarrow> 'a net_scheme \<Rightarrow> 'a net_scheme" where
  "ip_arp_resolved ip s =
     (case arp_lookup ip s of
        (None, s) \<Rightarrow> s
      | (Some mac, s) \<Rightarrow> flush_pend ip mac [0..<ARP_PEND_MAX] s)"

section \<open>Sending IPv4 packets (ip.c)\<close>

definition IP_HDR_LEN :: nat where "IP_HDR_LEN = 20"
definition IP_PROTO_ICMP :: u8 where "IP_PROTO_ICMP = 1"
definition IP_PROTO_TCP :: u8 where "IP_PROTO_TCP = 6"
definition IP_PROTO_UDP :: u8 where "IP_PROTO_UDP = 17"

definition ip_init :: "u32 \<Rightarrow> u32 \<Rightarrow> u32 \<Rightarrow> u8 list \<Rightarrow> 'a net_scheme \<Rightarrow> 'a net_scheme" where
  "ip_init my_ip gateway netmask mac s =
     (arp_set_gateway gateway (s\<lparr>g_my_ip := my_ip, g_gateway := gateway, g_netmask := netmask, g_my_mac := mac\<rparr>))
       \<lparr>g_pend := \<lambda>_. \<lparr>p_valid = False, p_nexthop = 0, p_tstamp = 0, p_frame = []\<rparr>, g_arp_req := \<lambda>_. (0, 0)\<rparr>"

text \<open>The header with its checksum field.\<close>

definition ip_hdr :: "u16 \<Rightarrow> u16 \<Rightarrow> u8 \<Rightarrow> u16 \<Rightarrow> u32 \<Rightarrow> u32 \<Rightarrow> u8 list" where
  "ip_hdr tot_len ident proto cksum src dst =
     [0x45, 0] @ bytes16 (net_htons tot_len) @ bytes16 (net_htons ident) @ bytes16 0 @ [64, proto] @
     bytes16 cksum @ bytes32 (net_htonl src) @ bytes32 (net_htonl dst)"

definition ip_packet :: "u16 \<Rightarrow> u8 \<Rightarrow> u32 \<Rightarrow> u32 \<Rightarrow> u8 list \<Rightarrow> u8 list" where
  "ip_packet ident proto src dst payload =
     (let tot = of_nat (IP_HDR_LEN + length payload);
          ck = net_htons (inet_cksum (ip_hdr tot ident proto 0 src dst))
      in ip_hdr tot ident proto ck src dst @ payload)"

text \<open>The 14 bytes in front of the IP header are filled in by \<open>eth_build\<close>, immediately or when the
  frame leaves the pending queue.\<close>

definition ip_send :: "u32 \<Rightarrow> u8 \<Rightarrow> u8 list \<Rightarrow> 'a net_scheme \<Rightarrow> int \<times> 'a net_scheme" where
  "ip_send dst_ip proto payload s =
     (if \<not> netdev_up s then (0, s)
      else if (of_nat (IP_HDR_LEN + length payload) :: u16) > of_nat (IP_HDR_LEN + 1480) then (0, s)
      else
        let frame = replicate ETH_HDR_LEN 0 @ ip_packet (g_ip_id s) proto (g_my_ip s) dst_ip payload;
            s = s\<lparr>g_ip_id := g_ip_id s + 1\<rparr>;
            nexthop = (if dst_ip AND g_netmask s \<noteq> g_my_ip s AND g_netmask s then g_gateway s else dst_ip)
        in if dst_ip = 0xFFFFFFFF \<or> dst_ip = g_my_ip s OR NOT (g_netmask s)
           then netdev_send (eth_build frame ETH_BCAST (g_my_mac s) ETHERTYPE_IP) s
           else case arp_lookup nexthop s of
                  (None, s) \<Rightarrow> (1, arp_request_throttled nexthop (arp_pend_enqueue nexthop frame s))
                | (Some mac, s) \<Rightarrow> netdev_send (eth_build frame mac (g_my_mac s) ETHERTYPE_IP) s)"

section \<open>Receiving ARP (arp.c)\<close>

definition ARP_PKT_LEN :: u16 where "ARP_PKT_LEN = 28"

definition arp_rx :: "mem \<Rightarrow> u16 \<Rightarrow> 'a net_scheme \<Rightarrow> 'a net_scheme" where
  "arp_rx pkt len s =
     (if len < ARP_PKT_LEN then s
      else if net_ntohs (fld16 pkt 0) \<noteq> 1 then s
      else if net_ntohs (fld16 pkt 2) \<noteq> 0x0800 then s
      else if fld8 pkt 4 \<noteq> 6 \<or> fld8 pkt 5 \<noteq> 4 then s
      else
        let sender_ip = net_ntohl (fld32 pkt 14);
            target_ip = net_ntohl (fld32 pkt 24);
            is_reply = (net_ntohs (fld16 pkt 6) = 2);
            sha = slice pkt 8 6;
            merged = (arp_cache_find sender_ip s \<noteq> None);
            s = (if merged then arp_cache_update sender_ip sha s else s);
            learned = (target_ip = arp_my_ip s \<and> \<not> merged);
            s = (if target_ip = arp_my_ip s
                 then let s = (if \<not> merged then arp_cache_update sender_ip sha s else s)
                      in if \<not> is_reply then arp_send 2 sha sender_ip s else s
                 else s)
        in if merged \<or> learned then ip_arp_resolved sender_ip s else s)"

end
