(* ===== verification/Net_Udp.thy ===== *)
theory Net_Udp
  imports Net_Defs "HOL-Library.Signed_Division"
begin

text \<open>
  ICMP echo (\<^verbatim>\<open>kernel/net/icmp.c\<close>) and UDP sockets (\<^verbatim>\<open>kernel/net/udp.c\<close>), on top of the IPv4 sender.
  The byte rings of both transports (\<open>ring_put\<close>, \<open>ring_get\<close> here, \<open>rbuf_put\<close>, \<open>rbuf_get\<close> of TCP) are
  the same code over a buffer, a read index and a write index.  \<open>entropy_fill\<close> is an argument: the
  random numbers it delivers, one per draw.
\<close>

section \<open>Byte rings\<close>

text \<open>\<open>rbuf_put\<close> and \<open>ring_put\<close>: store bytes until the ring is full; the count, the buffer and the
  new write index.\<close>

definition ring_next :: "u16 \<Rightarrow> u16 \<Rightarrow> u16" where
  "ring_next i sz = of_nat ((unat i + 1) mod unat sz)"

fun rbuf_put :: "(nat \<Rightarrow> u8) \<Rightarrow> u16 \<Rightarrow> u16 \<Rightarrow> u16 \<Rightarrow> u8 list \<Rightarrow> u16 \<Rightarrow> u16 \<times> (nat \<Rightarrow> u8) \<times> u16" where
  "rbuf_put buf tail head sz [] n = (n, buf, tail)"
| "rbuf_put buf tail head sz (d # ds) n =
     (if ring_next tail sz = head then (n, buf, tail)
      else rbuf_put (buf(unat tail := d)) (ring_next tail sz) head sz ds (n + 1))"

fun rbuf_get :: "(nat \<Rightarrow> u8) \<Rightarrow> u16 \<Rightarrow> u16 \<Rightarrow> u16 \<Rightarrow> nat \<Rightarrow> u8 list \<times> u16" where
  "rbuf_get buf head tail sz 0 = ([], head)"
| "rbuf_get buf head tail sz (Suc n) =
     (if head = tail then ([], head)
      else let (out, h) = rbuf_get buf (ring_next head sz) tail sz n in (buf (unat head) # out, h))"

definition rbuf_used :: "u16 \<Rightarrow> u16 \<Rightarrow> u16 \<Rightarrow> u16" where
  "rbuf_used head tail sz = of_int ((uint tail - uint head + uint sz) smod uint sz)"

definition rbuf_free :: "u16 \<Rightarrow> u16 \<Rightarrow> u16 \<Rightarrow> u16" where
  "rbuf_free head tail sz = of_int (uint sz - 1 - uint (rbuf_used head tail sz))"

section \<open>ICMP\<close>

record icmp_net = net +
  g_got_reply :: bool
  g_expect_ident :: u16
  g_expect_seq :: u16
  g_expect_src :: u32
  g_reply_ttl :: u8
  g_reply_src :: u32

definition ICMP_ECHO_REQUEST :: u8 where "ICMP_ECHO_REQUEST = 8"
definition ICMP_ECHO_REPLY :: u8 where "ICMP_ECHO_REPLY = 0"
definition ICMP_HDR_LEN :: nat where "ICMP_HDR_LEN = 8"

text \<open>A message with its checksum; \<open>ident\<close> and \<open>seq\<close> are the stored 16-bit fields.\<close>

definition icmp_msg :: "u8 \<Rightarrow> u16 \<Rightarrow> u16 \<Rightarrow> u8 list \<Rightarrow> u8 list" where
  "icmp_msg ty ident sq payload =
     (let body = bytes16 ident @ bytes16 sq @ payload;
          ck = net_htons (inet_cksum ([ty, 0] @ bytes16 0 @ body))
      in [ty, 0] @ bytes16 ck @ body)"

definition icmp_rx :: "u32 \<Rightarrow> u8 \<Rightarrow> mem \<Rightarrow> u16 \<Rightarrow> 'a icmp_net_scheme \<Rightarrow> 'a icmp_net_scheme" where
  "icmp_rx src_ip ttl pkt len s =
     (if len < of_nat ICMP_HDR_LEN then s
      else if fld8 pkt 0 = ICMP_ECHO_REQUEST
      then let data_len = len - of_nat ICMP_HDR_LEN;
               data_len = (if data_len > 64 then 64 else data_len)
           in snd (ip_send src_ip IP_PROTO_ICMP
                (icmp_msg ICMP_ECHO_REPLY (fld16 pkt 4) (fld16 pkt 6) (slice pkt ICMP_HDR_LEN (unat data_len))) s)
      else if fld8 pkt 0 = ICMP_ECHO_REPLY
      then if net_ntohs (fld16 pkt 4) = g_expect_ident s \<and> net_ntohs (fld16 pkt 6) = g_expect_seq s \<and>
              (g_expect_src s = 0 \<or> src_ip = g_expect_src s)
           then s\<lparr>g_reply_ttl := ttl, g_reply_src := src_ip, g_got_reply := True\<rparr> else s
      else s)"

definition icmp_ping :: "u32 \<Rightarrow> u16 \<Rightarrow> 'a icmp_net_scheme \<Rightarrow> 'a icmp_net_scheme" where
  "icmp_ping dst_ip sq s =
     snd (ip_send dst_ip IP_PROTO_ICMP
       (icmp_msg ICMP_ECHO_REQUEST (net_htons 0x4141) (net_htons sq) (map of_nat [0..<32]))
       (s\<lparr>g_expect_src := dst_ip, g_expect_seq := sq\<rparr>))"

section \<open>UDP\<close>

record udp_dgram =
  d_src_ip :: u32
  d_src_port :: u16
  d_len :: u16

record udp_sock =
  u_active :: bool
  u_local_port :: u16
  u_rx_buf :: "nat \<Rightarrow> u8"
  u_rx_head :: u16
  u_rx_tail :: u16
  u_rx_q :: "nat \<Rightarrow> udp_dgram"
  u_rx_qhead :: u8
  u_rx_qcount :: u8
  u_last_src_ip :: u32
  u_last_src_port :: u16

record udp_net = icmp_net +
  udp_socks :: "nat \<Rightarrow> udp_sock"
  g_ephemeral :: u16

definition UDP_MAX_SOCKETS :: nat where "UDP_MAX_SOCKETS = 8"
definition UDP_RX_BUF_SIZE :: u16 where "UDP_RX_BUF_SIZE = 2048"
definition UDP_RX_QUEUE :: nat where "UDP_RX_QUEUE = 8"
definition UDP_HDR_LEN :: nat where "UDP_HDR_LEN = 8"

definition udp_sock_valid :: "int \<Rightarrow> 'a udp_net_scheme \<Rightarrow> bool" where
  "udp_sock_valid i s \<longleftrightarrow> i \<ge> 0 \<and> i < int UDP_MAX_SOCKETS \<and> u_active (udp_socks s (nat i))"

definition port_in_use :: "u16 \<Rightarrow> 'a udp_net_scheme \<Rightarrow> bool" where
  "port_in_use port s \<longleftrightarrow>
     first_index (\<lambda>i. u_active (udp_socks s i) \<and> u_local_port (udp_socks s i) = port) UDP_MAX_SOCKETS \<noteq> None"

definition upd_udp :: "nat \<Rightarrow> (udp_sock \<Rightarrow> udp_sock) \<Rightarrow> 'a udp_net_scheme \<Rightarrow> 'a udp_net_scheme" where
  "upd_udp i f s = s\<lparr>udp_socks := (udp_socks s)(i := f (udp_socks s i))\<rparr>"

text \<open>\<open>alloc_port\<close>: sixteen random draws, then the sequential counter; the second loop has no bound.\<close>

fun random_port :: "u32 list \<Rightarrow> 'a udp_net_scheme \<Rightarrow> u16 option" where
  "random_port [] s = None"
| "random_port (r # rs) s =
     (let port = of_nat (49152 + unat r mod (65536 - 49152))
      in if \<not> port_in_use port s then Some port else random_port rs s)"

partial_function (option) next_port :: "'a udp_net_scheme \<Rightarrow> (u16 \<times> 'a udp_net_scheme) option" where
  "next_port s =
     (let e = (if g_ephemeral s \<ge> 65535 then 49152 else g_ephemeral s);
          s = s\<lparr>g_ephemeral := e + 1\<rparr>
      in if \<not> port_in_use e s then Some (e, s) else next_port s)"

definition alloc_port :: "u32 list \<Rightarrow> 'a udp_net_scheme \<Rightarrow> (u16 \<times> 'a udp_net_scheme) option" where
  "alloc_port draws s =
     (case random_port (take 16 draws) s of Some p \<Rightarrow> Some (p, s) | None \<Rightarrow> next_port s)"

definition ring_used :: "udp_sock \<Rightarrow> u16" where
  "ring_used x = rbuf_used (u_rx_head x) (u_rx_tail x) UDP_RX_BUF_SIZE"

definition ring_free :: "udp_sock \<Rightarrow> u16" where
  "ring_free x = of_int (uint UDP_RX_BUF_SIZE - 1 - uint (ring_used x))"

definition ring_put :: "udp_sock \<Rightarrow> u8 list \<Rightarrow> udp_sock" where
  "ring_put x bs =
     (let (n, buf, t) = rbuf_put (u_rx_buf x) (u_rx_tail x) (u_rx_head x) UDP_RX_BUF_SIZE bs 0
      in x\<lparr>u_rx_buf := buf, u_rx_tail := t\<rparr>)"

definition ring_get :: "udp_sock \<Rightarrow> u16 \<Rightarrow> u8 list \<times> udp_sock" where
  "ring_get x maxlen =
     (let (out, h) = rbuf_get (u_rx_buf x) (u_rx_head x) (u_rx_tail x) UDP_RX_BUF_SIZE (unat maxlen)
      in (out, x\<lparr>u_rx_head := h\<rparr>))"

definition ring_skip :: "udp_sock \<Rightarrow> u16 \<Rightarrow> udp_sock" where
  "ring_skip x n = x\<lparr>u_rx_head := of_nat ((unat (u_rx_head x) + unat n) mod unat UDP_RX_BUF_SIZE)\<rparr>"

definition queue_dgram :: "u32 \<Rightarrow> u16 \<Rightarrow> u8 list \<Rightarrow> udp_sock \<Rightarrow> udp_sock" where
  "queue_dgram src_ip src_port bs x =
     (if unat (u_rx_qcount x) < UDP_RX_QUEUE \<and> ring_free x \<ge> of_nat (length bs)
      then let slot = (unat (u_rx_qhead x) + unat (u_rx_qcount x)) mod UDP_RX_QUEUE;
               x = x\<lparr>u_rx_q := (u_rx_q x)(slot := \<lparr>d_src_ip = src_ip, d_src_port = src_port, d_len = of_nat (length bs)\<rparr>),
                     u_rx_qcount := u_rx_qcount x + 1\<rparr>
           in (ring_put x bs)\<lparr>u_last_src_ip := src_ip, u_last_src_port := src_port\<rparr>
      else x)"

definition udp_rx :: "u32 \<Rightarrow> mem \<Rightarrow> u16 \<Rightarrow> 'a udp_net_scheme \<Rightarrow> 'a udp_net_scheme" where
  "udp_rx src_ip pkt len s =
     (if unat len < UDP_HDR_LEN then s
      else let dst_port = net_ntohs (fld16 pkt 2);
               data_len = net_ntohs (fld16 pkt 4) - of_nat UDP_HDR_LEN
           in if unat data_len > unat len - UDP_HDR_LEN then s
              else case first_index (\<lambda>i. u_active (udp_socks s i) \<and> u_local_port (udp_socks s i) = dst_port) UDP_MAX_SOCKETS of
                     None \<Rightarrow> s
                   | Some i \<Rightarrow> upd_udp i (queue_dgram src_ip (net_ntohs (fld16 pkt 0)) (slice pkt UDP_HDR_LEN (unat data_len))) s)"

text \<open>The slot is marked active before the port is drawn, with the port of its previous use.\<close>

definition udp_open :: "u32 list \<Rightarrow> u16 \<Rightarrow> 'a udp_net_scheme \<Rightarrow> (int \<times> 'a udp_net_scheme) option" where
  "udp_open draws local_port s =
     (case first_index (\<lambda>i. \<not> u_active (udp_socks s i)) UDP_MAX_SOCKETS of
        None \<Rightarrow> Some (-1, s)
      | Some i \<Rightarrow>
          let s = upd_udp i (\<lambda>x. x\<lparr>u_active := True\<rparr>) s
          in map_option (\<lambda>(port, s). (int i, upd_udp i (\<lambda>x. x\<lparr>u_local_port := port, u_rx_head := 0, u_rx_tail := 0,
                 u_rx_qhead := 0, u_rx_qcount := 0\<rparr>) s))
               (if local_port \<noteq> 0 then Some (local_port, s) else alloc_port draws s))"

definition udp_close :: "int \<Rightarrow> 'a udp_net_scheme \<Rightarrow> 'a udp_net_scheme" where
  "udp_close i s = (if udp_sock_valid i s then upd_udp (nat i) (\<lambda>x. x\<lparr>u_active := False\<rparr>) s else s)"

definition udp_send :: "int \<Rightarrow> u32 \<Rightarrow> u16 \<Rightarrow> u8 list \<Rightarrow> 'a udp_net_scheme \<Rightarrow> int \<times> 'a udp_net_scheme" where
  "udp_send i dst_ip dst_port bs s =
     (if \<not> udp_sock_valid i s then (0, s)
      else let bs = take 1472 bs
           in ip_send dst_ip IP_PROTO_UDP
                (bytes16 (net_htons (u_local_port (udp_socks s (nat i)))) @ bytes16 (net_htons dst_port) @
                 bytes16 (net_htons (of_nat (UDP_HDR_LEN + length bs))) @ bytes16 0 @ bs) s)"

text \<open>\<open>udp_recv\<close>: the bytes stored in the caller's buffer and the peer, \<open>None\<close> when the result is 0
  because nothing is queued.\<close>

definition udp_recv ::
    "int \<Rightarrow> u16 \<Rightarrow> 'a udp_net_scheme \<Rightarrow> (u8 list \<times> u32 \<times> u16) option \<times> 'a udp_net_scheme" where
  "udp_recv i maxlen s =
     (if \<not> udp_sock_valid i s then (None, s)
      else let x = udp_socks s (nat i)
           in if u_rx_qcount x = 0 then (None, s)
              else let d = u_rx_q x (unat (u_rx_qhead x));
                       n = (if d_len d < maxlen then d_len d else maxlen);
                       (out, x) = ring_get x n;
                       x = (if d_len d > n then ring_skip x (d_len d - n) else x)
                   in (Some (out, d_src_ip d, d_src_port d),
                       upd_udp (nat i) (\<lambda>_. x\<lparr>u_rx_qhead := of_nat ((unat (u_rx_qhead x) + 1) mod UDP_RX_QUEUE),
                                              u_rx_qcount := u_rx_qcount x - 1\<rparr>) s))"

end
