(* ===== verification/Tcp_Defs.thy ===== *)
theory Tcp_Defs
  imports Net_Udp
begin

text \<open>
  The TCP state machine of \<^verbatim>\<open>kernel/net/tcp.c\<close>: the socket table, segments and their checksum, the
  retransmit queue, \<open>tcp_rx\<close>, the socket calls, the generation-checked calls and \<open>tcp_tick\<close>.  A
  \<open>TcpSocket *\<close> is an index of \<open>tcp_socks\<close>; a received segment is a pointer and a length, as in
  \<^verbatim>\<open>ip_rx\<close>.  Each call is one function on the state; theory Tcp_System says for which calls the code
  ensures that nothing else runs meanwhile.  The counters \<open>retx_head\<close> and \<open>retx_nseg\<close>, 8 bits wide in the
  code, are natural numbers: they stay at most 8 in every reachable state.
\<close>

section \<open>State\<close>

datatype tcp_state =
    TCP_CLOSED | TCP_SYN_SENT | TCP_SYN_RECEIVED | TCP_ESTABLISHED | TCP_FIN_WAIT_1 | TCP_FIN_WAIT_2
  | TCP_CLOSE_WAIT | TCP_LAST_ACK | TCP_TIME_WAIT | TCP_LISTEN

definition TCP_FIN :: u8 where "TCP_FIN = 1"
definition TCP_SYN :: u8 where "TCP_SYN = 2"
definition TCP_RST :: u8 where "TCP_RST = 4"
definition TCP_PSH :: u8 where "TCP_PSH = 8"
definition TCP_ACK :: u8 where "TCP_ACK = 16"

definition TCP_HDR_LEN :: nat where "TCP_HDR_LEN = 20"
definition TCP_MAX_SOCKETS :: nat where "TCP_MAX_SOCKETS = 8"
definition TCP_RX_BUF_SIZE :: u16 where "TCP_RX_BUF_SIZE = 4096"
definition TCP_MSS :: nat where "TCP_MSS = 1460"
definition TCP_RETX_TICKS_INIT :: u16 where "TCP_RETX_TICKS_INIT = 10"
definition TCP_RETX_BACKOFF_MAX :: u8 where "TCP_RETX_BACKOFF_MAX = 4"
definition TCP_RETX_MAX_TRIES :: u8 where "TCP_RETX_MAX_TRIES = 5"
definition TCP_CONN_TIMEOUT_TICKS :: u16 where "TCP_CONN_TIMEOUT_TICKS = 500"
definition TCP_TIMEWAIT_TICKS :: u16 where "TCP_TIMEWAIT_TICKS = 20"
definition TCP_CLOSEWAIT_TICKS :: u16 where "TCP_CLOSEWAIT_TICKS = 3000"
definition TCP_FINWAIT2_TICKS :: u16 where "TCP_FINWAIT2_TICKS = 12000"
definition TCP_RETX_SLOTS :: nat where "TCP_RETX_SLOTS = 8"

record tcp_retx_seg =
  r_seq :: u32
  r_flags :: u8
  r_data :: "u8 list"

record tcp_sock =
  state :: tcp_state
  local_ip :: u32
  local_port :: u16
  remote_ip :: u32
  remote_port :: u16
  snd_nxt :: u32
  snd_una :: u32
  rcv_nxt :: u32
  snd_wnd :: u16
  rx_buf :: "nat \<Rightarrow> u8"
  rx_head :: u16
  rx_tail :: u16
  retx_q :: "nat \<Rightarrow> tcp_retx_seg"
  retx_head :: nat
  retx_nseg :: nat
  retx_timer :: u16
  retx_count :: u8
  fin_pending :: bool
  accepted :: bool
  conn_timer :: u16
  conn_gen :: u32

record tcp_net = udp_net +
  tcp_socks :: "nat \<Rightarrow> tcp_sock"
  g_isn_counter :: u32
  g_conn_gen_next :: u32
  g_eph_next :: u16

abbreviation sk :: "'a tcp_net_scheme \<Rightarrow> nat \<Rightarrow> tcp_sock" where "sk s i \<equiv> tcp_socks s i"

definition upd_sock :: "nat \<Rightarrow> (tcp_sock \<Rightarrow> tcp_sock) \<Rightarrow> 'a tcp_net_scheme \<Rightarrow> 'a tcp_net_scheme" where
  "upd_sock i f s = s\<lparr>tcp_socks := (tcp_socks s)(i := f (tcp_socks s i))\<rparr>"

text \<open>\<open>net_memset(s, 0, sizeof(*s))\<close>\<close>

definition sock_zero :: tcp_sock where
  "sock_zero = \<lparr>state = TCP_CLOSED, local_ip = 0, local_port = 0, remote_ip = 0, remote_port = 0, snd_nxt = 0,
     snd_una = 0, rcv_nxt = 0, snd_wnd = 0, rx_buf = \<lambda>_. 0, rx_head = 0, rx_tail = 0,
     retx_q = \<lambda>_. \<lparr>r_seq = 0, r_flags = 0, r_data = []\<rparr>, retx_head = 0, retx_nseg = 0, retx_timer = 0,
     retx_count = 0, fin_pending = False, accepted = False, conn_timer = 0, conn_gen = 0\<rparr>"

definition has :: "u8 \<Rightarrow> u8 \<Rightarrow> bool" where "has flags m \<longleftrightarrow> flags AND m \<noteq> 0"

definition seq_gt :: "u32 \<Rightarrow> u32 \<Rightarrow> bool" where "seq_gt a b \<longleftrightarrow> sint (a - b) > 0"

definition next_conn_gen :: "'a tcp_net_scheme \<Rightarrow> u32 \<times> 'a tcp_net_scheme" where
  "next_conn_gen s =
     (let g = g_conn_gen_next s
      in (g, s\<lparr>g_conn_gen_next := if g + 1 = 0 then 1 else g + 1\<rparr>))"

section \<open>Segments\<close>

fun sum16le :: "u8 list \<Rightarrow> u32 \<Rightarrow> u32" where
  "sum16le (a # b # r) acc = sum16le r (acc + (ucast a OR push_bit 8 (ucast b)))"
| "sum16le [a] acc = acc + ucast a"
| "sum16le [] acc = acc"

definition tcp_pseudo :: "u32 \<Rightarrow> u32 \<Rightarrow> nat \<Rightarrow> u8 list" where
  "tcp_pseudo src dst len =
     bytes32 (net_htonl src) @ bytes32 (net_htonl dst) @ [0, IP_PROTO_TCP] @ bytes16 (net_htons (of_nat len))"

definition tcp_checksum :: "u32 \<Rightarrow> u32 \<Rightarrow> u8 list \<Rightarrow> u16" where
  "tcp_checksum src dst seg =
     ucast (NOT (cksum_fold (sum16le seg (sum16le (tcp_pseudo src dst (length seg)) 0))))"

definition tcp_hdr :: "u16 \<Rightarrow> u16 \<Rightarrow> u32 \<Rightarrow> u32 \<Rightarrow> u8 \<Rightarrow> u16 \<Rightarrow> u16 \<Rightarrow> u8 list" where
  "tcp_hdr src_port dst_port sq ack flags window cksum =
     bytes16 (net_htons src_port) @ bytes16 (net_htons dst_port) @ bytes32 (net_htonl sq) @ bytes32 ack @
     [0x50, flags] @ bytes16 window @ bytes16 cksum @ bytes16 0"

definition tcp_segment ::
    "u32 \<Rightarrow> u32 \<Rightarrow> u16 \<Rightarrow> u16 \<Rightarrow> u32 \<Rightarrow> u32 \<Rightarrow> u8 \<Rightarrow> u16 \<Rightarrow> u8 list \<Rightarrow> u8 list" where
  "tcp_segment src dst src_port dst_port sq ack flags window bs =
     (let ck = tcp_checksum src dst (tcp_hdr src_port dst_port sq ack flags window 0 @ bs)
      in tcp_hdr src_port dst_port sq ack flags window ck @ bs)"

definition tcp_emit :: "nat \<Rightarrow> u32 \<Rightarrow> u8 \<Rightarrow> u8 list \<Rightarrow> 'a tcp_net_scheme \<Rightarrow> 'a tcp_net_scheme" where
  "tcp_emit i sq flags bs s =
     (let x = sk s i; bs = take TCP_MSS bs
      in snd (ip_send (remote_ip x) IP_PROTO_TCP
           (tcp_segment (local_ip x) (remote_ip x) (local_port x) (remote_port x) sq
              (if has flags TCP_ACK then net_htonl (rcv_nxt x) else 0) flags
              (net_htons (rbuf_free (rx_head x) (rx_tail x) TCP_RX_BUF_SIZE)) bs) s))"

definition tcp_send_seg :: "nat \<Rightarrow> u8 \<Rightarrow> u8 list \<Rightarrow> 'a tcp_net_scheme \<Rightarrow> 'a tcp_net_scheme" where
  "tcp_send_seg i flags bs s =
     (let bs = take TCP_MSS bs;
          seq_before = snd_nxt (sk s i);
          s = tcp_emit i seq_before flags bs s;
          s = (if has flags (TCP_SYN OR TCP_FIN) then upd_sock i (\<lambda>x. x\<lparr>snd_nxt := snd_nxt x + 1\<rparr>) s else s);
          s = upd_sock i (\<lambda>x. x\<lparr>snd_nxt := snd_nxt x + of_nat (length bs)\<rparr>) s
      in if has flags (TCP_SYN OR TCP_FIN) \<or> bs \<noteq> []
         then upd_sock i (\<lambda>x. x\<lparr>
                retx_q := (retx_q x)((retx_head x + retx_nseg x) mod TCP_RETX_SLOTS :=
                            \<lparr>r_seq = seq_before, r_flags = flags, r_data = bs\<rparr>),
                retx_nseg := retx_nseg x + 1,
                retx_timer := if retx_timer x = 0 then TCP_RETX_TICKS_INIT else retx_timer x\<rparr>) s
         else s)"

definition tcp_send_reset :: "u32 \<Rightarrow> u16 \<Rightarrow> u16 \<Rightarrow> u32 \<Rightarrow> u32 \<Rightarrow> u8 \<Rightarrow> 'a tcp_net_scheme \<Rightarrow> 'a tcp_net_scheme" where
  "tcp_send_reset dst_ip dst_port src_port sq ack flags s =
     snd (ip_send dst_ip IP_PROTO_TCP
       (tcp_segment (g_my_ip s) dst_ip src_port dst_port sq (net_htonl ack) flags 0 []) s)"

definition tcp_retransmit :: "nat \<Rightarrow> 'a tcp_net_scheme \<Rightarrow> 'a tcp_net_scheme" where
  "tcp_retransmit i s =
     (if retx_nseg (sk s i) = 0 then s
      else let r = retx_q (sk s i) (retx_head (sk s i)) in tcp_emit i (r_seq r) (r_flags r) (r_data r) s)"

section \<open>The socket table\<close>

definition find_sock :: "u32 \<Rightarrow> u16 \<Rightarrow> u16 \<Rightarrow> bool \<Rightarrow> 'a tcp_net_scheme \<Rightarrow> nat option" where
  "find_sock src_ip src_port dst_port want_listen s =
     first_index (\<lambda>i. state (sk s i) \<noteq> TCP_CLOSED \<and>
       (if want_listen then state (sk s i) = TCP_LISTEN \<and> local_port (sk s i) = dst_port
        else remote_ip (sk s i) = src_ip \<and> remote_port (sk s i) = src_port \<and> local_port (sk s i) = dst_port))
       TCP_MAX_SOCKETS"

definition alloc_sock :: "'a tcp_net_scheme \<Rightarrow> nat option" where
  "alloc_sock s = first_index (\<lambda>i. state (sk s i) = TCP_CLOSED) TCP_MAX_SOCKETS"

section \<open>Receiving\<close>

definition tcp_rx_data :: "nat \<Rightarrow> u32 \<Rightarrow> u8 list \<Rightarrow> 'a tcp_net_scheme \<Rightarrow> 'a tcp_net_scheme" where
  "tcp_rx_data i sq bs s =
     (let ahead = sint (sq - rcv_nxt (sk s i))
      in if ahead > 0 \<or> (ahead < 0 \<and> nat (- ahead) \<ge> length bs) then tcp_send_seg i TCP_ACK [] s
         else let bs = (if ahead < 0 then drop (nat (- ahead)) bs else bs);
                  (n, buf, t) = rbuf_put (rx_buf (sk s i)) (rx_tail (sk s i)) (rx_head (sk s i)) TCP_RX_BUF_SIZE bs 0
              in tcp_send_seg i TCP_ACK []
                   (upd_sock i (\<lambda>x. x\<lparr>rx_buf := buf, rx_tail := t, rcv_nxt := rcv_nxt x + ucast n\<rparr>) s))"

definition seg_end :: "tcp_retx_seg \<Rightarrow> u32" where
  "seg_end r = r_seq r + of_nat (length (r_data r)) + (if has (r_flags r) TCP_SYN then 1 else 0) +
     (if has (r_flags r) TCP_FIN then 1 else 0)"

function retire :: "u32 \<Rightarrow> tcp_sock \<Rightarrow> tcp_sock" where
  "retire ack x =
     (if retx_nseg x = 0 \<or> seq_gt (seg_end (retx_q x (retx_head x))) ack then x
      else retire ack (x\<lparr>retx_head := (retx_head x + 1) mod TCP_RETX_SLOTS, retx_nseg := retx_nseg x - 1\<rparr>))"
  by pat_completeness auto
termination by (relation "measure (\<lambda>(a, x). retx_nseg x)") auto

declare retire.simps [simp del]

text \<open>The acknowledgement of a segment: \<open>snd_una\<close>, the retransmit queue and timer, and the window.\<close>

definition tcp_rx_ack :: "u32 \<Rightarrow> u16 \<Rightarrow> tcp_sock \<Rightarrow> tcp_sock" where
  "tcp_rx_ack ack_num wnd x =
     (let x = (if seq_gt ack_num (snd_una x) \<and> \<not> seq_gt ack_num (snd_nxt x)
               then let x = retire ack_num (x\<lparr>snd_una := ack_num\<rparr>)
                    in x\<lparr>retx_timer := if snd_una x = snd_nxt x then 0 else TCP_RETX_TICKS_INIT, retx_count := 0\<rparr>
               else x)
      in x\<lparr>snd_wnd := wnd\<rparr>)"

text \<open>A segment for no open connection: a new connection on a listener, or a reset.\<close>

definition tcp_spawn :: "nat \<Rightarrow> u32 \<Rightarrow> u16 \<Rightarrow> u16 \<Rightarrow> u32 \<Rightarrow> 'a tcp_net_scheme \<Rightarrow> 'a tcp_net_scheme" where
  "tcp_spawn ns src_ip src_port dst_port sq s =
     (let (g, s) = next_conn_gen s;
          s = upd_sock ns (\<lambda>_. sock_zero\<lparr>conn_gen := g, state := TCP_SYN_RECEIVED, local_ip := g_my_ip s,
                local_port := dst_port, remote_ip := src_ip, remote_port := src_port, rcv_nxt := sq + 1,
                snd_nxt := g_isn_counter s, snd_una := g_isn_counter s\<rparr>) s;
          s = s\<lparr>g_isn_counter := g_isn_counter s + 0x10000\<rparr>
      in tcp_send_seg ns (TCP_SYN OR TCP_ACK) [] s)"

definition tcp_rx_none ::
    "u32 \<Rightarrow> u32 \<Rightarrow> u16 \<Rightarrow> u16 \<Rightarrow> u32 \<Rightarrow> u32 \<Rightarrow> u8 \<Rightarrow> nat \<Rightarrow> 'a tcp_net_scheme \<Rightarrow> 'a tcp_net_scheme" where
  "tcp_rx_none src_ip dst_ip src_port dst_port sq ack_num flags data_len s =
     (let refuse =
        (if \<not> has flags TCP_RST \<and> dst_ip = g_my_ip s
         then if has flags TCP_ACK then tcp_send_reset src_ip src_port dst_port ack_num 0 TCP_RST s
              else tcp_send_reset src_ip src_port dst_port 0
                     (sq + of_nat data_len + (if has flags (TCP_SYN OR TCP_FIN) then 1 else 0)) (TCP_RST OR TCP_ACK) s
         else s)
      in if has flags TCP_SYN
         then case (find_sock src_ip src_port dst_port True s, alloc_sock s) of
                (Some _, Some ns) \<Rightarrow> tcp_spawn ns src_ip src_port dst_port sq s
              | _ \<Rightarrow> refuse
         else refuse)"

text \<open>The peer's FIN counts once every byte before it is in the ring.\<close>

definition rx_fin :: "tcp_state \<Rightarrow> nat \<Rightarrow> u32 \<Rightarrow> nat \<Rightarrow> u8 \<Rightarrow> 'a tcp_net_scheme \<Rightarrow> 'a tcp_net_scheme" where
  "rx_fin st i sq data_len flags s =
     (if has flags TCP_FIN \<and> sq + of_nat data_len = rcv_nxt (sk s i)
      then tcp_send_seg i TCP_ACK [] (upd_sock i (\<lambda>x. x\<lparr>rcv_nxt := rcv_nxt x + 1, state := st, conn_timer := 0\<rparr>) s)
      else s)"

definition rx_fin_after :: "tcp_state \<Rightarrow> nat \<Rightarrow> u32 \<Rightarrow> nat \<Rightarrow> u8 \<Rightarrow> 'a tcp_net_scheme \<Rightarrow> 'a tcp_net_scheme" where
  "rx_fin_after st i sq data_len flags s =
     (if has flags TCP_FIN \<and> sq + of_nat data_len = rcv_nxt (sk s i)
      then upd_sock i (\<lambda>x. x\<lparr>state := st, conn_timer := 0\<rparr>)
             (tcp_send_seg i TCP_ACK [] (upd_sock i (\<lambda>x. x\<lparr>rcv_nxt := rcv_nxt x + 1\<rparr>) s))
      else s)"

text \<open>The state machine proper, after acknowledgement and RST have been handled.\<close>

definition tcp_rx_state :: "nat \<Rightarrow> u32 \<Rightarrow> u32 \<Rightarrow> u8 \<Rightarrow> u8 list \<Rightarrow> 'a tcp_net_scheme \<Rightarrow> 'a tcp_net_scheme" where
  "tcp_rx_state i sq ack_num flags bs s =
     (let acks_all = (has flags TCP_ACK \<and> ack_num = snd_nxt (sk s i));
          rx = (\<lambda>s. if bs \<noteq> [] then tcp_rx_data i sq bs s else s)
      in case state (sk s i) of
           TCP_SYN_SENT \<Rightarrow>
             if flags AND (TCP_SYN OR TCP_ACK) = TCP_SYN OR TCP_ACK
             then tcp_send_seg i TCP_ACK [] (upd_sock i (\<lambda>x. x\<lparr>rcv_nxt := sq + 1, state := TCP_ESTABLISHED\<rparr>) s)
             else s
         | TCP_SYN_RECEIVED \<Rightarrow>
             if acks_all then upd_sock i (\<lambda>x. x\<lparr>state := TCP_ESTABLISHED\<rparr>) s
             else if has flags TCP_SYN then tcp_retransmit i s else s
         | TCP_ESTABLISHED \<Rightarrow> rx_fin TCP_CLOSE_WAIT i sq (length bs) flags (rx s)
         | TCP_FIN_WAIT_1 \<Rightarrow>
             let s = rx s;
                 s = (if has flags TCP_ACK \<and> ack_num = snd_nxt (sk s i)
                      then upd_sock i (\<lambda>x. x\<lparr>state := TCP_FIN_WAIT_2, conn_timer := 0\<rparr>) s else s)
             in rx_fin_after TCP_TIME_WAIT i sq (length bs) flags s
         | TCP_FIN_WAIT_2 \<Rightarrow>
             let s = (if bs \<noteq> [] then upd_sock i (\<lambda>x. x\<lparr>conn_timer := 0\<rparr>) (rx s) else s)
             in rx_fin_after TCP_TIME_WAIT i sq (length bs) flags s
         | TCP_CLOSE_WAIT \<Rightarrow>
             if bs \<noteq> [] then rx s else if has flags TCP_FIN then tcp_send_seg i TCP_ACK [] s else s
         | TCP_LAST_ACK \<Rightarrow> if acks_all then upd_sock i (\<lambda>x. x\<lparr>state := TCP_CLOSED\<rparr>) s else s
         | TCP_TIME_WAIT \<Rightarrow>
             if has flags TCP_FIN then upd_sock i (\<lambda>x. x\<lparr>conn_timer := 0\<rparr>) (tcp_send_seg i TCP_ACK [] s) else s
         | _ \<Rightarrow> s)"

text \<open>A segment for socket \<open>i\<close>.\<close>

definition tcp_rx_sock :: "nat \<Rightarrow> u32 \<Rightarrow> u32 \<Rightarrow> u8 \<Rightarrow> u16 \<Rightarrow> u8 list \<Rightarrow> 'a tcp_net_scheme \<Rightarrow> 'a tcp_net_scheme" where
  "tcp_rx_sock i sq ack_num flags wnd bs s =
     (let s = (if has flags TCP_ACK then upd_sock i (tcp_rx_ack ack_num wnd) s else s)
      in if has flags TCP_RST then upd_sock i (\<lambda>x. x\<lparr>state := TCP_CLOSED\<rparr>) s
         else tcp_rx_state i sq ack_num flags bs s)"

definition tcp_rx :: "u32 \<Rightarrow> u32 \<Rightarrow> mem \<Rightarrow> u16 \<Rightarrow> 'a tcp_net_scheme \<Rightarrow> 'a tcp_net_scheme" where
  "tcp_rx src_ip dst_ip pkt len s =
     (if unat len < TCP_HDR_LEN then s
      else
        let data_off = unat (drop_bit 4 (fld8 pkt 12)) * 4
        in if data_off < TCP_HDR_LEN \<or> data_off > unat len then s
           else
             let src_port = net_ntohs (fld16 pkt 0);
                 dst_port = net_ntohs (fld16 pkt 2);
                 sq = net_ntohl (fld32 pkt 4);
                 ack_num = net_ntohl (fld32 pkt 8);
                 flags = fld8 pkt 13;
                 data_len = unat len - data_off;
                 bs = slice pkt data_off data_len
             in case find_sock src_ip src_port dst_port False s of
                  None \<Rightarrow> tcp_rx_none src_ip dst_ip src_port dst_port sq ack_num flags data_len s
                | Some i \<Rightarrow>
                    if has flags TCP_SYN \<and> state (sk s i) = TCP_TIME_WAIT
                    then tcp_rx_none src_ip dst_ip src_port dst_port sq ack_num flags data_len
                           (upd_sock i (\<lambda>x. x\<lparr>state := TCP_CLOSED\<rparr>) s)
                    else tcp_rx_sock i sq ack_num flags (net_ntohs (fld16 pkt 14)) bs s)"

section \<open>Socket calls\<close>

definition valid_sock :: "int \<Rightarrow> bool" where "valid_sock i \<longleftrightarrow> i \<ge> 0 \<and> i < int TCP_MAX_SOCKETS"

text \<open>The search for an ephemeral port, with the tries that are left.\<close>

fun pick_port :: "nat \<Rightarrow> 'a tcp_net_scheme \<Rightarrow> u16 \<times> 'a tcp_net_scheme" where
  "pick_port 0 s = (g_eph_next s, s)"
| "pick_port (Suc k) s =
     (let cand = g_eph_next s;
          nxt = cand + 1;
          s = s\<lparr>g_eph_next := if nxt = 0 \<or> nxt < 49152 then 49152 else nxt\<rparr>
      in if first_index (\<lambda>i. state (sk s i) \<noteq> TCP_CLOSED \<and> local_port (sk s i) = cand) TCP_MAX_SOCKETS = None
         then (cand, s) else pick_port k s)"

definition pick_ephemeral_port :: "'a tcp_net_scheme \<Rightarrow> u16 \<times> 'a tcp_net_scheme" where
  "pick_ephemeral_port s = pick_port 16384 s"

definition tcp_connect :: "u32 \<Rightarrow> u16 \<Rightarrow> u16 \<Rightarrow> 'a tcp_net_scheme \<Rightarrow> int \<times> 'a tcp_net_scheme" where
  "tcp_connect dst_ip dst_port lport s =
     (case alloc_sock s of
        None \<Rightarrow> (-1, s)
      | Some i \<Rightarrow>
          let (g, s) = next_conn_gen s;
              s = upd_sock i (\<lambda>_. sock_zero\<lparr>conn_gen := g, state := TCP_SYN_SENT, local_ip := g_my_ip s\<rparr>) s;
              (p, s) = (if lport \<noteq> 0 then (lport, s) else pick_ephemeral_port s);
              s = upd_sock i (\<lambda>x. x\<lparr>local_port := p, remote_ip := dst_ip, remote_port := dst_port, accepted := True,
                    snd_nxt := g_isn_counter s, snd_una := g_isn_counter s\<rparr>) s;
              s = s\<lparr>g_isn_counter := g_isn_counter s + 0x10000\<rparr>
          in (int i, tcp_send_seg i TCP_SYN [] s))"

definition tcp_listen :: "u16 \<Rightarrow> 'a tcp_net_scheme \<Rightarrow> int \<times> 'a tcp_net_scheme" where
  "tcp_listen lport s =
     (if first_index (\<lambda>i. state (sk s i) = TCP_LISTEN \<and> local_port (sk s i) = lport) TCP_MAX_SOCKETS \<noteq> None then (-1, s)
      else case alloc_sock s of
             None \<Rightarrow> (-1, s)
           | Some i \<Rightarrow>
               let (g, s) = next_conn_gen s
               in (int i, upd_sock i (\<lambda>_. sock_zero\<lparr>conn_gen := g, state := TCP_LISTEN, local_ip := g_my_ip s,
                     local_port := lport\<rparr>) s))"

text \<open>\<open>tcp_accept\<close> with the generation it stores through \<open>gen_out\<close>.\<close>

definition tcp_accept :: "int \<Rightarrow> 'a tcp_net_scheme \<Rightarrow> (int \<times> u32) option \<times> 'a tcp_net_scheme" where
  "tcp_accept l s =
     (if \<not> valid_sock l then (None, s)
      else if state (sk s (nat l)) \<noteq> TCP_LISTEN then (None, s)
      else case first_index (\<lambda>i. (state (sk s i) = TCP_ESTABLISHED \<or> state (sk s i) = TCP_CLOSE_WAIT) \<and>
                   \<not> accepted (sk s i) \<and> local_port (sk s i) = local_port (sk s (nat l))) TCP_MAX_SOCKETS of
             None \<Rightarrow> (None, s)
           | Some i \<Rightarrow> (Some (int i, conn_gen (sk s i)), upd_sock i (\<lambda>x. x\<lparr>accepted := True\<rparr>) s))"

definition tcp_send :: "int \<Rightarrow> u8 list \<Rightarrow> 'a tcp_net_scheme \<Rightarrow> nat \<times> 'a tcp_net_scheme" where
  "tcp_send k bs s =
     (if \<not> valid_sock k then (0, s)
      else
        let i = nat k; x = sk s i
        in if state x \<noteq> TCP_ESTABLISHED \<and> state x \<noteq> TCP_CLOSE_WAIT then (0, s)
           else if bs = [] \<or> fin_pending x then (0, s)
           else if retx_nseg x \<ge> TCP_RETX_SLOTS then (0, s)
           else
             let in_flight = snd_nxt x - snd_una x
             in if in_flight \<ge> ucast (snd_wnd x) then (0, s)
                else let avail = unat (ucast (snd_wnd x) - in_flight);
                         len = min (min (length bs) avail) TCP_MSS;
                         s = tcp_send_seg i (TCP_PSH OR TCP_ACK) (take len bs) s;
                         s = (if state (sk s i) = TCP_CLOSE_WAIT then upd_sock i (\<lambda>x. x\<lparr>conn_timer := 0\<rparr>) s else s)
                     in (len, s))"

definition tcp_recv :: "int \<Rightarrow> u16 \<Rightarrow> 'a tcp_net_scheme \<Rightarrow> u8 list \<times> 'a tcp_net_scheme" where
  "tcp_recv k maxlen s =
     (if \<not> valid_sock k then ([], s)
      else
        let i = nat k; x = sk s i;
            free_before = rbuf_free (rx_head x) (rx_tail x) TCP_RX_BUF_SIZE;
            (out, h) = rbuf_get (rx_buf x) (rx_head x) (rx_tail x) TCP_RX_BUF_SIZE (unat maxlen);
            s = upd_sock i (\<lambda>x. x\<lparr>rx_head := h\<rparr>) s;
            s = (if out \<noteq> [] \<and> state (sk s i) = TCP_CLOSE_WAIT then upd_sock i (\<lambda>x. x\<lparr>conn_timer := 0\<rparr>) s else s);
            s = (if out \<noteq> [] \<and> free_before < TCP_RX_BUF_SIZE \<and> state (sk s i) \<noteq> TCP_CLOSED \<and> state (sk s i) \<noteq> TCP_LISTEN
                 then tcp_send_seg i TCP_ACK [] s else s)
        in (out, s))"

text \<open>The FIN that \<open>tcp_close\<close> sends now or \<open>tcp_tick_retx\<close> sends later.\<close>

definition send_fin :: "nat \<Rightarrow> 'a tcp_net_scheme \<Rightarrow> 'a tcp_net_scheme" where
  "send_fin i s =
     tcp_send_seg i (TCP_FIN OR TCP_ACK) []
       (upd_sock i (\<lambda>x. x\<lparr>state := if state x = TCP_CLOSE_WAIT then TCP_LAST_ACK else TCP_FIN_WAIT_1\<rparr>) s)"

definition tcp_close :: "int \<Rightarrow> 'a tcp_net_scheme \<Rightarrow> 'a tcp_net_scheme" where
  "tcp_close k s =
     (if \<not> valid_sock k then s
      else
        let i = nat k; x = sk s i
        in if state x = TCP_ESTABLISHED \<or> state x = TCP_SYN_RECEIVED \<or> state x = TCP_CLOSE_WAIT
           then if snd_una x \<noteq> snd_nxt x then upd_sock i (\<lambda>x. x\<lparr>fin_pending := True\<rparr>) s
                else send_fin i s
           else upd_sock i (\<lambda>x. x\<lparr>state := TCP_CLOSED\<rparr>) s)"

definition tcp_abort :: "int \<Rightarrow> 'a tcp_net_scheme \<Rightarrow> 'a tcp_net_scheme" where
  "tcp_abort k s = (if \<not> valid_sock k then s else upd_sock (nat k) (\<lambda>x. x\<lparr>state := TCP_CLOSED\<rparr>) s)"

definition tcp_state_of :: "int \<Rightarrow> 'a tcp_net_scheme \<Rightarrow> tcp_state" where
  "tcp_state_of k s = (if \<not> valid_sock k then TCP_CLOSED else state (sk s (nat k)))"

section \<open>Generation-checked calls\<close>

definition conn_matches :: "int \<Rightarrow> u32 \<Rightarrow> 'a tcp_net_scheme \<Rightarrow> bool" where
  "conn_matches k gen s \<longleftrightarrow> valid_sock k \<and> state (sk s (nat k)) \<noteq> TCP_CLOSED \<and> conn_gen (sk s (nat k)) = gen"

definition tcp_conn_gen :: "int \<Rightarrow> 'a tcp_net_scheme \<Rightarrow> u32" where
  "tcp_conn_gen k s = (if \<not> valid_sock k then 0 else conn_gen (sk s (nat k)))"

definition tcp_conn_state :: "int \<Rightarrow> u32 \<Rightarrow> 'a tcp_net_scheme \<Rightarrow> tcp_state" where
  "tcp_conn_state k gen s = (if conn_matches k gen s then state (sk s (nat k)) else TCP_CLOSED)"

definition tcp_conn_send :: "int \<Rightarrow> u32 \<Rightarrow> u8 list \<Rightarrow> 'a tcp_net_scheme \<Rightarrow> nat \<times> 'a tcp_net_scheme" where
  "tcp_conn_send k gen bs s = (if conn_matches k gen s then tcp_send k bs s else (0, s))"

definition tcp_conn_recv :: "int \<Rightarrow> u32 \<Rightarrow> u16 \<Rightarrow> 'a tcp_net_scheme \<Rightarrow> u8 list \<times> 'a tcp_net_scheme" where
  "tcp_conn_recv k gen maxlen s = (if conn_matches k gen s then tcp_recv k maxlen s else ([], s))"

definition tcp_conn_close :: "int \<Rightarrow> u32 \<Rightarrow> 'a tcp_net_scheme \<Rightarrow> 'a tcp_net_scheme" where
  "tcp_conn_close k gen s =
     (if conn_matches k gen s \<and> state (sk s (nat k)) \<in> {TCP_SYN_RECEIVED, TCP_ESTABLISHED, TCP_CLOSE_WAIT}
      then tcp_close k s else s)"

definition tcp_conn_abort :: "int \<Rightarrow> u32 \<Rightarrow> 'a tcp_net_scheme \<Rightarrow> 'a tcp_net_scheme" where
  "tcp_conn_abort k gen s =
     (if conn_matches k gen s then upd_sock (nat k) (\<lambda>x. x\<lparr>state := TCP_CLOSED\<rparr>) s else s)"

definition tcp_peer :: "int \<Rightarrow> 'a tcp_net_scheme \<Rightarrow> (u32 \<times> u16) option" where
  "tcp_peer k s = (if \<not> valid_sock k then None else Some (remote_ip (sk s (nat k)), remote_port (sk s (nat k))))"

section \<open>The timer\<close>

definition tcp_tick_retx :: "nat \<Rightarrow> 'a tcp_net_scheme \<Rightarrow> 'a tcp_net_scheme" where
  "tcp_tick_retx i s =
     (let x = sk s i
      in if fin_pending x \<and> snd_una x = snd_nxt x \<and> (state x = TCP_ESTABLISHED \<or> state x = TCP_CLOSE_WAIT)
         then send_fin i (upd_sock i (\<lambda>x. x\<lparr>fin_pending := False\<rparr>) s)
         else if snd_una x = snd_nxt x then upd_sock i (\<lambda>x. x\<lparr>retx_timer := 0, retx_count := 0\<rparr>) s
         else
           let t = (if retx_timer x = 0 then TCP_RETX_TICKS_INIT else retx_timer x) - 1
           in if t > 0 then upd_sock i (\<lambda>x. x\<lparr>retx_timer := t\<rparr>) s
              else let c = retx_count x + 1;
                       s = upd_sock i (\<lambda>x. x\<lparr>retx_timer := t, retx_count := c\<rparr>) s
                   in if c > TCP_RETX_MAX_TRIES
                      then upd_sock i (\<lambda>x. x\<lparr>state := TCP_CLOSED\<rparr>) (tcp_send_seg i TCP_RST [] s)
                      else let shift = (if c < TCP_RETX_BACKOFF_MAX then c else TCP_RETX_BACKOFF_MAX)
                           in upd_sock i (\<lambda>x. x\<lparr>retx_timer := push_bit (unat shift) TCP_RETX_TICKS_INIT\<rparr>)
                                (tcp_retransmit i s))"

definition tcp_tick_sock :: "nat \<Rightarrow> 'a tcp_net_scheme \<Rightarrow> 'a tcp_net_scheme" where
  "tcp_tick_sock i s =
     (case state (sk s i) of
        TCP_TIME_WAIT \<Rightarrow>
          if conn_timer (sk s i) < TCP_TIMEWAIT_TICKS then upd_sock i (\<lambda>x. x\<lparr>conn_timer := conn_timer x + 1\<rparr>) s
          else upd_sock i (\<lambda>x. x\<lparr>state := TCP_CLOSED\<rparr>) s
      | TCP_FIN_WAIT_2 \<Rightarrow>
          let s = upd_sock i (\<lambda>x. x\<lparr>conn_timer := conn_timer x + 1\<rparr>) s
          in if conn_timer (sk s i) \<ge> TCP_FINWAIT2_TICKS then upd_sock i (\<lambda>x. x\<lparr>state := TCP_CLOSED\<rparr>) s else s
      | TCP_CLOSE_WAIT \<Rightarrow>
          let s = upd_sock i (\<lambda>x. x\<lparr>conn_timer := conn_timer x + 1\<rparr>) s;
              s = (if conn_timer (sk s i) \<ge> TCP_CLOSEWAIT_TICKS
                   then tcp_close (int i) (upd_sock i (\<lambda>x. x\<lparr>conn_timer := 0\<rparr>) s) else s)
          in tcp_tick_retx i s
      | TCP_ESTABLISHED \<Rightarrow> tcp_tick_retx i s
      | TCP_FIN_WAIT_1 \<Rightarrow> tcp_tick_retx i s
      | TCP_LAST_ACK \<Rightarrow> tcp_tick_retx i s
      | TCP_CLOSED \<Rightarrow> s
      | TCP_LISTEN \<Rightarrow> s
      | _ \<Rightarrow>
          let s = upd_sock i (\<lambda>x. x\<lparr>conn_timer := conn_timer x + 1\<rparr>) s
          in if conn_timer (sk s i) \<ge> TCP_CONN_TIMEOUT_TICKS then upd_sock i (\<lambda>x. x\<lparr>state := TCP_CLOSED\<rparr>) s
             else tcp_tick_retx i s)"

definition tcp_tick :: "'a tcp_net_scheme \<Rightarrow> 'a tcp_net_scheme" where
  "tcp_tick s = fold tcp_tick_sock [0..<TCP_MAX_SOCKETS] s"

end
