(* ===== verification/Net_Rx.thy ===== *)
theory Net_Rx
  imports Tcp_Defs
begin

text \<open>
  The receive path: \<open>ip_rx\<close> (\<^verbatim>\<open>kernel/net/ip.c\<close>) checks a packet and dispatches it to ICMP, UDP or TCP,
  \<open>eth_rx\<close> (\<^verbatim>\<open>eth.c\<close>) dispatches frames, and the text form of addresses (\<^verbatim>\<open>stack.c\<close>).
\<close>

section \<open>Dispatch\<close>

text \<open>The checksum is computed with its own field set to zero.\<close>

definition ip_rx :: "mem \<Rightarrow> u16 \<Rightarrow> 'a tcp_net_scheme \<Rightarrow> 'a tcp_net_scheme" where
  "ip_rx pkt len s =
     (if unat len < IP_HDR_LEN then s
      else if drop_bit 4 (fld8 pkt 0) \<noteq> 4 then s
      else
        let ihl = (fld8 pkt 0 AND 0x0F) * 4;
            tot_len = net_ntohs (fld16 pkt 2)
        in if tot_len > len \<or> unat ihl < IP_HDR_LEN then s
           else
             let saved = fld16 pkt 10;
                 calc = net_htons (inet_cksum (slice (pkt(10 := 0, 11 := 0)) 0 (unat ihl)))
             in if calc \<noteq> saved then s
                else if net_ntohs (fld16 pkt 6) AND 0x3FFF \<noteq> 0 then s
                else
                  let src_ip = net_ntohl (fld32 pkt 12);
                      payload = (\<lambda>i. pkt (unat ihl + i));
                      plen = tot_len - ucast ihl;
                      proto = fld8 pkt 9
                  in if proto = IP_PROTO_ICMP then icmp_rx src_ip (fld8 pkt 8) payload plen s
                     else if proto = IP_PROTO_UDP then udp_rx src_ip payload plen s
                     else if proto = IP_PROTO_TCP then tcp_rx src_ip (net_ntohl (fld32 pkt 16)) payload plen s
                     else s)"

definition eth_rx :: "mem \<Rightarrow> u16 \<Rightarrow> 'a tcp_net_scheme \<Rightarrow> 'a tcp_net_scheme" where
  "eth_rx frame len s =
     (if unat len < ETH_HDR_LEN then s
      else
        let et = net_ntohs (fld16 frame 12);
            payload = (\<lambda>i. frame (ETH_HDR_LEN + i));
            plen = len - of_nat ETH_HDR_LEN
        in if et = ETHERTYPE_ARP then arp_rx payload plen s
           else if et = ETHERTYPE_IP then ip_rx payload plen s
           else s)"

section \<open>Addresses as text\<close>

fun dec_digits :: "nat \<Rightarrow> nat \<Rightarrow> string" where
  "dec_digits 0 v = []"
| "dec_digits (Suc k) v = (if v = 0 then [] else char_of (48 + v mod 10) # dec_digits k (v div 10))"

text \<open>The digits are produced from the last one and written in reverse.\<close>

definition u8_to_dec :: "u8 \<Rightarrow> string" where
  "u8_to_dec v = (if v = 0 then ''0'' else rev (dec_digits 4 (unat v)))"

definition net_ip_to_str :: "u32 \<Rightarrow> string" where
  "net_ip_to_str ip =
     u8_to_dec (ucast (drop_bit 24 ip)) @ ''.'' @ u8_to_dec (ucast (drop_bit 16 ip)) @ ''.'' @
     u8_to_dec (ucast (drop_bit 8 ip)) @ ''.'' @ u8_to_dec (ucast ip)"

definition is_digit :: "char \<Rightarrow> bool" where
  "is_digit c \<longleftrightarrow> 48 \<le> (of_char c :: nat) \<and> (of_char c :: nat) \<le> 57"

fun read_dec :: "string \<Rightarrow> u32 \<Rightarrow> nat \<Rightarrow> u32 \<times> nat \<times> string" where
  "read_dec (c # cs) v digits =
     (if is_digit c then read_dec cs (v * 10 + of_nat (of_char c - 48)) (digits + 1) else (v, digits, c # cs))"
| "read_dec [] v digits = (v, digits, [])"

fun read_octets :: "nat \<Rightarrow> string \<Rightarrow> u32 \<Rightarrow> u32 option" where
  "read_octets 0 str result = Some result"
| "read_octets (Suc k) str result =
     (if str = [] then None
      else let (v, digits, rest) = read_dec str 0 0
           in if digits = 0 \<or> v > 255 then None
              else let result = push_bit 8 result OR v
                   in if k > 0 then (case rest of c # cs \<Rightarrow> if c \<noteq> CHR ''.'' then None else read_octets k cs result
                                                | [] \<Rightarrow> None)
                      else read_octets k rest result)"

definition net_str_to_ip :: "string \<Rightarrow> u32 option" where
  "net_str_to_ip str = read_octets 4 str 0"

end
