(* ===== verification/Net_Ring.thy ===== *)
theory Net_Ring
  imports Net_Udp
begin

text \<open>
  The byte rings of UDP and TCP as bounded first-in first-out queues: the interface \<open>byte_queue\<close>, its
  consequence for any sequence of stores and loads, and the proof that \<open>rbuf_put\<close> and \<open>rbuf_get\<close>
  implement it for the two buffer sizes.
\<close>

section \<open>The interface\<close>

locale byte_queue =
  fixes cap :: nat
    and ok :: "'q \<Rightarrow> bool"
    and bytes :: "'q \<Rightarrow> u8 list"
    and put :: "u8 list \<Rightarrow> 'q \<Rightarrow> nat \<times> 'q"
    and get :: "nat \<Rightarrow> 'q \<Rightarrow> u8 list \<times> 'q"
    and room :: "'q \<Rightarrow> nat"
  assumes put_law: "ok q \<Longrightarrow> length ds < 2 ^ 16 \<Longrightarrow>
      \<exists>q'. put ds q = (min (length ds) (room q), q') \<and> ok q' \<and> bytes q' = bytes q @ take (room q) ds"
    and get_law: "ok q \<Longrightarrow> \<exists>q'. get n q = (take n (bytes q), q') \<and> ok q' \<and> bytes q' = drop n (bytes q)"
    and room_law: "ok q \<Longrightarrow> room q + length (bytes q) = cap"
begin

text \<open>Any interleaving of stores and loads: the results, and what comes out against what went in.\<close>

fun run :: "(u8 list + nat) list \<Rightarrow> 'q \<Rightarrow> u8 list \<times> u8 list \<times> 'q" where
  "run [] q = ([], [], q)"
| "run (Inl ds # es) q =
     (let (n, q) = put ds q; (i, out, q) = run es q in (take n ds @ i, out, q))"
| "run (Inr n # es) q =
     (let (o1, q) = get n q; (i, out, q) = run es q in (i, o1 @ out, q))"

lemma fifo:
  assumes "ok q" "\<forall>ds. Inl ds \<in> set es \<longrightarrow> length ds < 2 ^ 16" "run es q = (i, out, q')"
  shows "ok q' \<and> out @ bytes q' = bytes q @ i \<and> length (bytes q') \<le> cap"
  using assms
proof (induction es arbitrary: q i out)
  case Nil
  then show ?case using room_law [of q] by auto
next
  case (Cons e es)
  show ?case
  proof (cases e)
    case (Inl ds)
    obtain q1 where p: "put ds q = (min (length ds) (room q), q1)" "ok q1" "bytes q1 = bytes q @ take (room q) ds"
      using put_law [OF Cons.prems(1)] Cons.prems(2) Inl by auto
    obtain i1 o1 q2 where r: "run es q1 = (i1, o1, q2)" by (cases "run es q1") auto
    from Cons.prems(3) have "i = take (room q) ds @ i1" "out = o1" "q' = q2"
      using Inl p(1) r by (auto simp: min_def)
    then show ?thesis using Cons.IH [of q1 i1 o1] r Cons.prems(2) p(2,3) by auto
  next
    case (Inr n)
    obtain q1 where p: "get n q = (take n (bytes q), q1)" "ok q1" "bytes q1 = drop n (bytes q)"
      using get_law [OF Cons.prems(1)] by blast
    obtain i1 o1 q2 where r: "run es q1 = (i1, o1, q2)" by (cases "run es q1") auto
    from Cons.prems(3) have e: "i = i1" "out = take n (bytes q) @ o1" "q' = q2" using Inr p(1) r by auto
    have "o1 @ bytes q2 = drop n (bytes q) @ i1" "ok q2" "length (bytes q2) \<le> cap"
      using Cons.IH [of q1 i1 o1] r e(3) Cons.prems(2) p(2,3) by auto
    then show ?thesis using e by (metis append.assoc append_take_drop_id)
  qed
qed

end

section \<open>The rings\<close>

lemma mod_add_inj:
  fixes a k m n :: nat
  assumes "(a + k) mod n = (a + m) mod n" "k < n" "m < n"
  shows "k = m"
proof -
  have "(int a + int k - int a) mod int n = (int a + int m - int a) mod int n"
    using assms(1) by (intro mod_diff_cong) (simp_all flip: of_nat_add zmod_int)
  then show ?thesis using assms by simp
qed

text \<open>A ring is a buffer, a read index and a write index below the buffer size.\<close>

type_synonym ring = "(nat \<Rightarrow> u8) \<times> u16 \<times> u16"

definition ring_ok :: "u16 \<Rightarrow> ring \<Rightarrow> bool" where
  "ring_ok sz = (\<lambda>(buf, h, t). 1 < sz \<and> h < sz \<and> t < sz)"

definition ring_len :: "u16 \<Rightarrow> u16 \<Rightarrow> u16 \<Rightarrow> nat" where
  "ring_len sz h t = (unat t + unat sz - unat h) mod unat sz"

definition ring_bytes :: "u16 \<Rightarrow> ring \<Rightarrow> u8 list" where
  "ring_bytes sz = (\<lambda>(buf, h, t). map (\<lambda>k. buf ((unat h + k) mod unat sz)) [0..<ring_len sz h t])"

definition ring_room :: "u16 \<Rightarrow> ring \<Rightarrow> nat" where
  "ring_room sz = (\<lambda>(buf, h, t). unat (rbuf_free h t sz))"

definition put_ring :: "u16 \<Rightarrow> u8 list \<Rightarrow> ring \<Rightarrow> nat \<times> ring" where
  "put_ring sz ds = (\<lambda>(buf, h, t). let (n, buf, t) = rbuf_put buf t h sz ds 0 in (unat n, (buf, h, t)))"

definition get_ring :: "u16 \<Rightarrow> nat \<Rightarrow> ring \<Rightarrow> u8 list \<times> ring" where
  "get_ring sz n = (\<lambda>(buf, h, t). let (out, h) = rbuf_get buf h t sz n in (out, (buf, h, t)))"

lemma ring_next_nat:
  assumes "1 < sz" "i < sz"
  shows "unat (ring_next i sz) = (unat i + 1) mod unat sz" "ring_next i sz < sz"
proof -
  have p: "0 < unat sz" using assms by (simp add: word_less_nat_alt)
  have "(unat i + 1) mod unat sz < 2 ^ 16"
    using mod_less_divisor [OF p, of "unat i + 1"] unsigned_less [of sz, where 'a = nat] by simp
  then show "unat (ring_next i sz) = (unat i + 1) mod unat sz"
    by (simp add: ring_next_def unat_of_nat take_bit_nat_eq_self)
  then show "ring_next i sz < sz" using p by (simp add: word_less_nat_alt)
qed

lemma ring_len_bounds:
  assumes "h < sz" "t < sz"
  shows "ring_len sz h t < unat sz" "ring_len sz h t = 0 \<longleftrightarrow> h = t"
    "ring_len sz h t = (if unat h \<le> unat t then unat t - unat h else unat t + unat sz - unat h)"
proof -
  have b: "unat h < unat sz" "unat t < unat sz" using assms by (simp_all add: word_less_nat_alt)
  show l: "ring_len sz h t = (if unat h \<le> unat t then unat t - unat h else unat t + unat sz - unat h)"
  proof (cases "unat h \<le> unat t")
    case True
    then have e: "unat t + unat sz - unat h = (unat t - unat h) + unat sz" by simp
    have "unat t - unat h < unat sz" using b by simp
    then have "(unat t + unat sz - unat h) mod unat sz = unat t - unat h" unfolding e mod_add_self2 by (rule mod_less)
    then show ?thesis using True by (simp add: ring_len_def)
  qed (use b in \<open>simp add: ring_len_def\<close>)
  show "ring_len sz h t < unat sz" unfolding l using b by (simp, linarith)
  show "ring_len sz h t = 0 \<longleftrightarrow> h = t" unfolding l using b by (auto simp: word_unat_eq_iff)
qed

lemma ring_next_len:
  assumes "1 < sz" "h < sz" "t < sz"
  shows "ring_next t sz = h \<longleftrightarrow> ring_len sz h t = unat sz - 1"
    and "ring_next t sz \<noteq> h \<Longrightarrow> ring_len sz h (ring_next t sz) = ring_len sz h t + 1"
    and "h \<noteq> t \<Longrightarrow> ring_len sz (ring_next h sz) t = ring_len sz h t - 1"
proof -
  have b: "unat h < unat sz" "unat t < unat sz" "1 < unat sz" using assms by (simp_all add: word_less_nat_alt)
  have n: "unat (ring_next i sz) = (if unat i + 1 = unat sz then 0 else unat i + 1)" if "i < sz" for i
    using ring_next_nat(1) [OF assms(1) that] that by (auto simp: word_less_nat_alt)
  note l = ring_len_bounds(3)
  show "ring_next t sz = h \<longleftrightarrow> ring_len sz h t = unat sz - 1"
    unfolding l [OF assms(2,3)] word_unat_eq_iff n [OF assms(3)] using b by auto
  show "ring_len sz h (ring_next t sz) = ring_len sz h t + 1" if "ring_next t sz \<noteq> h"
    using that b unfolding l [OF assms(2,3)] l [OF assms(2) ring_next_nat(2) [OF assms(1,3)]] word_unat_eq_iff n [OF assms(3)]
    by (auto split: if_splits)
  show "ring_len sz (ring_next h sz) t = ring_len sz h t - 1" if "h \<noteq> t"
    using that b unfolding l [OF assms(2,3)] l [OF ring_next_nat(2) [OF assms(1,2)] assms(3)] word_unat_eq_iff n [OF assms(2)]
    by (auto split: if_splits)
qed

lemma rbuf_used_len:
  assumes "h < sz" "t < sz"
  shows "unat (rbuf_used h t sz) = ring_len sz h t" "unat (rbuf_free h t sz) = unat sz - 1 - ring_len sz h t"
proof -
  have b: "unat h < unat sz" "unat t < unat sz" using assms by (simp_all add: word_less_nat_alt)
  have "uint t - uint h + uint sz = int (unat t + unat sz - unat h)" using b by (simp add: of_nat_diff)
  then have "(uint t - uint h + uint sz) smod uint sz = int (unat t + unat sz - unat h) mod int (unat sz)"
    using b by (simp add: signed_modulo_int_def sgn_if del: of_nat_diff)
  then have "(uint t - uint h + uint sz) smod uint sz = int (ring_len sz h t)"
    unfolding ring_len_def zmod_int .
  moreover have l: "ring_len sz h t < 2 ^ 16" "ring_len sz h t < unat sz"
    using ring_len_bounds(1) [OF assms] unsigned_less [of sz, where 'a = nat] by simp_all
  ultimately show u: "unat (rbuf_used h t sz) = ring_len sz h t"
    unfolding rbuf_used_def by (simp add: unat_of_nat take_bit_nat_eq_self)
  have "uint (rbuf_used h t sz) = int (ring_len sz h t)" using u by (metis uint_nat)
  then have "uint sz - 1 - uint (rbuf_used h t sz) = int (unat sz - 1 - ring_len sz h t)"
    using l by (simp add: of_nat_diff)
  moreover have "unat sz - 1 - ring_len sz h t < 2 ^ 16" using unsigned_less [of sz, where 'a = nat] by simp
  ultimately show "unat (rbuf_free h t sz) = unat sz - 1 - ring_len sz h t"
    unfolding rbuf_free_def by (simp add: unat_of_nat take_bit_nat_eq_self del: of_nat_diff)
qed

lemma ring_bytes_length [simp]: "length (ring_bytes sz (buf, h, t)) = ring_len sz h t"
  by (simp add: ring_bytes_def)

lemma ring_bytes_put:
  assumes "1 < sz" "h < sz" "t < sz" "ring_next t sz \<noteq> h"
  shows "ring_bytes sz (buf(unat t := d), h, ring_next t sz) = ring_bytes sz (buf, h, t) @ [d]"
proof -
  have b: "unat h < unat sz" "unat t < unat sz" using assms by (simp_all add: word_less_nat_alt)
  note l = ring_len_bounds(3) [OF assms(2,3)]
  have n: "ring_len sz h (ring_next t sz) = ring_len sz h t + 1" by (rule ring_next_len(2) [OF assms(1-4)])
  have e: "(unat h + ring_len sz h t) mod unat sz = unat t" unfolding l using b by auto
  have ne: "(unat h + k) mod unat sz \<noteq> unat t" if "k < ring_len sz h t" for k
  proof (cases "unat h + k < unat sz")
    case True
    then show ?thesis using that b unfolding l by (auto split: if_splits)
  next
    case False
    then have "(unat h + k) mod unat sz = unat h + k - unat sz"
      using that b unfolding l by (subst le_mod_geq) (auto split: if_splits)
    then show ?thesis using that b False unfolding l by (auto split: if_splits)
  qed
  show ?thesis unfolding ring_bytes_def case_prod_conv n using e ne by simp
qed

lemma ring_bytes_get:
  assumes "1 < sz" "h < sz" "t < sz" "h \<noteq> t"
  shows "ring_bytes sz (buf, h, t) = buf (unat h) # ring_bytes sz (buf, ring_next h sz, t)"
proof -
  have p: "0 < ring_len sz h t" using ring_len_bounds(2) [OF assms(2,3)] assms(4) by simp
  have b: "unat h < unat sz" using assms by (simp add: word_less_nat_alt)
  have "ring_bytes sz (buf, h, t) ! k = (buf (unat h) # ring_bytes sz (buf, ring_next h sz, t)) ! k"
    if "k < ring_len sz h t" for k
  proof (cases k)
    case 0
    then show ?thesis using p b by (simp add: ring_bytes_def)
  next
    case (Suc j)
    have "((unat h + 1) mod unat sz + j) mod unat sz = (unat h + k) mod unat sz"
      unfolding Suc by (simp add: mod_add_left_eq)
    moreover have "j < ring_len sz (ring_next h sz) t" using that Suc ring_next_len(3) [OF assms] by simp
    ultimately show ?thesis using that Suc ring_next_nat(1) [OF assms(1,2)] by (simp add: ring_bytes_def)
  qed
  then show ?thesis using p ring_next_len(3) [OF assms] by (intro nth_equalityI) simp_all
qed

lemma rbuf_put_spec:
  assumes "1 < sz" "h < sz" "t < sz" "unat n + length ds < 2 ^ 16"
  shows "\<exists>buf' t'. rbuf_put buf t h sz ds n = (n + of_nat (min (length ds) (unat sz - 1 - ring_len sz h t)), buf', t') \<and>
     t' < sz \<and> ring_bytes sz (buf', h, t') = ring_bytes sz (buf, h, t) @ take (unat sz - 1 - ring_len sz h t) ds"
  using assms
proof (induction ds arbitrary: buf t n)
  case (Cons d ds)
  show ?case
  proof (cases "ring_next t sz = h")
    case True
    then have "unat sz - 1 - ring_len sz h t = 0" using ring_next_len(1) [OF Cons.prems(1-3)] by simp
    then show ?thesis using True Cons.prems by simp
  next
    case False
    define r where "r = unat sz - 1 - ring_len sz h (ring_next t sz)"
    have r: "unat sz - 1 - ring_len sz h t = Suc r"
      using ring_next_len(2) [OF Cons.prems(1-3) False] ring_len_bounds(1) [OF Cons.prems(2,3)]
        ring_next_len(1) [OF Cons.prems(1-3)] False unfolding r_def by linarith
    have n: "unat (n + 1) + length ds < 2 ^ 16" using Cons.prems(4) by (simp add: unat_word_ariths) 
    obtain buf' t' where *: "rbuf_put (buf(unat t := d)) (ring_next t sz) h sz ds (n + 1) =
        (n + 1 + of_nat (min (length ds) r), buf', t')" "t' < sz"
      "ring_bytes sz (buf', h, t') = ring_bytes sz (buf(unat t := d), h, ring_next t sz) @ take r ds"
      using Cons.IH [OF Cons.prems(1,2) ring_next_nat(2) [OF Cons.prems(1,3)] n] unfolding r_def by blast
    show ?thesis unfolding r using False * ring_bytes_put [OF Cons.prems(1-3) False] by (simp add: add.assoc)
  qed
qed auto

lemma rbuf_get_spec:
  assumes "1 < sz" "h < sz" "t < sz"
  shows "\<exists>h'. rbuf_get buf h t sz n = (take n (ring_bytes sz (buf, h, t)), h') \<and> h' < sz \<and>
     ring_bytes sz (buf, h', t) = drop n (ring_bytes sz (buf, h, t))"
  using assms
proof (induction n arbitrary: h)
  case (Suc n)
  show ?case
  proof (cases "h = t")
    case True
    then have "ring_bytes sz (buf, h, t) = []" using ring_len_bounds(2) [OF Suc.prems(2,3)] by (simp add: ring_bytes_def)
    then show ?thesis using True Suc.prems by simp
  next
    case False
    show ?thesis
      using Suc.IH [OF Suc.prems(1) ring_next_nat(2) [OF Suc.prems(1,2)] Suc.prems(3)] False
      unfolding ring_bytes_get [OF Suc.prems False] by auto
  qed
qed auto

lemma ring_queue:
  assumes "1 < sz"
  shows "byte_queue (unat sz - 1) (ring_ok sz) (ring_bytes sz) (put_ring sz) (get_ring sz) (ring_room sz)"
proof
  fix q :: ring and ds :: "u8 list" and n
  obtain buf h t where q: "q = (buf, h, t)" by (cases q) auto
  assume "ring_ok sz q"
  then have o: "1 < sz" "h < sz" "t < sz" by (simp_all add: ring_ok_def q)
  show "ring_room sz q + length (ring_bytes sz q) = unat sz - 1"
    using ring_len_bounds(1) [OF o(2,3)] unfolding q by (simp add: ring_room_def rbuf_used_len [OF o(2,3)])
  show "\<exists>q'. get_ring sz n q = (take n (ring_bytes sz q), q') \<and> ring_ok sz q' \<and> ring_bytes sz q' = drop n (ring_bytes sz q)"
    using rbuf_get_spec [OF o, of buf n] o unfolding q by (auto simp: get_ring_def ring_ok_def)
  assume l: "length ds < 2 ^ 16"
  have u: "unat (of_nat (min (length ds) r) :: u16) = min (length ds) r" for r
    using l by (simp add: unat_of_nat take_bit_nat_eq_self)
  show "\<exists>q'. put_ring sz ds q = (min (length ds) (ring_room sz q), q') \<and> ring_ok sz q' \<and>
      ring_bytes sz q' = ring_bytes sz q @ take (ring_room sz q) ds"
    using rbuf_put_spec [OF o, of 0 ds buf] l o u unfolding q
    by (auto simp: put_ring_def ring_ok_def ring_room_def rbuf_used_len [OF o(2,3)])
qed

interpretation tcp_ring: byte_queue 4095 "ring_ok 4096" "ring_bytes 4096" "put_ring 4096" "get_ring 4096" "ring_room 4096"
  using ring_queue [of 4096] by simp

interpretation udp_ring: byte_queue 2047 "ring_ok 2048" "ring_bytes 2048" "put_ring 2048" "get_ring 2048" "ring_room 2048"
  using ring_queue [of 2048] by simp

end
