(* ===== verification/Tcp_Sock.thy ===== *)
theory Tcp_Sock
  imports Net_Rx Net_Ring
begin

text \<open>
  What the TCP operations do to the socket table.  The layers below TCP leave it alone, and sending a
  segment is a function of the one socket (\<open>seg_sent\<close>), so that every operation is an update of the
  table at one index.
\<close>

section \<open>The layers below\<close>

named_theorems net_more

lemma netdev_send_more [net_more]: "net.more (snd (netdev_send bs s)) = net.more s"
  by (simp add: netdev_send_def Let_def split: option.split)

lemma upd_cache_more [net_more]: "net.more (upd_cache i f s) = net.more s"
  by (simp add: upd_cache_def)

lemma arp_lookup_more [net_more]: "net.more (snd (arp_lookup ip s)) = net.more s"
  by (simp add: arp_lookup_def net_more split: option.split)

lemma arp_request_more [net_more]: "net.more (arp_request t s) = net.more s"
  by (simp add: arp_request_def arp_send_def net_more Let_def)

lemma arp_pend_enqueue_more [net_more]: "net.more (arp_pend_enqueue n f s) = net.more s"
  by (simp add: arp_pend_enqueue_def split: option.split)

lemma throttle_scan_more: "net.more (throttle_scan n is k s) = net.more s"
  by (induction n "is" k s rule: throttle_scan.induct) (auto simp: net_more)

lemma throttled_more [net_more]: "net.more (arp_request_throttled n s) = net.more s"
  by (simp add: arp_request_throttled_def throttle_scan_more)

lemma ip_send_more [net_more]: "net.more (snd (ip_send d p pl s)) = net.more s"
proof -
  have l: "net.more s2 = net.more s1" if "arp_lookup n s1 = (m, s2)" for n m and s1 s2 :: "'a net_scheme"
    using arp_lookup_more [of n s1] that by simp
  show ?thesis
    by (auto simp: ip_send_def net_more Let_def split: option.split prod.split dest!: l)
qed

lemma tcp_of_more:
  fixes s s' :: "'a tcp_net_scheme"
  assumes "net.more s' = net.more s"
  shows "tcp_socks s' = tcp_socks s" "g_isn_counter s' = g_isn_counter s" "g_conn_gen_next s' = g_conn_gen_next s"
    "g_eph_next s' = g_eph_next s" "tcp_net.more s' = tcp_net.more s" "udp_socks s' = udp_socks s"
  using assms by (cases s; cases s'; simp)+

lemmas ip_send_tcp [simp] = tcp_of_more [OF ip_send_more]

section \<open>Updates of the table\<close>

lemma upd_sock_tcp [simp]:
  "tcp_socks (upd_sock i f s) = (tcp_socks s)(i := f (tcp_socks s i))"
  "g_isn_counter (upd_sock i f s) = g_isn_counter s" "g_conn_gen_next (upd_sock i f s) = g_conn_gen_next s"
  "g_eph_next (upd_sock i f s) = g_eph_next s" "g_my_ip (upd_sock i f s) = g_my_ip s"
  by (simp_all add: upd_sock_def)

definition seg_sent :: "u8 \<Rightarrow> u8 list \<Rightarrow> tcp_sock \<Rightarrow> tcp_sock" where
  "seg_sent flags bs x =
     (if has flags (TCP_SYN OR TCP_FIN) \<or> take TCP_MSS bs \<noteq> []
      then x\<lparr>snd_nxt := snd_nxt x + (if has flags (TCP_SYN OR TCP_FIN) then 1 else 0) + of_nat (length (take TCP_MSS bs)),
             retx_q := (retx_q x)((retx_head x + retx_nseg x) mod TCP_RETX_SLOTS :=
                         \<lparr>r_seq = snd_nxt x, r_flags = flags, r_data = take TCP_MSS bs\<rparr>),
             retx_nseg := retx_nseg x + 1,
             retx_timer := if retx_timer x = 0 then TCP_RETX_TICKS_INIT else retx_timer x\<rparr>
      else x)"

lemma tcp_emit_tcp [simp]:
  "tcp_socks (tcp_emit i sq flags bs s) = tcp_socks s" "g_isn_counter (tcp_emit i sq flags bs s) = g_isn_counter s"
  "g_conn_gen_next (tcp_emit i sq flags bs s) = g_conn_gen_next s" "g_eph_next (tcp_emit i sq flags bs s) = g_eph_next s"
  by (simp_all add: tcp_emit_def Let_def)

lemma tcp_send_seg_tcp [simp]:
  "tcp_socks (tcp_send_seg i flags bs s) = (tcp_socks s)(i := seg_sent flags bs (tcp_socks s i))"
  "g_isn_counter (tcp_send_seg i flags bs s) = g_isn_counter s"
  "g_conn_gen_next (tcp_send_seg i flags bs s) = g_conn_gen_next s"
  "g_eph_next (tcp_send_seg i flags bs s) = g_eph_next s"
  by (simp_all add: tcp_send_seg_def seg_sent_def Let_def)

lemma tcp_retransmit_tcp [simp]:
  "tcp_socks (tcp_retransmit i s) = tcp_socks s" "g_isn_counter (tcp_retransmit i s) = g_isn_counter s"
  "g_conn_gen_next (tcp_retransmit i s) = g_conn_gen_next s" "g_eph_next (tcp_retransmit i s) = g_eph_next s"
  by (simp_all add: tcp_retransmit_def Let_def)

lemma tcp_send_reset_tcp [simp]:
  "tcp_socks (tcp_send_reset a b c d e f s) = tcp_socks s" "g_isn_counter (tcp_send_reset a b c d e f s) = g_isn_counter s"
  "g_conn_gen_next (tcp_send_reset a b c d e f s) = g_conn_gen_next s"
  "g_eph_next (tcp_send_reset a b c d e f s) = g_eph_next s"
  by (simp_all add: tcp_send_reset_def)

lemma seg_sent_sel [simp]:
  "state (seg_sent f bs x) = state x" "local_port (seg_sent f bs x) = local_port x"
  "remote_ip (seg_sent f bs x) = remote_ip x" "remote_port (seg_sent f bs x) = remote_port x"
  "rcv_nxt (seg_sent f bs x) = rcv_nxt x" "rx_buf (seg_sent f bs x) = rx_buf x" "rx_head (seg_sent f bs x) = rx_head x"
  "rx_tail (seg_sent f bs x) = rx_tail x" "conn_gen (seg_sent f bs x) = conn_gen x"
  "conn_timer (seg_sent f bs x) = conn_timer x" "fin_pending (seg_sent f bs x) = fin_pending x"
  "accepted (seg_sent f bs x) = accepted x" "snd_una (seg_sent f bs x) = snd_una x" "retx_count (seg_sent f bs x) = retx_count x"
  by (simp_all add: seg_sent_def)

lemma has_flags [simp]:
  "\<not> has TCP_ACK (TCP_SYN OR TCP_FIN)" "\<not> has TCP_RST (TCP_SYN OR TCP_FIN)" "has TCP_SYN (TCP_SYN OR TCP_FIN)"
  "has (TCP_SYN OR TCP_ACK) (TCP_SYN OR TCP_FIN)" "has (TCP_FIN OR TCP_ACK) (TCP_SYN OR TCP_FIN)"
  "\<not> has (TCP_PSH OR TCP_ACK) (TCP_SYN OR TCP_FIN)" "has TCP_SYN TCP_SYN" "\<not> has TCP_SYN TCP_FIN"
  "has (TCP_SYN OR TCP_ACK) TCP_SYN" "\<not> has (TCP_SYN OR TCP_ACK) TCP_FIN"
  "\<not> has (TCP_FIN OR TCP_ACK) TCP_SYN" "has (TCP_FIN OR TCP_ACK) TCP_FIN"
  "\<not> has (TCP_PSH OR TCP_ACK) TCP_SYN" "\<not> has (TCP_PSH OR TCP_ACK) TCP_FIN"
  by (simp_all add: has_def TCP_ACK_def TCP_RST_def TCP_SYN_def TCP_FIN_def TCP_PSH_def)

text \<open>A bare acknowledgement or reset changes nothing in the socket.\<close>

lemma seg_sent_ack [simp]: "seg_sent TCP_ACK [] x = x" "seg_sent TCP_RST [] x = x"
  by (simp_all add: seg_sent_def)


section \<open>The receiver on one socket\<close>

definition data_in :: "u32 \<Rightarrow> u8 list \<Rightarrow> tcp_sock \<Rightarrow> tcp_sock" where
  "data_in sq bs x =
     (let ahead = sint (sq - rcv_nxt x)
      in if ahead > 0 \<or> (ahead < 0 \<and> nat (- ahead) \<ge> length bs) then x
         else let (n, buf, t) = rbuf_put (rx_buf x) (rx_tail x) (rx_head x) TCP_RX_BUF_SIZE
                    (if ahead < 0 then drop (nat (- ahead)) bs else bs) 0
              in x\<lparr>rx_buf := buf, rx_tail := t, rcv_nxt := rcv_nxt x + ucast n\<rparr>)"

definition fin_in :: "tcp_state \<Rightarrow> u32 \<Rightarrow> nat \<Rightarrow> u8 \<Rightarrow> tcp_sock \<Rightarrow> tcp_sock" where
  "fin_in st sq n flags x =
     (if has flags TCP_FIN \<and> sq + of_nat n = rcv_nxt x
      then x\<lparr>rcv_nxt := rcv_nxt x + 1, state := st, conn_timer := 0\<rparr> else x)"

definition fw1_acked :: "u32 \<Rightarrow> u8 \<Rightarrow> tcp_sock \<Rightarrow> tcp_sock" where
  "fw1_acked ack flags x =
     (if has flags TCP_ACK \<and> ack = snd_nxt x then x\<lparr>state := TCP_FIN_WAIT_2, conn_timer := 0\<rparr> else x)"

definition data_opt :: "u32 \<Rightarrow> u8 list \<Rightarrow> tcp_sock \<Rightarrow> tcp_sock" where
  "data_opt sq bs x = (if bs \<noteq> [] then data_in sq bs x else x)"

definition state_in :: "u32 \<Rightarrow> u32 \<Rightarrow> u8 \<Rightarrow> u8 list \<Rightarrow> tcp_sock \<Rightarrow> tcp_sock" where
  "state_in sq ack flags bs x =
     (case state x of
        TCP_SYN_SENT \<Rightarrow>
          if flags AND (TCP_SYN OR TCP_ACK) = TCP_SYN OR TCP_ACK then x\<lparr>rcv_nxt := sq + 1, state := TCP_ESTABLISHED\<rparr> else x
      | TCP_SYN_RECEIVED \<Rightarrow>
          if has flags TCP_ACK \<and> ack = snd_nxt x then x\<lparr>state := TCP_ESTABLISHED\<rparr> else x
      | TCP_ESTABLISHED \<Rightarrow> fin_in TCP_CLOSE_WAIT sq (length bs) flags (data_opt sq bs x)
      | TCP_FIN_WAIT_1 \<Rightarrow> fin_in TCP_TIME_WAIT sq (length bs) flags (fw1_acked ack flags (data_opt sq bs x))
      | TCP_FIN_WAIT_2 \<Rightarrow> fin_in TCP_TIME_WAIT sq (length bs) flags
          (if bs \<noteq> [] then (data_in sq bs x)\<lparr>conn_timer := 0\<rparr> else x)
      | TCP_CLOSE_WAIT \<Rightarrow> data_opt sq bs x
      | TCP_LAST_ACK \<Rightarrow> if has flags TCP_ACK \<and> ack = snd_nxt x then x\<lparr>state := TCP_CLOSED\<rparr> else x
      | TCP_TIME_WAIT \<Rightarrow> if has flags TCP_FIN then x\<lparr>conn_timer := 0\<rparr> else x
      | _ \<Rightarrow> x)"

definition sock_in :: "u32 \<Rightarrow> u32 \<Rightarrow> u8 \<Rightarrow> u16 \<Rightarrow> u8 list \<Rightarrow> tcp_sock \<Rightarrow> tcp_sock" where
  "sock_in sq ack flags wnd bs x =
     (let x = (if has flags TCP_ACK then tcp_rx_ack ack wnd x else x)
      in if has flags TCP_RST then x\<lparr>state := TCP_CLOSED\<rparr> else state_in sq ack flags bs x)"

text \<open>Operations that touch one socket and no counter.\<close>

definition sock_upd :: "nat \<Rightarrow> tcp_sock \<Rightarrow> 'a tcp_net_scheme \<Rightarrow> 'a tcp_net_scheme \<Rightarrow> bool" where
  "sock_upd i x s s' \<longleftrightarrow> tcp_socks s' = (tcp_socks s)(i := x) \<and> g_isn_counter s' = g_isn_counter s \<and>
     g_conn_gen_next s' = g_conn_gen_next s \<and> g_eph_next s' = g_eph_next s"

lemma sock_upd_refl: "sock_upd i (tcp_socks s i) s s"
  by (simp add: sock_upd_def)

lemma rx_data_upd: "sock_upd i (data_in sq bs (sk s i)) s (tcp_rx_data i sq bs s)"
  by (auto simp: sock_upd_def tcp_rx_data_def data_in_def Let_def split_beta)

lemma rx_fin_upd: "sock_upd i (fin_in st sq n flags (sk s i)) s (rx_fin st i sq n flags s)"
  by (auto simp: sock_upd_def rx_fin_def fin_in_def)

lemma rx_fin_after_upd: "sock_upd i (fin_in st sq n flags (sk s i)) s (rx_fin_after st i sq n flags s)"
  by (auto simp: sock_upd_def rx_fin_after_def fin_in_def)

lemma sock_upd_trans:
  assumes "sock_upd i x s s1" "sock_upd i y s1 s2"
  shows "sock_upd i y s s2"
  using assms by (simp add: sock_upd_def)

lemma sock_upd_at: "sock_upd i x s s' \<Longrightarrow> sk s' i = x"
  by (simp add: sock_upd_def)

lemma upd_sock_upd: "sock_upd i (f (sk s i)) s (upd_sock i f s)"
  by (simp add: sock_upd_def)

lemma rx_state_upd: "sock_upd i (state_in sq ack flags bs (sk s i)) s (tcp_rx_state i sq ack flags bs s)"
proof -
  define r where "r = (if bs \<noteq> [] then tcp_rx_data i sq bs s else s)"
  have r: "sock_upd i (data_opt sq bs (sk s i)) s r" by (simp add: r_def data_opt_def rx_data_upd sock_upd_refl)
  define w where "w = (if has flags TCP_ACK \<and> ack = snd_nxt (sk r i)
      then upd_sock i (\<lambda>x. x\<lparr>state := TCP_FIN_WAIT_2, conn_timer := 0\<rparr>) r else r)"
  have "sock_upd i (fw1_acked ack flags (sk r i)) r w" by (simp add: w_def fw1_acked_def sock_upd_def)
  then have w: "sock_upd i (fw1_acked ack flags (data_opt sq bs (sk s i))) s w"
    using sock_upd_trans [OF r] sock_upd_at [OF r] by simp
  define v where "v = (if bs \<noteq> [] then upd_sock i (\<lambda>x. x\<lparr>conn_timer := 0\<rparr>) r else s)"
  have v: "sock_upd i (if bs \<noteq> [] then (data_in sq bs (sk s i))\<lparr>conn_timer := 0\<rparr> else sk s i) s v"
    using r by (auto simp: v_def data_opt_def sock_upd_def)
  have rs: "tcp_rx_state i sq ack flags bs s =
     (case state (sk s i) of
        TCP_SYN_SENT \<Rightarrow>
          if flags AND (TCP_SYN OR TCP_ACK) = TCP_SYN OR TCP_ACK
          then tcp_send_seg i TCP_ACK [] (upd_sock i (\<lambda>x. x\<lparr>rcv_nxt := sq + 1, state := TCP_ESTABLISHED\<rparr>) s) else s
      | TCP_SYN_RECEIVED \<Rightarrow>
          if has flags TCP_ACK \<and> ack = snd_nxt (sk s i) then upd_sock i (\<lambda>x. x\<lparr>state := TCP_ESTABLISHED\<rparr>) s
          else if has flags TCP_SYN then tcp_retransmit i s else s
      | TCP_ESTABLISHED \<Rightarrow> rx_fin TCP_CLOSE_WAIT i sq (length bs) flags r
      | TCP_FIN_WAIT_1 \<Rightarrow> rx_fin_after TCP_TIME_WAIT i sq (length bs) flags w
      | TCP_FIN_WAIT_2 \<Rightarrow> rx_fin_after TCP_TIME_WAIT i sq (length bs) flags v
      | TCP_CLOSE_WAIT \<Rightarrow> if bs \<noteq> [] then r else if has flags TCP_FIN then tcp_send_seg i TCP_ACK [] s else s
      | TCP_LAST_ACK \<Rightarrow> if has flags TCP_ACK \<and> ack = snd_nxt (sk s i) then upd_sock i (\<lambda>x. x\<lparr>state := TCP_CLOSED\<rparr>) s else s
      | TCP_TIME_WAIT \<Rightarrow>
          if has flags TCP_FIN then upd_sock i (\<lambda>x. x\<lparr>conn_timer := 0\<rparr>) (tcp_send_seg i TCP_ACK [] s) else s
      | _ \<Rightarrow> s)"
    by (simp only: tcp_rx_state_def Let_def r_def w_def v_def)
  have e: "sock_upd i (fin_in TCP_CLOSE_WAIT sq (length bs) flags (data_opt sq bs (sk s i))) s
      (rx_fin TCP_CLOSE_WAIT i sq (length bs) flags r)"
    using sock_upd_trans [OF r rx_fin_upd] sock_upd_at [OF r] by simp
  have f1: "sock_upd i (fin_in TCP_TIME_WAIT sq (length bs) flags (fw1_acked ack flags (data_opt sq bs (sk s i)))) s
      (rx_fin_after TCP_TIME_WAIT i sq (length bs) flags w)"
    using sock_upd_trans [OF w rx_fin_after_upd] sock_upd_at [OF w] by simp
  have f2: "sock_upd i (fin_in TCP_TIME_WAIT sq (length bs) flags
      (if bs \<noteq> [] then (data_in sq bs (sk s i))\<lparr>conn_timer := 0\<rparr> else sk s i)) s
      (rx_fin_after TCP_TIME_WAIT i sq (length bs) flags v)"
    using sock_upd_trans [OF v rx_fin_after_upd] sock_upd_at [OF v] by simp
  show ?thesis
    unfolding rs state_in_def using e f1 f2 r
    by (cases "state (sk s i)") (auto simp: sock_upd_def data_opt_def r_def)
qed

lemma rx_sock_upd: "sock_upd i (sock_in sq ack flags wnd bs (sk s i)) s (tcp_rx_sock i sq ack flags wnd bs s)"
proof -
  define u where "u = (if has flags TCP_ACK then upd_sock i (tcp_rx_ack ack wnd) s else s)"
  have "sock_upd i (if has flags TCP_ACK then tcp_rx_ack ack wnd (sk s i) else sk s i) s u"
    by (simp add: u_def sock_upd_def)
  then show ?thesis
    using sock_upd_trans [OF _ rx_state_upd, of i _ s u sq ack flags bs] sock_upd_at
    unfolding tcp_rx_sock_def sock_in_def u_def [symmetric] Let_def
    by (auto simp: sock_upd_def)
qed

end
