(* ===== verification/Tcp_Inv.thy ===== *)
theory Tcp_Inv
  imports Tcp_Sock
begin

text \<open>
  The invariant of a TCP socket: ring indices in range, the retransmit queue holding exactly the
  segments between the first unacknowledged sequence number and \<open>snd_nxt\<close>, and the timers below their
  limits.
\<close>

section \<open>Sequence numbers\<close>

lemma sint_small:
  assumes "- (2 ^ 31) \<le> k" "k < 2 ^ 31"
  shows "sint (of_int k :: u32) = k"
  using assms signed_take_bit_int_eq_self [of 31 k] by (simp add: signed_of_int)

lemma seq_gt_add:
  assumes "m < 2 ^ 31" "n < 2 ^ 31"
  shows "seq_gt (a + of_nat m) (a + of_nat n) \<longleftrightarrow> n < m"
proof -
  have "(a + of_nat m) - (a + of_nat n) = (of_int (int m - int n) :: u32)" by simp
  then have "sint ((a + of_nat m) - (a + of_nat n)) = int m - int n"
    using sint_small [of "int m - int n"] assms by simp
  then show ?thesis by (simp add: seq_gt_def)
qed

lemma off_of_nat: "(b :: u32) = a + of_nat (unat (b - a))"
  by simp

text \<open>An acknowledgement inside the window lies between the two ends.\<close>

lemma ack_in_window:
  assumes "seq_gt ack una" "\<not> seq_gt ack nxt" "unat (nxt - una) < 2 ^ 31"
  shows "0 < unat (ack - una) \<and> unat (ack - una) \<le> unat (nxt - una)"
proof -
  define k where "k = sint (ack - una)"
  have k: "0 < k" "k < 2 ^ 31" using assms(1) sint_less [of "ack - una"] by (simp_all add: k_def seq_gt_def)
  have w: "ack - una = of_int k" by (simp add: k_def)
  then have u: "unat (ack - una) = nat k" using k by (simp add: unat_eq_nat_uint uint_word_of_int_eq take_bit_int_eq_self)
  obtain e where e: "e = unat (nxt - una)" by simp
  have "ack - nxt = of_int k - of_nat e" using w e by (simp add: algebra_simps)
  then have n: "ack - nxt = of_int (k - int e)" by simp
  have "e < 2 ^ 31" using assms(3) e by simp
  then have "sint (ack - nxt) = k - int e" unfolding n using k by (intro sint_small) simp_all
  then show ?thesis using assms(2) k u unfolding e [symmetric] by (simp add: seq_gt_def)
qed

section \<open>The retransmit queue\<close>

definition seg_len :: "tcp_retx_seg \<Rightarrow> nat" where
  "seg_len r = length (r_data r) + (if has (r_flags r) TCP_SYN then 1 else 0) + (if has (r_flags r) TCP_FIN then 1 else 0)"

lemma seg_end_len: "seg_end r = r_seq r + of_nat (seg_len r)"
  by (simp add: seg_end_def seg_len_def)

definition flight :: "tcp_sock \<Rightarrow> tcp_retx_seg list" where
  "flight x = map (\<lambda>k. retx_q x ((retx_head x + k) mod 8)) [0..<retx_nseg x]"

definition seq_total :: "tcp_retx_seg list \<Rightarrow> nat" where
  "seq_total rs = sum_list (map seg_len rs)"

fun chain :: "u32 \<Rightarrow> tcp_retx_seg list \<Rightarrow> bool" where
  "chain a [] = True"
| "chain a (r # rs) = (r_seq r = a \<and> 0 < seg_len r \<and> seg_len r \<le> 1461 \<and> length (r_data r) \<le> 1460 \<and>
     chain (a + of_nat (seg_len r)) rs)"

definition covers :: "u32 \<Rightarrow> tcp_retx_seg list \<Rightarrow> u32 \<Rightarrow> u32 \<Rightarrow> bool" where
  "covers a rs una nxt \<longleftrightarrow> chain a rs \<and> nxt = a + of_nat (seq_total rs) \<and>
     (case rs of [] \<Rightarrow> una = a | r # _ \<Rightarrow> unat (una - a) < seg_len r)"

lemma seq_total_simps [simp]: "seq_total [] = 0" "seq_total (r # rs) = seg_len r + seq_total rs" "seq_total (rs @ rs') = seq_total rs + seq_total rs'"
  by (simp_all add: seq_total_def)

lemma chain_total: "chain a rs \<Longrightarrow> seq_total rs \<le> 1461 * length rs"
  by (induction rs arbitrary: a) fastforce+

lemma chain_append: "chain a (rs @ [r]) \<longleftrightarrow>
    chain a rs \<and> r_seq r = a + of_nat (seq_total rs) \<and> 0 < seg_len r \<and> seg_len r \<le> 1461 \<and> length (r_data r) \<le> 1460"
  by (induction rs arbitrary: a) (auto simp: algebra_simps)

lemma covers_append:
  assumes "covers a rs una nxt" "r_seq r = nxt" "0 < seg_len r" "seg_len r \<le> 1461" "length (r_data r) \<le> 1460"
  shows "covers a (rs @ [r]) una (nxt + of_nat (seg_len r))"
  using assms by (cases rs) (auto simp: covers_def chain_append algebra_simps)

lemma flight_length [simp]: "length (flight x) = retx_nseg x"
  by (simp add: flight_def)

lemma flight_retired:
  assumes "retx_nseg x \<noteq> 0"
  shows "flight x = retx_q x (retx_head x mod 8) #
    flight (x\<lparr>retx_head := (retx_head x + 1) mod 8, retx_nseg := retx_nseg x - 1\<rparr>)"
proof -
  obtain n where n: "retx_nseg x = Suc n" using assms by (cases "retx_nseg x") auto
  show ?thesis unfolding flight_def n
    by (simp add: upt_conv_Cons del: upt_Suc) (simp add: map_Suc_upt [symmetric] mod_simps del: upt_Suc map_Suc_upt)
qed


lemma retire_step:
  assumes "retx_nseg x \<noteq> 0" "retx_head x < 8" "\<not> seq_gt (seg_end (retx_q x (retx_head x))) ack"
  shows "retire ack x = retire ack (x\<lparr>retx_head := (retx_head x + 1) mod 8, retx_nseg := retx_nseg x - 1\<rparr>)"
  using assms by (subst retire.simps) (simp add: TCP_RETX_SLOTS_def)

lemma same_queue: "x = x\<lparr>retx_head := retx_head x, retx_nseg := retx_nseg x\<rparr>" for x :: tcp_sock
  by (cases x) simp

text \<open>Retiring acknowledged segments keeps the chain, with the acknowledgement in its first segment.\<close>

lemma retire_covers:
  assumes "chain a (flight x)" "retx_head x < 8" "retx_nseg x \<le> 8" "unat (ack - a) \<le> seq_total (flight x)"
  shows "\<exists>h n a'. retire ack x = x\<lparr>retx_head := h, retx_nseg := n\<rparr> \<and> h < 8 \<and> n \<le> 8 \<and>
    covers a' (flight (retire ack x)) ack (a + of_nat (seq_total (flight x)))"
  using assms
proof (induction "retx_nseg x" arbitrary: x a)
  case 0
  then have "flight x = []" by (simp add: flight_def)
  moreover from this have "ack = a" using 0 by (simp add: unat_eq_0)
  ultimately have "covers a (flight x) ack (a + of_nat (seq_total (flight x)))" by (simp add: covers_def)
  moreover have "retire ack x = x" using 0(1) by (subst retire.simps) simp
  ultimately show ?case using 0(3,4) same_queue [of x] by metis
next
  case (Suc n)
  define r where "r = retx_q x (retx_head x)"
  define y where "y = x\<lparr>retx_head := (retx_head x + 1) mod 8, retx_nseg := retx_nseg x - 1\<rparr>"
  have f: "flight x = r # flight y"
    using flight_retired [of x] Suc(2) Suc.prems(2) by (simp add: r_def y_def)
  then have c: "r_seq r = a" "0 < seg_len r" "seg_len r \<le> 1461" "chain (a + of_nat (seg_len r)) (flight y)"
    using Suc.prems(1) by simp_all
  have t: "seq_total (flight x) < 2 ^ 31" using chain_total [OF Suc.prems(1)] Suc.prems(3) by simp
  have g: "seq_gt (seg_end r) ack \<longleftrightarrow> unat (ack - a) < seg_len r"
    using seq_gt_add [of "seg_len r" "unat (ack - a)" a] t Suc.prems(4) f c(1) by (simp add: seg_end_len)
  show ?case
  proof (cases "seq_gt (seg_end r) ack")
    case True
    have "covers a (flight x) ack (a + of_nat (seq_total (flight x)))"
      using True g Suc.prems(1) unfolding f by (simp add: covers_def)
    moreover have "retire ack x = x" using True unfolding r_def by (subst retire.simps) simp
    ultimately show ?thesis using Suc.prems(2,3) same_queue [of x] by metis
  next
    case False
    have e: "retire ack x = retire ack y"
      using retire_step [of x ack] False Suc(2) Suc.prems(2) unfolding r_def y_def by simp
    have k: "unat (ack - (a + of_nat (seg_len r))) = unat (ack - a) - seg_len r"
    proof -
      have "ack - (a + of_nat (seg_len r)) = (of_nat (unat (ack - a) - seg_len r) :: u32)"
        using False g by (simp add: of_nat_diff algebra_simps)
      then show ?thesis using t Suc.prems(4) by (simp add: unat_of_nat take_bit_nat_eq_self)
    qed
    have "\<exists>h n a'. retire ack y = y\<lparr>retx_head := h, retx_nseg := n\<rparr> \<and> h < 8 \<and> n \<le> 8 \<and>
        covers a' (flight (retire ack y)) ack (a + of_nat (seg_len r) + of_nat (seq_total (flight y)))"
      using Suc(1) [of y "a + of_nat (seg_len r)"] Suc(2) Suc.prems c(4) k f by (simp add: y_def)
    then obtain h n a' where "retire ack y = y\<lparr>retx_head := h, retx_nseg := n\<rparr>" "h < 8" "n \<le> 8"
        "covers a' (flight (retire ack y)) ack (a + of_nat (seg_len r) + of_nat (seq_total (flight y)))"
      by (elim exE conjE) (rule that)
    moreover have "y\<lparr>retx_head := h, retx_nseg := n\<rparr> = x\<lparr>retx_head := h, retx_nseg := n\<rparr>" by (simp add: y_def)
    moreover have "a + of_nat (seg_len r) + of_nat (seq_total (flight y)) = a + of_nat (seq_total (flight x))" by (simp add: f)
    ultimately show ?thesis unfolding e by metis
  qed
qed

section \<open>The invariant\<close>

definition sock_ok :: "tcp_sock \<Rightarrow> bool" where
  "sock_ok x \<longleftrightarrow> rx_head x < 4096 \<and> rx_tail x < 4096 \<and> retx_head x < 8 \<and> retx_nseg x \<le> 8 \<and>
     (\<exists>a. covers a (flight x) (snd_una x) (snd_nxt x))"

definition clock_ok :: "tcp_sock \<Rightarrow> bool" where
  "clock_ok x \<longleftrightarrow>
     (state x = TCP_SYN_SENT \<or> state x = TCP_SYN_RECEIVED \<longrightarrow> conn_timer x < 500) \<and>
     (state x = TCP_FIN_WAIT_2 \<longrightarrow> conn_timer x < 12000) \<and>
     (state x = TCP_CLOSE_WAIT \<longrightarrow> conn_timer x < 3000) \<and>
     (state x = TCP_TIME_WAIT \<longrightarrow> conn_timer x \<le> 20) \<and>
     (snd_una x = snd_nxt x \<longrightarrow> retx_timer x = 0 \<and> retx_count x = 0) \<and>
     retx_timer x \<le> 160 \<and> (state x \<noteq> TCP_CLOSED \<longrightarrow> retx_count x \<le> 5)"

definition fin_ok :: "tcp_sock \<Rightarrow> bool" where
  "fin_ok x \<longleftrightarrow> (state x = TCP_FIN_WAIT_1 \<or> state x = TCP_LAST_ACK \<longrightarrow> snd_una x \<noteq> snd_nxt x)"

definition sock_inv :: "tcp_sock \<Rightarrow> bool" where "sock_inv x \<longleftrightarrow> sock_ok x \<and> clock_ok x \<and> fin_ok x"

lemma sock_ok_upd [simp]:
  "sock_ok (x\<lparr>state := a\<rparr>) = sock_ok x" "sock_ok (x\<lparr>local_port := b\<rparr>) = sock_ok x" "sock_ok (x\<lparr>remote_ip := c\<rparr>) = sock_ok x"
  "sock_ok (x\<lparr>remote_port := d\<rparr>) = sock_ok x" "sock_ok (x\<lparr>rcv_nxt := e\<rparr>) = sock_ok x" "sock_ok (x\<lparr>snd_wnd := f\<rparr>) = sock_ok x"
  "sock_ok (x\<lparr>rx_buf := g\<rparr>) = sock_ok x" "sock_ok (x\<lparr>retx_timer := h\<rparr>) = sock_ok x" "sock_ok (x\<lparr>retx_count := i\<rparr>) = sock_ok x"
  "sock_ok (x\<lparr>fin_pending := j\<rparr>) = sock_ok x" "sock_ok (x\<lparr>accepted := k\<rparr>) = sock_ok x" "sock_ok (x\<lparr>conn_timer := l\<rparr>) = sock_ok x"
  by (simp_all add: sock_ok_def flight_def)

lemma covers_offset:
  assumes "covers a rs una nxt" "length rs \<le> 8"
  shows "unat (nxt - a) = seq_total rs" "unat (una - a) \<le> seq_total rs" "unat (nxt - una) = seq_total rs - unat (una - a)"
    "seq_total rs < 2 ^ 31" "una = nxt \<longleftrightarrow> rs = []"
proof -
  have c: "chain a rs" "nxt = a + of_nat (seq_total rs)" using assms(1) by (simp_all add: covers_def)
  show t: "seq_total rs < 2 ^ 31" using chain_total [OF c(1)] assms(2) by simp
  show n: "unat (nxt - a) = seq_total rs" unfolding c(2) using t by (simp add: unat_of_nat take_bit_nat_eq_self)
  show u: "unat (una - a) \<le> seq_total rs" using assms(1) by (auto simp: covers_def split: list.splits)
  have "nxt - una = of_nat (seq_total rs - unat (una - a))" unfolding c(2) using u by (simp add: of_nat_diff)
  then show d: "unat (nxt - una) = seq_total rs - unat (una - a)"
    using t by (simp add: unat_of_nat take_bit_nat_eq_self)
  show "una = nxt \<longleftrightarrow> rs = []"
  proof
    assume "una = nxt"
    then have "unat (una - a) = seq_total rs" using n by simp
    then show "rs = []" using assms(1) by (cases rs) (auto simp: covers_def)
  qed (use assms(1) c in \<open>simp add: covers_def\<close>)
qed

lemma una_nxt_iff: "sock_ok x \<Longrightarrow> snd_una x = snd_nxt x \<longleftrightarrow> retx_nseg x = 0"
  unfolding sock_ok_def using covers_offset(5) [of _ "flight x" "snd_una x" "snd_nxt x"]
  by (metis flight_length length_0_conv)


lemma sock_inv_zero:
  assumes "st = TCP_CLOSED \<or> st = TCP_SYN_SENT \<or> st = TCP_SYN_RECEIVED \<or> st = TCP_LISTEN"
  shows "sock_inv (sock_zero\<lparr>state := st, local_ip := a, local_port := b, remote_ip := c, remote_port := d,
    snd_nxt := v, snd_una := v, rcv_nxt := e, accepted := f, conn_gen := g\<rparr>)"
  using assms
  by (auto simp: sock_inv_def sock_ok_def clock_ok_def fin_ok_def flight_def sock_zero_def covers_def)

section \<open>Sending\<close>

definition one_seq :: "u8 \<Rightarrow> u8 list \<Rightarrow> bool" where
  "one_seq flags bs \<longleftrightarrow> (has flags (TCP_SYN OR TCP_FIN) \<longleftrightarrow> has flags TCP_SYN \<or> has flags TCP_FIN) \<and>
     \<not> (has flags TCP_SYN \<and> has flags TCP_FIN) \<and> (has flags (TCP_SYN OR TCP_FIN) \<longrightarrow> bs = [])"

lemma one_seq_flags [simp]:
  "one_seq TCP_SYN []" "one_seq (TCP_SYN OR TCP_ACK) []" "one_seq (TCP_FIN OR TCP_ACK) []" "one_seq (TCP_PSH OR TCP_ACK) bs"
  by (simp_all add: one_seq_def)

lemma seg_sent_ok:
  assumes "sock_ok x" "retx_nseg x < 8" "one_seq flags bs" "has flags (TCP_SYN OR TCP_FIN) \<or> bs \<noteq> []"
  shows "sock_ok (seg_sent flags bs x)" "snd_nxt (seg_sent flags bs x) \<noteq> snd_una x"
    "retx_timer (seg_sent flags bs x) = (if retx_timer x = 0 then 10 else retx_timer x)"
proof -
  define r where "r = \<lparr>r_seq = snd_nxt x, r_flags = flags, r_data = take TCP_MSS bs\<rparr>"
  define y where "y = seg_sent flags bs x"
  have e: "y = x\<lparr>snd_nxt := snd_nxt x + of_nat (seg_len r), retx_q := (retx_q x)((retx_head x + retx_nseg x) mod 8 := r),
      retx_nseg := retx_nseg x + 1, retx_timer := if retx_timer x = 0 then 10 else retx_timer x\<rparr>"
    using assms(3,4) by (auto simp: y_def seg_sent_def r_def one_seq_def seg_len_def TCP_MSS_def TCP_RETX_SLOTS_def
        TCP_RETX_TICKS_INIT_def)
  have n: "(retx_head x + k) mod 8 \<noteq> (retx_head x + retx_nseg x) mod 8" if "k < retx_nseg x" for k
    using mod_add_inj [of "retx_head x" k 8 "retx_nseg x"] that assms(2) by auto
  have f: "flight y = flight x @ [r]" unfolding e flight_def using n by simp
  obtain a where a: "covers a (flight x) (snd_una x) (snd_nxt x)" using assms(1) by (auto simp: sock_ok_def)
  have l: "0 < seg_len r" "seg_len r \<le> 1461" "length (r_data r) \<le> 1460"
    using assms(3,4) by (auto simp: seg_len_def r_def one_seq_def TCP_MSS_def)
  have c: "covers a (flight y) (snd_una x) (snd_nxt y)"
    using covers_append [OF a _ l] unfolding f by (simp add: r_def e)
  have nx: "snd_una y = snd_una x" "retx_nseg y = retx_nseg x + 1" by (simp_all add: e)
  have ok: "sock_ok y" using assms(1,2) c nx unfolding sock_ok_def by (auto simp: e)
  show "sock_ok (seg_sent flags bs x)" using ok by (simp add: y_def)
  show "snd_nxt (seg_sent flags bs x) \<noteq> snd_una x"
    using una_nxt_iff [OF ok] nx by (auto simp: y_def [symmetric])
  show "retx_timer (seg_sent flags bs x) = (if retx_timer x = 0 then 10 else retx_timer x)"
    unfolding y_def [symmetric] e by simp
qed

lemma seg_sent_inv:
  assumes "sock_inv x" "retx_nseg x < 8" "one_seq flags bs" "has flags (TCP_SYN OR TCP_FIN) \<or> bs \<noteq> []"
  shows "sock_inv (seg_sent flags bs x)"
  using assms seg_sent_ok [OF _ assms(2-4)]
  by (auto simp: sock_inv_def clock_ok_def fin_ok_def)

section \<open>Acknowledgements\<close>

lemma rx_ack_inv:
  assumes "sock_ok x" "clock_ok x"
  shows "sock_ok (tcp_rx_ack ack wnd x)" "clock_ok (tcp_rx_ack ack wnd x)"
    "snd_nxt (tcp_rx_ack ack wnd x) = snd_nxt x" "state (tcp_rx_ack ack wnd x) = state x"
    "snd_una (tcp_rx_ack ack wnd x) = snd_una x \<or> snd_una (tcp_rx_ack ack wnd x) = ack"
proof -
  let ?y = "tcp_rx_ack ack wnd x"
  have "sock_ok ?y \<and> clock_ok ?y \<and> snd_nxt ?y = snd_nxt x \<and> state ?y = state x \<and> (snd_una ?y = snd_una x \<or> snd_una ?y = ack)"
  proof (cases "seq_gt ack (snd_una x) \<and> \<not> seq_gt ack (snd_nxt x)")
    case True
    define z where "z = x\<lparr>snd_una := ack\<rparr>"
    obtain a where a: "covers a (flight x) (snd_una x) (snd_nxt x)" and b: "retx_head x < 8" "retx_nseg x \<le> 8"
      using assms(1) by (auto simp: sock_ok_def)
    have fz: "flight z = flight x" by (simp add: z_def flight_def)
    note o = covers_offset [OF a] 
    have w: "unat (ack - snd_una x) \<le> unat (snd_nxt x - snd_una x)"
      using ack_in_window [of ack "snd_una x" "snd_nxt x"] True o(3,4) b by simp
    have "ack - a = of_nat (unat (ack - snd_una x) + unat (snd_una x - a))" by simp
    then have "unat (ack - a) \<le> seq_total (flight x)"
      using w o(2,3,4) b by (simp add: unat_of_nat take_bit_nat_eq_self del: of_nat_add)
    then have h: "chain a (flight z)" "retx_head z < 8" "retx_nseg z \<le> 8" "unat (ack - a) \<le> seq_total (flight z)"
      using a b unfolding fz by (simp_all add: covers_def z_def)
    obtain h n a' where r: "retire ack z = z\<lparr>retx_head := h, retx_nseg := n\<rparr>" "h < 8" "n \<le> 8"
        "covers a' (flight (retire ack z)) ack (a + of_nat (seq_total (flight z)))"
      using retire_covers [OF h] by (elim exE conjE) (rule that)
    have nx: "a + of_nat (seq_total (flight z)) = snd_nxt x" using a by (simp add: covers_def fz)
    have ok: "sock_ok (retire ack z)"
      unfolding sock_ok_def using r assms(1) nx by (auto simp: sock_ok_def z_def)
    have "?y = (retire ack z)\<lparr>retx_timer := if ack = snd_nxt x then 0 else 10, retx_count := 0, snd_wnd := wnd\<rparr>"
      using True r(1) by (simp add: tcp_rx_ack_def Let_def z_def TCP_RETX_TICKS_INIT_def)
    then show ?thesis using ok assms(2) r(1) by (auto simp: clock_ok_def z_def)
  next
    case False
    then have "?y = x\<lparr>snd_wnd := wnd\<rparr>" by (auto simp: tcp_rx_ack_def)
    then show ?thesis using assms by (simp add: clock_ok_def)
  qed
  then show "sock_ok ?y" "clock_ok ?y" "snd_nxt ?y = snd_nxt x" "state ?y = state x"
    "snd_una ?y = snd_una x \<or> snd_una ?y = ack" by simp_all
qed


section \<open>Receiving\<close>

lemma sock_ok_tail: "sock_ok x \<Longrightarrow> t < 4096 \<Longrightarrow> sock_ok (x\<lparr>rx_tail := t\<rparr>)"
  by (simp add: sock_ok_def flight_def)

lemma sock_ok_head: "sock_ok x \<Longrightarrow> t < 4096 \<Longrightarrow> sock_ok (x\<lparr>rx_head := t\<rparr>)"
  by (simp add: sock_ok_def flight_def)

lemma data_in_form:
  assumes "sock_ok x" "length bs < 2 ^ 16"
  obtains b t r where "data_in sq bs x = x\<lparr>rx_buf := b, rx_tail := t, rcv_nxt := r\<rparr>" "t < 4096"
proof -
  define ahead where "ahead = sint (sq - rcv_nxt x)"
  define ds where "ds = (if ahead < 0 then drop (nat (- ahead)) bs else bs)"
  have o: "(1 :: u16) < 4096" "rx_head x < 4096" "rx_tail x < 4096" using assms(1) by (simp_all add: sock_ok_def)
  have l: "unat (0 :: u16) + length ds < 2 ^ 16" using assms(2) by (simp add: ds_def, linarith)
  obtain n b t where p: "rbuf_put (rx_buf x) (rx_tail x) (rx_head x) 4096 ds 0 = (n, b, t)" "t < 4096"
    using rbuf_put_spec [OF o l, of "rx_buf x"] by blast
  show thesis
  proof (cases "ahead > 0 \<or> (ahead < 0 \<and> nat (- ahead) \<ge> length bs)")
    case True
    then have "data_in sq bs x = x" unfolding data_in_def Let_def ahead_def [symmetric] by simp
    then show thesis using o(3) by (intro that [where b = "rx_buf x" and t = "rx_tail x" and r = "rcv_nxt x"]) simp_all
  next
    case False
    then have "data_in sq bs x = x\<lparr>rx_buf := b, rx_tail := t, rcv_nxt := rcv_nxt x + ucast n\<rparr>"
      unfolding data_in_def Let_def ahead_def [symmetric] ds_def [symmetric] TCP_RX_BUF_SIZE_def p(1)
      by auto
    then show thesis using p(2) by (rule that)
  qed
qed

lemma data_opt_inv:
  assumes "sock_ok x" "length bs < 2 ^ 16"
  shows "sock_ok (data_in sq bs x)" "state (data_in sq bs x) = state x" "snd_nxt (data_in sq bs x) = snd_nxt x"
    "snd_una (data_in sq bs x) = snd_una x" "clock_ok (data_in sq bs x) = clock_ok x"
    "conn_gen (data_in sq bs x) = conn_gen x" "local_port (data_in sq bs x) = local_port x"
proof -
  obtain b t r where "data_in sq bs x = x\<lparr>rx_buf := b, rx_tail := t, rcv_nxt := r\<rparr>" "t < 4096"
    using data_in_form [OF assms] .
  then show "sock_ok (data_in sq bs x)" "state (data_in sq bs x) = state x" "snd_nxt (data_in sq bs x) = snd_nxt x"
    "snd_una (data_in sq bs x) = snd_una x" "clock_ok (data_in sq bs x) = clock_ok x"
    "conn_gen (data_in sq bs x) = conn_gen x" "local_port (data_in sq bs x) = local_port x"
    using assms(1) by (simp_all add: sock_ok_tail clock_ok_def)
qed

lemma data_opt_facts:
  assumes "sock_ok x" "length bs < 2 ^ 16"
  shows "sock_ok (data_opt sq bs x)" "state (data_opt sq bs x) = state x" "snd_nxt (data_opt sq bs x) = snd_nxt x"
    "snd_una (data_opt sq bs x) = snd_una x" "clock_ok (data_opt sq bs x) = clock_ok x"
  using data_opt_inv [OF assms] assms(1) by (simp_all add: data_opt_def)

lemma fin_in_inv:
  assumes "sock_ok x" "clock_ok x" "state x \<noteq> TCP_CLOSED" "st = TCP_CLOSE_WAIT \<or> st = TCP_TIME_WAIT"
  shows "sock_ok (fin_in st sq n flags x)" "clock_ok (fin_in st sq n flags x)" "fin_ok x \<Longrightarrow> fin_ok (fin_in st sq n flags x)"
proof -
  define y where "y = x\<lparr>rcv_nxt := rcv_nxt x + 1, state := st, conn_timer := 0\<rparr>"
  have "sock_ok y" "clock_ok y" "fin_ok y"
    using assms by (auto simp: y_def clock_ok_def fin_ok_def)
  moreover have "fin_in st sq n flags x = y \<or> fin_in st sq n flags x = x" by (simp add: fin_in_def y_def)
  ultimately show "sock_ok (fin_in st sq n flags x)" "clock_ok (fin_in st sq n flags x)"
    "fin_ok x \<Longrightarrow> fin_ok (fin_in st sq n flags x)"
    using assms(1,2) by auto
qed

lemma fw1_acked_inv:
  assumes "sock_ok x" "clock_ok x" "state x = TCP_FIN_WAIT_1"
    "snd_una x \<noteq> snd_nxt x \<or> (has flags TCP_ACK \<and> snd_una x = ack)"
  shows "sock_ok (fw1_acked ack flags x)" "clock_ok (fw1_acked ack flags x)" "fin_ok (fw1_acked ack flags x)"
    "state (fw1_acked ack flags x) \<noteq> TCP_CLOSED"
proof -
  define y where "y = x\<lparr>state := TCP_FIN_WAIT_2, conn_timer := 0\<rparr>"
  have y: "sock_ok y" "clock_ok y" "fin_ok y" "state y \<noteq> TCP_CLOSED"
    using assms by (auto simp: y_def clock_ok_def fin_ok_def)
  have "fw1_acked ack flags x = y \<or> (fw1_acked ack flags x = x \<and> snd_una x \<noteq> snd_nxt x)"
    using assms(4) by (auto simp: fw1_acked_def y_def)
  then show "sock_ok (fw1_acked ack flags x)" "clock_ok (fw1_acked ack flags x)" "fin_ok (fw1_acked ack flags x)"
    "state (fw1_acked ack flags x) \<noteq> TCP_CLOSED"
    using y assms(1-3) by (auto simp: fin_ok_def)
qed

lemma state_in_inv:
  assumes "sock_ok x" "clock_ok x" "length bs < 2 ^ 16" "fin_ok x \<or> (has flags TCP_ACK \<and> snd_una x = ack)"
  shows "sock_inv (state_in sq ack flags bs x)"
proof -
  note d = data_opt_facts [OF assms(1,3), of sq] data_opt_inv [OF assms(1,3), of sq]
  have f: "fin_ok y" if "state y = st" "st \<noteq> TCP_FIN_WAIT_1" "st \<noteq> TCP_LAST_ACK" for y st
    using that by (auto simp: fin_ok_def)
  have w: "sock_ok (fw1_acked ack flags (data_opt sq bs x))" "clock_ok (fw1_acked ack flags (data_opt sq bs x))"
    "fin_ok (fw1_acked ack flags (data_opt sq bs x))" "state (fw1_acked ack flags (data_opt sq bs x)) \<noteq> TCP_CLOSED"
    if "state x = TCP_FIN_WAIT_1"
    using fw1_acked_inv [OF d(1)] d(2-5) assms(2,4) that by (simp_all add: fin_ok_def)
  define v where "v = (if bs \<noteq> [] then (data_in sq bs x)\<lparr>conn_timer := 0\<rparr> else x)"
  have v: "sock_ok v" "clock_ok v" "state v = state x" 
    using d assms(1,2) by (simp_all add: v_def clock_ok_def)
  have s: "state_in sq ack flags bs x =
     (case state x of
        TCP_SYN_SENT \<Rightarrow>
          if flags AND (TCP_SYN OR TCP_ACK) = TCP_SYN OR TCP_ACK then x\<lparr>rcv_nxt := sq + 1, state := TCP_ESTABLISHED\<rparr> else x
      | TCP_SYN_RECEIVED \<Rightarrow>
          if has flags TCP_ACK \<and> ack = snd_nxt x then x\<lparr>state := TCP_ESTABLISHED\<rparr> else x
      | TCP_ESTABLISHED \<Rightarrow> fin_in TCP_CLOSE_WAIT sq (length bs) flags (data_opt sq bs x)
      | TCP_FIN_WAIT_1 \<Rightarrow> fin_in TCP_TIME_WAIT sq (length bs) flags (fw1_acked ack flags (data_opt sq bs x))
      | TCP_FIN_WAIT_2 \<Rightarrow> fin_in TCP_TIME_WAIT sq (length bs) flags v
      | TCP_CLOSE_WAIT \<Rightarrow> data_opt sq bs x
      | TCP_LAST_ACK \<Rightarrow> if has flags TCP_ACK \<and> ack = snd_nxt x then x\<lparr>state := TCP_CLOSED\<rparr> else x
      | TCP_TIME_WAIT \<Rightarrow> if has flags TCP_FIN then x\<lparr>conn_timer := 0\<rparr> else x
      | _ \<Rightarrow> x)" by (simp only: state_in_def v_def)
  show ?thesis
  proof (cases "state x")
    case TCP_ESTABLISHED
    then show ?thesis unfolding s sock_inv_def using fin_in_inv [OF d(1)] d assms(2) f [of "data_opt sq bs x"] by simp
  next
    case TCP_FIN_WAIT_1
    then show ?thesis unfolding s sock_inv_def using fin_in_inv [OF w(1,2,4)] w(3) by simp
  next
    case TCP_FIN_WAIT_2
    then show ?thesis unfolding s sock_inv_def using fin_in_inv [OF v(1,2)] v(3) f [of v] by simp
  next
    case TCP_CLOSE_WAIT
    then show ?thesis unfolding s sock_inv_def using d assms(2) f [of "data_opt sq bs x"] by simp
  next
    case TCP_LAST_ACK
    then show ?thesis unfolding s sock_inv_def using assms by (auto simp: clock_ok_def fin_ok_def)
  qed (unfold s sock_inv_def, use assms in \<open>auto simp: clock_ok_def fin_ok_def\<close>)
qed

lemma sock_in_inv:
  assumes "sock_inv x" "length bs < 2 ^ 16"
  shows "sock_inv (sock_in sq ack flags wnd bs x)"
proof -
  have i: "sock_ok x" "clock_ok x" "fin_ok x" using assms(1) by (simp_all add: sock_inv_def)
  define y where "y = (if has flags TCP_ACK then tcp_rx_ack ack wnd x else x)"
  have y: "sock_ok y" "clock_ok y" "fin_ok y \<or> (has flags TCP_ACK \<and> snd_una y = ack)"
    using rx_ack_inv [OF i(1,2), of ack wnd] i by (auto simp: y_def fin_ok_def)
  have "sock_inv (y\<lparr>state := TCP_CLOSED\<rparr>)" using y by (simp add: sock_inv_def clock_ok_def fin_ok_def)
  then show ?thesis
    using state_in_inv [OF y(1,2) assms(2) y(3)] unfolding sock_in_def Let_def y_def [symmetric] by simp
qed

end
