(* ===== verification/Tcp_Tick.thy ===== *)
theory Tcp_Tick
  imports Tcp_Inv
begin

text \<open>
  The timer on one socket: closing, the retransmit timer with its back-off, and the time limits of the
  states that wait for the peer.  A rank bounds the ticks until a socket in such a state is closed.
\<close>

section \<open>Closing and ticking one socket\<close>

definition fin_out :: "tcp_sock \<Rightarrow> tcp_sock" where
  "fin_out x = seg_sent (TCP_FIN OR TCP_ACK) []
     (x\<lparr>state := if state x = TCP_CLOSE_WAIT then TCP_LAST_ACK else TCP_FIN_WAIT_1\<rparr>)"

definition close_sock :: "tcp_sock \<Rightarrow> tcp_sock" where
  "close_sock x =
     (if state x = TCP_ESTABLISHED \<or> state x = TCP_SYN_RECEIVED \<or> state x = TCP_CLOSE_WAIT
      then if snd_una x \<noteq> snd_nxt x then x\<lparr>fin_pending := True\<rparr> else fin_out x
      else x\<lparr>state := TCP_CLOSED\<rparr>)"

definition retx_sock :: "tcp_sock \<Rightarrow> tcp_sock" where
  "retx_sock x =
     (if fin_pending x \<and> snd_una x = snd_nxt x \<and> (state x = TCP_ESTABLISHED \<or> state x = TCP_CLOSE_WAIT)
      then fin_out (x\<lparr>fin_pending := False\<rparr>)
      else if snd_una x = snd_nxt x then x\<lparr>retx_timer := 0, retx_count := 0\<rparr>
      else
        let t = (if retx_timer x = 0 then TCP_RETX_TICKS_INIT else retx_timer x) - 1
        in if t > 0 then x\<lparr>retx_timer := t\<rparr>
           else let c = retx_count x + 1
                in if c > TCP_RETX_MAX_TRIES then x\<lparr>retx_timer := t, retx_count := c, state := TCP_CLOSED\<rparr>
                   else x\<lparr>retx_count := c,
                          retx_timer := push_bit (unat (if c < TCP_RETX_BACKOFF_MAX then c else TCP_RETX_BACKOFF_MAX))
                                          TCP_RETX_TICKS_INIT\<rparr>)"

definition tick_sock :: "tcp_sock \<Rightarrow> tcp_sock" where
  "tick_sock x =
     (let y = x\<lparr>conn_timer := conn_timer x + 1\<rparr>
      in case state x of
           TCP_TIME_WAIT \<Rightarrow> if conn_timer x < TCP_TIMEWAIT_TICKS then y else x\<lparr>state := TCP_CLOSED\<rparr>
         | TCP_FIN_WAIT_2 \<Rightarrow> if conn_timer y \<ge> TCP_FINWAIT2_TICKS then y\<lparr>state := TCP_CLOSED\<rparr> else y
         | TCP_CLOSE_WAIT \<Rightarrow>
             retx_sock (if conn_timer y \<ge> TCP_CLOSEWAIT_TICKS then close_sock (y\<lparr>conn_timer := 0\<rparr>) else y)
         | TCP_ESTABLISHED \<Rightarrow> retx_sock x
         | TCP_FIN_WAIT_1 \<Rightarrow> retx_sock x
         | TCP_LAST_ACK \<Rightarrow> retx_sock x
         | TCP_CLOSED \<Rightarrow> x
         | TCP_LISTEN \<Rightarrow> x
         | _ \<Rightarrow> if conn_timer y \<ge> TCP_CONN_TIMEOUT_TICKS then y\<lparr>state := TCP_CLOSED\<rparr> else retx_sock y)"

lemma send_fin_upd: "sock_upd i (fin_out (sk s i)) s (send_fin i s)"
  by (simp add: sock_upd_def send_fin_def fin_out_def)

lemma tcp_close_upd:
  assumes "valid_sock k"
  shows "sock_upd (nat k) (close_sock (sk s (nat k))) s (tcp_close k s)"
  using assms send_fin_upd [of "nat k" s] unfolding tcp_close_def close_sock_def Let_def
  by (auto simp: sock_upd_def)

lemma tick_retx_upd: "sock_upd i (retx_sock (sk s i)) s (tcp_tick_retx i s)"
proof -
  have f: "sock_upd i (fin_out ((sk s i)\<lparr>fin_pending := False\<rparr>)) s (send_fin i (upd_sock i (\<lambda>x. x\<lparr>fin_pending := False\<rparr>) s))"
    using send_fin_upd [of i "upd_sock i (\<lambda>x. x\<lparr>fin_pending := False\<rparr>) s"] by (simp add: sock_upd_def)
  show ?thesis unfolding tcp_tick_retx_def retx_sock_def Let_def using f by (auto simp: sock_upd_def)
qed

lemma tick_sock_upd:
  assumes "i < 8"
  shows "sock_upd i (tick_sock (sk s i)) s (tcp_tick_sock i s)"
proof -
  define u where "u = upd_sock i (\<lambda>x. x\<lparr>conn_timer := conn_timer x + 1\<rparr>) s"
  define y where "y = (sk s i)\<lparr>conn_timer := conn_timer (sk s i) + 1\<rparr>"
  have u: "sock_upd i y s u" "sk u i = y" by (simp_all add: u_def y_def sock_upd_def)
  have r: "sock_upd i (retx_sock y) s (tcp_tick_retx i u)"
    using sock_upd_trans [OF u(1) tick_retx_upd] u(2) by simp
  define w where "w = (if conn_timer (sk u i) \<ge> TCP_CLOSEWAIT_TICKS
      then tcp_close (int i) (upd_sock i (\<lambda>x. x\<lparr>conn_timer := 0\<rparr>) u) else u)"
  have k: "valid_sock (int i)" using assms by (simp add: valid_sock_def TCP_MAX_SOCKETS_def)
  have "sock_upd i (close_sock (y\<lparr>conn_timer := 0\<rparr>)) s (tcp_close (int i) (upd_sock i (\<lambda>x. x\<lparr>conn_timer := 0\<rparr>) u))"
    using tcp_close_upd [OF k, of "upd_sock i (\<lambda>x. x\<lparr>conn_timer := 0\<rparr>) u"] u by (simp add: sock_upd_def)
  then have w: "sock_upd i (if conn_timer y \<ge> TCP_CLOSEWAIT_TICKS then close_sock (y\<lparr>conn_timer := 0\<rparr>) else y) s w"
    using u by (simp add: w_def)
  have c: "sock_upd i (retx_sock (if conn_timer y \<ge> TCP_CLOSEWAIT_TICKS then close_sock (y\<lparr>conn_timer := 0\<rparr>) else y)) s
      (tcp_tick_retx i w)"
    using sock_upd_trans [OF w tick_retx_upd] sock_upd_at [OF w] by simp
  have t: "tcp_tick_sock i s =
     (case state (sk s i) of
        TCP_TIME_WAIT \<Rightarrow> if conn_timer (sk s i) < TCP_TIMEWAIT_TICKS then u else upd_sock i (\<lambda>x. x\<lparr>state := TCP_CLOSED\<rparr>) s
      | TCP_FIN_WAIT_2 \<Rightarrow> if conn_timer (sk u i) \<ge> TCP_FINWAIT2_TICKS then upd_sock i (\<lambda>x. x\<lparr>state := TCP_CLOSED\<rparr>) u else u
      | TCP_CLOSE_WAIT \<Rightarrow> tcp_tick_retx i w
      | TCP_ESTABLISHED \<Rightarrow> tcp_tick_retx i s
      | TCP_FIN_WAIT_1 \<Rightarrow> tcp_tick_retx i s
      | TCP_LAST_ACK \<Rightarrow> tcp_tick_retx i s
      | TCP_CLOSED \<Rightarrow> s
      | TCP_LISTEN \<Rightarrow> s
      | _ \<Rightarrow> if conn_timer (sk u i) \<ge> TCP_CONN_TIMEOUT_TICKS then upd_sock i (\<lambda>x. x\<lparr>state := TCP_CLOSED\<rparr>) u
             else tcp_tick_retx i u)"
    by (simp only: tcp_tick_sock_def Let_def u_def w_def)
  show ?thesis
    unfolding t tick_sock_def Let_def y_def [symmetric] using c r u tick_retx_upd [of i s]
    by (cases "state (sk s i)") (auto simp: sock_upd_def)
qed

lemma tick_fold:
  "set is \<subseteq> {..<8} \<Longrightarrow> distinct is \<Longrightarrow>
     tcp_socks (fold tcp_tick_sock is s) = (\<lambda>i. if i \<in> set is then tick_sock (sk s i) else sk s i) \<and>
     g_conn_gen_next (fold tcp_tick_sock is s) = g_conn_gen_next s \<and> g_eph_next (fold tcp_tick_sock is s) = g_eph_next s"
proof (induction "is" arbitrary: s)
  case (Cons i "is")
  then have u: "sock_upd i (tick_sock (sk s i)) s (tcp_tick_sock i s)" by (intro tick_sock_upd) simp
  show ?case using Cons.IH [of "tcp_tick_sock i s"] Cons.prems u by (auto simp: sock_upd_def fun_eq_iff)
qed simp

lemma tcp_tick_socks:
  "tcp_socks (tcp_tick s) = (\<lambda>i. if i < 8 then tick_sock (sk s i) else sk s i)"
  "g_conn_gen_next (tcp_tick s) = g_conn_gen_next s" "g_eph_next (tcp_tick s) = g_eph_next s"
  using tick_fold [of "[0..<8]" s] by (auto simp: tcp_tick_def TCP_MAX_SOCKETS_def atLeast0LessThan)

section \<open>The invariant\<close>

lemma fin_out_inv:
  assumes "sock_ok x" "clock_ok x" "snd_una x = snd_nxt x"
  shows "sock_inv (fin_out x)" "snd_una (fin_out x) \<noteq> snd_nxt (fin_out x)"
    "state (fin_out x) = (if state x = TCP_CLOSE_WAIT then TCP_LAST_ACK else TCP_FIN_WAIT_1)"
    "retx_timer (fin_out x) = 10" "retx_count (fin_out x) = 0"
proof -
  define y where "y = x\<lparr>state := if state x = TCP_CLOSE_WAIT then TCP_LAST_ACK else TCP_FIN_WAIT_1\<rparr>"
  have y: "sock_ok y" "retx_nseg y < 8" "retx_timer y = 0"
    using assms una_nxt_iff [OF assms(1)] by (simp_all add: y_def clock_ok_def)
  note s = seg_sent_ok [OF y(1,2) one_seq_flags(3)]
  show "sock_inv (fin_out x)" "snd_una (fin_out x) \<noteq> snd_nxt (fin_out x)"
    "state (fin_out x) = (if state x = TCP_CLOSE_WAIT then TCP_LAST_ACK else TCP_FIN_WAIT_1)"
    "retx_timer (fin_out x) = 10" "retx_count (fin_out x) = 0"
    using s y(3) assms(2,3) unfolding fin_out_def y_def [symmetric]
    by (auto simp: sock_inv_def clock_ok_def fin_ok_def y_def)
qed

lemma close_sock_inv: "sock_inv x \<Longrightarrow> sock_inv (close_sock x)"
  using fin_out_inv [of x] by (auto simp: close_sock_def sock_inv_def clock_ok_def fin_ok_def)


text \<open>The timer value after one tick, and the back-off.\<close>

definition rto :: "tcp_sock \<Rightarrow> nat" where
  "rto x = (if retx_timer x = 0 then 10 else unat (retx_timer x))"

definition backoff :: "nat \<Rightarrow> nat" where "backoff c = 10 * 2 ^ min c 4"

text \<open>The cases of \<open>retx_sock\<close> with unacknowledged segments.\<close>

lemma retx_sock_cases:
  assumes "clock_ok x" "state x \<noteq> TCP_CLOSED" "snd_una x \<noteq> snd_nxt x"
  shows "(1 < rto x \<and> (\<exists>t. retx_sock x = x\<lparr>retx_timer := t\<rparr> \<and> unat t = rto x - 1)) \<or>
     (rto x = 1 \<and> unat (retx_count x) < 5 \<and>
        (\<exists>t c. retx_sock x = x\<lparr>retx_count := c, retx_timer := t\<rparr> \<and> unat c = unat (retx_count x) + 1 \<and>
           unat t = backoff (unat (retx_count x) + 1))) \<or>
     (rto x = 1 \<and> unat (retx_count x) = 5 \<and>
        (\<exists>t c. retx_sock x = x\<lparr>retx_timer := t, retx_count := c, state := TCP_CLOSED\<rparr> \<and> t \<le> 160))"
proof -
  define t0 where "t0 = (if retx_timer x = 0 then 10 else retx_timer x)"
  define c where "c = retx_count x + 1"
  have b: "retx_timer x \<le> 160" "retx_count x \<le> 5" using assms(1,2) by (auto simp: clock_ok_def)
  have t0: "unat t0 = rto x" "0 < rto x" by (auto simp: t0_def rto_def unat_gt_0)
  then have nz: "t0 \<noteq> 0" by auto
  have t1: "unat (t0 - 1) = rto x - 1" using unat_minus_one [OF nz] t0 by simp
  have c1: "unat c = unat (retx_count x) + 1" unfolding c_def using b(2)
    by (subst unat_add_lem [THEN iffD1]) (auto simp: word_le_nat_alt)
  have r: "retx_sock x = (if t0 - 1 > 0 then x\<lparr>retx_timer := t0 - 1\<rparr>
     else if c > 5 then x\<lparr>retx_timer := t0 - 1, retx_count := c, state := TCP_CLOSED\<rparr>
     else x\<lparr>retx_count := c, retx_timer := push_bit (unat (if c < 4 then c else 4)) 10\<rparr>)"
    using assms(3) by (simp add: retx_sock_def Let_def t0_def c_def TCP_RETX_TICKS_INIT_def TCP_RETX_MAX_TRIES_def
        TCP_RETX_BACKOFF_MAX_def)
  show ?thesis
  proof (cases "1 < rto x")
    case True
    then have "t0 - 1 > 0" using t1 by (simp add: word_less_nat_alt)
    then show ?thesis using r t1 True by auto
  next
    case False
    then have e: "rto x = 1" "t0 - 1 = 0" using t0(2) t1 by (auto simp: unat_eq_0 [symmetric] simp del: unat_eq_0)
    show ?thesis
    proof (cases "c > 5")
      case True
      then have "unat (retx_count x) = 5" using b(2) c1 by (auto simp: word_less_nat_alt word_le_nat_alt)
      then show ?thesis using r e True by auto
    next
      case c5: False
      then have l: "unat (retx_count x) < 5" using c1 by (auto simp: word_less_nat_alt)
      have m: "unat (if c < 4 then c else 4) = min (unat c) 4" by (auto simp: word_less_nat_alt min_def)
      have "unat (push_bit k 10 :: u16) = 10 * 2 ^ k" if "k \<le> 4" for k
      proof -
        have "k = 0 \<or> k = 1 \<or> k = 2 \<or> k = 3 \<or> k = 4" using that by linarith
        then show ?thesis by (elim disjE) simp_all
      qed
      then have "unat (push_bit (min (unat c) 4) 10 :: u16) = backoff (unat c)" by (simp add: backoff_def)
      then show ?thesis using r e c5 l c1 m by auto
    qed
  qed
qed

lemma backoff_le: "backoff c \<le> 160"
  using power_increasing [of "min c 4" 4 "2 :: nat"] by (simp add: backoff_def)

lemma retx_sock_inv:
  assumes "sock_inv x" "state x \<noteq> TCP_CLOSED"
  shows "sock_inv (retx_sock x)"
proof (cases "snd_una x = snd_nxt x")
  case True
  have i: "sock_ok x" "clock_ok x" "fin_ok x" using assms(1) by (simp_all add: sock_inv_def)
  then have "sock_inv (fin_out (x\<lparr>fin_pending := False\<rparr>))"
    using fin_out_inv(1) [of "x\<lparr>fin_pending := False\<rparr>"] True by (simp add: clock_ok_def)
  moreover have "sock_inv (x\<lparr>retx_timer := 0, retx_count := 0\<rparr>)"
    using i True by (simp add: sock_inv_def clock_ok_def fin_ok_def)
  ultimately show ?thesis using True by (simp add: retx_sock_def)
next
  case False
  have i: "sock_ok x" "clock_ok x" "fin_ok x" using assms(1) by (simp_all add: sock_inv_def)
  have r: "rto x \<le> 160" using i(2) by (auto simp: rto_def clock_ok_def word_le_nat_alt)
  show ?thesis using retx_sock_cases [OF i(2) assms(2) False]
  proof (elim disjE conjE exE)
    fix t assume "retx_sock x = x\<lparr>retx_timer := t\<rparr>" "unat t = rto x - 1"
    then show ?thesis using i False r by (simp add: sock_inv_def clock_ok_def fin_ok_def word_le_nat_alt)
  next
    fix t c assume "retx_sock x = x\<lparr>retx_count := c, retx_timer := t\<rparr>" "unat c = unat (retx_count x) + 1"
      "unat t = backoff (unat (retx_count x) + 1)" "unat (retx_count x) < 5"
    then show ?thesis using i False backoff_le [of "unat (retx_count x) + 1"]
      by (simp add: sock_inv_def clock_ok_def fin_ok_def word_le_nat_alt)
  next
    fix t c assume "retx_sock x = x\<lparr>retx_timer := t, retx_count := c, state := TCP_CLOSED\<rparr>" "t \<le> 160"
    then show ?thesis using i False by (simp add: sock_inv_def clock_ok_def fin_ok_def)
  qed
qed


lemma timer_succ: "unat (t :: u16) < 20000 \<Longrightarrow> unat (t + 1) = unat t + 1"
  by (subst unat_add_lem [THEN iffD1]) simp_all

definition idle_step :: "tcp_sock \<Rightarrow> tcp_sock" where
  "idle_step x =
     (let y = x\<lparr>conn_timer := conn_timer x + 1\<rparr>
      in if conn_timer y \<ge> TCP_CLOSEWAIT_TICKS then close_sock (y\<lparr>conn_timer := 0\<rparr>) else y)"

lemma idle_step_inv:
  assumes "sock_inv x" "state x = TCP_CLOSE_WAIT"
  shows "sock_inv (idle_step x)"
    and "state (idle_step x) = TCP_CLOSE_WAIT \<or> (state (idle_step x) = TCP_LAST_ACK \<and> snd_una x = snd_nxt x \<and>
      retx_timer (idle_step x) = 10 \<and> retx_count (idle_step x) = 0)"
proof -
  define y where "y = x\<lparr>conn_timer := conn_timer x + 1\<rparr>"
  have i: "sock_ok x" "clock_ok x" "fin_ok x" using assms(1) by (simp_all add: sock_inv_def)
  have z: "sock_inv (y\<lparr>conn_timer := 0\<rparr>)" using i assms(2) by (simp add: y_def sock_inv_def clock_ok_def fin_ok_def)
  have "sock_inv y" if "\<not> conn_timer y \<ge> TCP_CLOSEWAIT_TICKS"
    using i assms(2) that by (simp add: y_def sock_inv_def clock_ok_def fin_ok_def TCP_CLOSEWAIT_TICKS_def)
  then show "sock_inv (idle_step x)" using close_sock_inv [OF z] by (simp add: idle_step_def y_def [symmetric])
  have "state (close_sock (y\<lparr>conn_timer := 0\<rparr>)) = TCP_CLOSE_WAIT \<or> (state (close_sock (y\<lparr>conn_timer := 0\<rparr>)) = TCP_LAST_ACK \<and>
      snd_una x = snd_nxt x \<and> retx_timer (close_sock (y\<lparr>conn_timer := 0\<rparr>)) = 10 \<and> retx_count (close_sock (y\<lparr>conn_timer := 0\<rparr>)) = 0)"
    using fin_out_inv [of "y\<lparr>conn_timer := 0\<rparr>"] z assms(2) by (auto simp: close_sock_def sock_inv_def y_def)
  then show "state (idle_step x) = TCP_CLOSE_WAIT \<or> (state (idle_step x) = TCP_LAST_ACK \<and> snd_una x = snd_nxt x \<and>
      retx_timer (idle_step x) = 10 \<and> retx_count (idle_step x) = 0)"
    using assms(2) by (simp add: idle_step_def Let_def y_def)
qed

lemma tick_sock_inv:
  assumes "sock_inv x"
  shows "sock_inv (tick_sock x)"
proof -
  have i: "sock_ok x" "clock_ok x" "fin_ok x" using assms by (simp_all add: sock_inv_def)
  define y where "y = x\<lparr>conn_timer := conn_timer x + 1\<rparr>"
  have ok: "sock_ok y" "fin_ok y" using i by (simp_all add: y_def fin_ok_def)
  have cl: "sock_inv (x\<lparr>state := TCP_CLOSED\<rparr>)" "sock_inv (y\<lparr>state := TCP_CLOSED\<rparr>)"
    using i by (simp_all add: y_def sock_inv_def clock_ok_def fin_ok_def)
  note t = tick_sock_def Let_def y_def [symmetric]
  show ?thesis
  proof (cases "state x")
    case TCP_TIME_WAIT
    then have "clock_ok y" if "conn_timer x < TCP_TIMEWAIT_TICKS"
      using that i timer_succ [of "conn_timer x"]
      by (simp add: y_def clock_ok_def TCP_TIMEWAIT_TICKS_def word_less_nat_alt word_le_nat_alt)
    then show ?thesis using TCP_TIME_WAIT ok cl by (simp add: t sock_inv_def)
  next
    case TCP_FIN_WAIT_2
    then have "clock_ok y" if "\<not> conn_timer y \<ge> TCP_FINWAIT2_TICKS"
      using that i by (simp add: y_def clock_ok_def TCP_FINWAIT2_TICKS_def)
    then show ?thesis using TCP_FIN_WAIT_2 ok cl by (simp add: t sock_inv_def)
  next
    case TCP_CLOSE_WAIT
    have "tick_sock x = retx_sock (idle_step x)" using TCP_CLOSE_WAIT by (simp add: tick_sock_def idle_step_def Let_def)
    then show ?thesis using retx_sock_inv [OF idle_step_inv(1)] idle_step_inv(2) [OF assms] assms TCP_CLOSE_WAIT by auto
  next
    case TCP_SYN_SENT
    then have "sock_inv y" if "\<not> conn_timer y \<ge> TCP_CONN_TIMEOUT_TICKS"
      using that i ok by (simp add: y_def sock_inv_def clock_ok_def TCP_CONN_TIMEOUT_TICKS_def)
    then show ?thesis using TCP_SYN_SENT cl retx_sock_inv [of y] by (simp add: t) (simp add: y_def)
  next
    case TCP_SYN_RECEIVED
    then have "sock_inv y" if "\<not> conn_timer y \<ge> TCP_CONN_TIMEOUT_TICKS"
      using that i ok by (simp add: y_def sock_inv_def clock_ok_def TCP_CONN_TIMEOUT_TICKS_def)
    then show ?thesis using TCP_SYN_RECEIVED cl retx_sock_inv [of y] by (simp add: t) (simp add: y_def)
  qed (use assms retx_sock_inv [OF assms] in \<open>simp_all add: tick_sock_def\<close>)
qed


section \<open>Time limits\<close>

text \<open>Ticks until the retransmission of the first segment is given up.\<close>

definition late :: "nat \<Rightarrow> nat" where "late c = sum_list (map backoff [Suc c..<6])"

definition budget :: "tcp_sock \<Rightarrow> nat" where "budget x = rto x + late (unat (retx_count x))"

lemma late_step: "c < 5 \<Longrightarrow> late c = backoff (Suc c) + late (Suc c)"
  by (simp add: late_def upt_conv_Cons)

lemma late_0: "late 0 = 460"
  by (simp add: late_def backoff_def upt_conv_Cons numeral_eq_Suc)

lemma late_le: "late c \<le> 460"
proof (cases "c < 6")
  case True
  have "c \<le> 5 \<Longrightarrow> late c \<le> late 0" by (induction c) (use late_step in force)+
  then show ?thesis using True by (simp add: late_0)
qed (simp add: late_def)

lemma retx_budget:
  assumes "clock_ok x" "state x \<noteq> TCP_CLOSED" "snd_una x \<noteq> snd_nxt x"
  shows "state (retx_sock x) = TCP_CLOSED \<or>
    (state (retx_sock x) = state x \<and> snd_una (retx_sock x) = snd_una x \<and> snd_nxt (retx_sock x) = snd_nxt x \<and>
     conn_timer (retx_sock x) = conn_timer x \<and> budget (retx_sock x) < budget x)"
  using retx_sock_cases [OF assms]
proof (elim disjE conjE exE)
  fix t assume a: "1 < rto x" "retx_sock x = x\<lparr>retx_timer := t\<rparr>" "unat t = rto x - 1"
  have "t \<noteq> 0" using a(1,3) by auto
  then show ?thesis using a by (simp add: budget_def rto_def [of "x\<lparr>retx_timer := t\<rparr>"])
next
  fix t c assume a: "rto x = 1" "retx_sock x = x\<lparr>retx_count := c, retx_timer := t\<rparr>" "unat c = unat (retx_count x) + 1"
    "unat t = backoff (unat (retx_count x) + 1)" "unat (retx_count x) < 5"
  have "t \<noteq> 0" using a(4) by (auto simp: backoff_def)
  then show ?thesis using a late_step [OF a(5)] by (simp add: budget_def rto_def [of "x\<lparr>retx_count := c, retx_timer := t\<rparr>"])
qed simp

definition waiting :: "tcp_sock \<Rightarrow> bool" where
  "waiting x \<longleftrightarrow> state x \<noteq> TCP_LISTEN \<and> (state x = TCP_ESTABLISHED \<longrightarrow> snd_una x \<noteq> snd_nxt x \<or> fin_pending x)"

definition ticks_left :: "tcp_sock \<Rightarrow> nat" where
  "ticks_left x =
     (case state x of
        TCP_CLOSED \<Rightarrow> 0
      | TCP_TIME_WAIT \<Rightarrow> 21 - unat (conn_timer x)
      | TCP_FIN_WAIT_2 \<Rightarrow> 12000 - unat (conn_timer x)
      | TCP_SYN_SENT \<Rightarrow> 500 - unat (conn_timer x)
      | TCP_SYN_RECEIVED \<Rightarrow> 500 - unat (conn_timer x)
      | TCP_FIN_WAIT_1 \<Rightarrow> budget x
      | TCP_LAST_ACK \<Rightarrow> budget x
      | _ \<Rightarrow> if snd_una x \<noteq> snd_nxt x then budget x
             else if fin_pending x then 631 else 3631 - unat (conn_timer x))"

lemma fin_out_left:
  assumes "sock_inv x" "snd_una x = snd_nxt x"
  shows "ticks_left (fin_out x) = 470" "waiting (fin_out x)"
  using fin_out_inv [of x] assms by (simp_all add: sock_inv_def ticks_left_def waiting_def budget_def rto_def late_0)

lemma retx_sock_idle:
  assumes "sock_inv x" "snd_una x = snd_nxt x" "state x = TCP_ESTABLISHED \<or> state x = TCP_CLOSE_WAIT"
  shows "fin_pending x \<Longrightarrow> ticks_left (retx_sock x) = 470 \<and> waiting (retx_sock x)"
    and "\<not> fin_pending x \<Longrightarrow> ticks_left (retx_sock x) = ticks_left x \<and> state (retx_sock x) = state x"
proof -
  have "sock_inv (x\<lparr>fin_pending := False\<rparr>)" using assms(1) by (simp add: sock_inv_def clock_ok_def fin_ok_def)
  then show "fin_pending x \<Longrightarrow> ticks_left (retx_sock x) = 470 \<and> waiting (retx_sock x)"
    using fin_out_left [of "x\<lparr>fin_pending := False\<rparr>"] assms(2,3) by (simp add: retx_sock_def)
  show "\<not> fin_pending x \<Longrightarrow> ticks_left (retx_sock x) = ticks_left x \<and> state (retx_sock x) = state x"
    using assms(2,3) by (auto simp: retx_sock_def ticks_left_def)
qed

lemma retx_sock_left:
  assumes "sock_inv x" "snd_una x \<noteq> snd_nxt x"
    "state x = TCP_ESTABLISHED \<or> state x = TCP_CLOSE_WAIT \<or> state x = TCP_FIN_WAIT_1 \<or> state x = TCP_LAST_ACK"
  shows "ticks_left (retx_sock x) < ticks_left x \<and> waiting (retx_sock x)"
proof -
  have n: "state x \<noteq> TCP_CLOSED" using assms(3) by auto
  have c: "clock_ok x" using assms(1) by (simp add: sock_inv_def)
  have "0 < budget x" by (simp add: budget_def rto_def unat_gt_0)
  moreover have "ticks_left x = budget x" using assms(2,3) by (auto simp: ticks_left_def)
  ultimately show ?thesis using retx_budget [OF c n assms(2)] assms(2,3) by (auto simp: ticks_left_def waiting_def)
qed


lemma close_wait_left:
  assumes "sock_inv x" "state x = TCP_CLOSE_WAIT"
  shows "ticks_left (tick_sock x) < ticks_left x \<and> waiting (tick_sock x)"
proof -
  have e: "tick_sock x = retx_sock (idle_step x)"
    using assms(2) by (simp add: tick_sock_def idle_step_def Let_def)
  note w = idle_step_inv [OF assms]
  have ct: "unat (conn_timer x) < 3000" using assms by (simp add: sock_inv_def clock_ok_def word_less_nat_alt)
  have q: "snd_una (idle_step x) = snd_una x" "state (idle_step x) = TCP_CLOSE_WAIT \<Longrightarrow> snd_nxt (idle_step x) = snd_nxt x"
    "state (idle_step x) = TCP_CLOSE_WAIT \<Longrightarrow> snd_una x \<noteq> snd_nxt x \<Longrightarrow> budget (idle_step x) = budget x"
    "state (idle_step x) = TCP_CLOSE_WAIT \<Longrightarrow> snd_una x = snd_nxt x \<Longrightarrow>
       conn_timer (idle_step x) = conn_timer x + 1 \<and> fin_pending (idle_step x) = fin_pending x"
    using assms(2) by (auto simp: idle_step_def close_sock_def fin_out_def Let_def budget_def rto_def)
  consider (last) "state (idle_step x) = TCP_LAST_ACK" "snd_una x = snd_nxt x"
      "retx_timer (idle_step x) = 10" "retx_count (idle_step x) = 0"
    | (busy) "state (idle_step x) = TCP_CLOSE_WAIT" "snd_una x \<noteq> snd_nxt x"
    | (idle) "state (idle_step x) = TCP_CLOSE_WAIT" "snd_una x = snd_nxt x"
    using w(2) by blast
  then show ?thesis
  proof cases
    case last
    have "snd_una (idle_step x) \<noteq> snd_nxt (idle_step x)" using w(1) last by (simp add: sock_inv_def fin_ok_def)
    moreover have "ticks_left (idle_step x) = 470" using last by (simp add: ticks_left_def budget_def rto_def late_0)
    moreover have "630 < ticks_left x" using last(2) assms(2) ct by (simp add: ticks_left_def, linarith)
    ultimately show ?thesis using retx_sock_left [OF w(1)] last(1) unfolding e by fastforce
  next
    case busy
    then have "ticks_left (idle_step x) = ticks_left x" using q assms(2) by (simp add: ticks_left_def)
    then show ?thesis using retx_sock_left [OF w(1)] busy q unfolding e by force
  next
    case idle
    have u: "snd_una (idle_step x) = snd_nxt (idle_step x)" using idle q by simp
    note r = retx_sock_idle [OF w(1) u]
    show ?thesis
    proof (cases "fin_pending x")
      case True
      then show ?thesis using r(1) idle q assms(2) unfolding e by (simp add: ticks_left_def [of x])
    next
      case False
      then have "ticks_left (idle_step x) < ticks_left x"
        using idle q assms(2) ct timer_succ [of "conn_timer x"] by (simp add: ticks_left_def)
      then show ?thesis using r(2) idle q False unfolding e by (simp add: waiting_def)
    qed
  qed
qed

lemma counted_left:
  assumes "sock_inv x" "state x = TCP_SYN_SENT \<or> state x = TCP_SYN_RECEIVED"
  shows "ticks_left (tick_sock x) < ticks_left x \<and> waiting (tick_sock x)"
proof -
  define y where "y = x\<lparr>conn_timer := conn_timer x + 1\<rparr>"
  have ct: "unat (conn_timer x) < 500" using assms by (auto simp: sock_inv_def clock_ok_def word_less_nat_alt)
  then have l: "0 < ticks_left x" "ticks_left y < ticks_left x"
    using assms(2) timer_succ [of "conn_timer x"] by (auto simp: ticks_left_def y_def)
  have t: "tick_sock x = (if conn_timer y \<ge> TCP_CONN_TIMEOUT_TICKS then y\<lparr>state := TCP_CLOSED\<rparr> else retx_sock y)"
    using assms(2) by (auto simp: tick_sock_def y_def Let_def)
  have c: "clock_ok y" if "\<not> conn_timer y \<ge> TCP_CONN_TIMEOUT_TICKS"
    using that assms by (auto simp: y_def sock_inv_def clock_ok_def TCP_CONN_TIMEOUT_TICKS_def)
  have s: "state y = state x" "state x \<noteq> TCP_CLOSED" using assms(2) by (auto simp: y_def)
  have r: "state (retx_sock y) = TCP_CLOSED \<or> (state (retx_sock y) = state x \<and> conn_timer (retx_sock y) = conn_timer y)"
    if "\<not> conn_timer y \<ge> TCP_CONN_TIMEOUT_TICKS"
  proof (cases "snd_una y = snd_nxt y")
    case True
    then show ?thesis using assms(2) s by (auto simp: retx_sock_def)
  next
    case False
    then show ?thesis using retx_budget [OF c [OF that]] s by auto
  qed
  have "ticks_left (y\<lparr>state := TCP_CLOSED\<rparr>) = 0" "waiting (y\<lparr>state := TCP_CLOSED\<rparr>)"
    by (simp_all add: ticks_left_def waiting_def)
  moreover have "ticks_left z < ticks_left x \<and> waiting z"
    if "state z = TCP_CLOSED \<or> (state z = state x \<and> conn_timer z = conn_timer y)" for z
    using that l assms(2) s by (auto simp: ticks_left_def waiting_def)
  ultimately show ?thesis using r l(1) unfolding t by auto
qed

lemma tick_left:
  assumes "sock_inv x" "waiting x" "state x \<noteq> TCP_CLOSED"
  shows "ticks_left (tick_sock x) < ticks_left x \<and> waiting (tick_sock x)"
proof -
  have i: "clock_ok x" "fin_ok x" using assms(1) by (simp_all add: sock_inv_def)
  show ?thesis
  proof (cases "state x")
    case TCP_TIME_WAIT
    then show ?thesis using i timer_succ [of "conn_timer x"]
      by (auto simp: tick_sock_def ticks_left_def waiting_def clock_ok_def TCP_TIMEWAIT_TICKS_def word_less_nat_alt word_le_nat_alt)
  next
    case TCP_FIN_WAIT_2
    then show ?thesis using i timer_succ [of "conn_timer x"]
      by (auto simp: tick_sock_def ticks_left_def waiting_def clock_ok_def word_less_nat_alt Let_def)
  next
    case TCP_ESTABLISHED
    then have t: "tick_sock x = retx_sock x" by (simp add: tick_sock_def)
    show ?thesis
    proof (cases "snd_una x = snd_nxt x")
      case True
      then have "fin_pending x" "ticks_left x = 631" using assms(2) TCP_ESTABLISHED by (simp_all add: waiting_def ticks_left_def)
      then show ?thesis using retx_sock_idle(1) [OF assms(1) True] TCP_ESTABLISHED t by simp
    qed (use retx_sock_left [OF assms(1)] TCP_ESTABLISHED t in simp)
  next
    case TCP_FIN_WAIT_1
    then show ?thesis using retx_sock_left [OF assms(1)] i by (simp add: tick_sock_def fin_ok_def)
  next
    case TCP_LAST_ACK
    then show ?thesis using retx_sock_left [OF assms(1)] i by (simp add: tick_sock_def fin_ok_def)
  qed (use assms close_wait_left [OF assms(1)] counted_left [OF assms(1)] in \<open>simp_all add: waiting_def\<close>)
qed

lemma tick_closed [simp]: "state x = TCP_CLOSED \<Longrightarrow> tick_sock x = x"
  by (simp add: tick_sock_def)

lemma ticks_close:
  assumes "sock_inv x" "waiting x" "ticks_left x \<le> n"
  shows "state ((tick_sock ^^ n) x) = TCP_CLOSED"
  using assms
proof (induction n arbitrary: x)
  case 0
  have "ticks_left x \<noteq> 0" if "state x \<noteq> TCP_CLOSED" using tick_left [OF 0(1,2) that] by linarith
  then show ?case using 0(3) by auto
next
  case (Suc n)
  show ?case
  proof (cases "state x = TCP_CLOSED")
    case True
    have "(tick_sock ^^ m) x = x" for m by (induction m) (simp_all add: True)
    then show ?thesis using True by metis
  next
    case False
    then show ?thesis using Suc.IH [of "tick_sock x"] tick_left [OF Suc.prems(1,2) False] tick_sock_inv [OF Suc.prems(1)]
        Suc.prems(3) by (simp add: funpow_Suc_right del: funpow.simps)
  qed
qed

lemma ticks_left_le: "sock_inv x \<Longrightarrow> ticks_left x \<le> 12000"
proof -
  assume "sock_inv x"
  then have "retx_timer x \<le> 160" by (simp add: sock_inv_def clock_ok_def)
  then have "rto x \<le> 160" by (auto simp: rto_def word_le_nat_alt)
  then have "budget x \<le> 620" using late_le [of "unat (retx_count x)"] by (simp add: budget_def)
  then show ?thesis by (auto simp: ticks_left_def split: tcp_state.split)
qed

end
