(* ===== verification/Tcp_System.thy ===== *)
theory Tcp_System
  imports Tcp_Tick
begin

text \<open>
  Every TCP operation as a step of the socket table: a socket keeps its connection or is set up afresh
  with a new generation.  The states reachable by any sequence of operations satisfy the socket
  invariant.  Operations do not overlap: \<open>tcp_listen\<close>, \<open>tcp_accept\<close> and the generation-checked calls run
  with interrupts masked, and \<open>tcp_rx\<close> and \<open>tcp_tick\<close> when called from an interrupt, but \<open>tcp_connect\<close>,
  \<open>tcp_send\<close>, \<open>tcp_recv\<close>, \<open>tcp_close\<close>, \<open>tcp_abort\<close> and a \<open>tcp_rx\<close> that comes from polling do not mask them.
  For these, that the receive interrupt and the timer do not intervene is an assumption of the theories
  on TCP, which the code leaves to its callers.
\<close>

section \<open>How a socket may change\<close>

definition evolves :: "tcp_sock \<Rightarrow> tcp_sock \<Rightarrow> bool" where
  "evolves x y \<longleftrightarrow> (sock_inv x \<longrightarrow> sock_inv y) \<and> conn_gen y = conn_gen x \<and> local_port y = local_port x \<and>
     (state x = TCP_CLOSED \<longrightarrow> state y = TCP_CLOSED) \<and> (state y = TCP_LISTEN \<longrightarrow> state x = TCP_LISTEN)"

lemma evolves_refl [simp]: "evolves x x" by (simp add: evolves_def)

lemma evolves_trans: "evolves x y \<Longrightarrow> evolves y z \<Longrightarrow> evolves x z"
  unfolding evolves_def by (elim conjE, intro conjI impI) simp_all

definition same_conns :: "'a tcp_net_scheme \<Rightarrow> 'a tcp_net_scheme \<Rightarrow> bool" where
  "same_conns s s' \<longleftrightarrow> (\<forall>j. evolves (sk s j) (sk s' j)) \<and> g_conn_gen_next s' = g_conn_gen_next s"

definition new_conn :: "'a tcp_net_scheme \<Rightarrow> 'a tcp_net_scheme \<Rightarrow> bool" where
  "new_conn s s' \<longleftrightarrow> (\<exists>i<8. (\<forall>j. j \<noteq> i \<longrightarrow> evolves (sk s j) (sk s' j)) \<and>
     sock_inv (sk s' i) \<and> conn_gen (sk s' i) = g_conn_gen_next s \<and> 
     (state (sk s' i) = TCP_LISTEN \<longrightarrow> (\<forall>j<8. \<not> (state (sk s j) = TCP_LISTEN \<and> local_port (sk s j) = local_port (sk s' i))))) \<and>
     g_conn_gen_next s' = (if g_conn_gen_next s + 1 = 0 then 1 else g_conn_gen_next s + 1)"

lemma same_conns_refl: "same_conns s s" by (simp add: same_conns_def)

lemma same_conns_upd: "sock_upd i x s s' \<Longrightarrow> evolves (sk s i) x \<Longrightarrow> same_conns s s'"
  by (simp add: same_conns_def sock_upd_def)

lemma same_then_new:
  assumes "same_conns s s1" "new_conn s1 s2" "\<And>j. state (sk s j) = TCP_LISTEN \<Longrightarrow> state (sk s1 j) = TCP_LISTEN"
  shows "new_conn s s2"
proof -
  have e: "evolves (sk s j) (sk s1 j)" for j using assms(1) by (simp add: same_conns_def)
  have g: "g_conn_gen_next s1 = g_conn_gen_next s" using assms(1) by (simp add: same_conns_def)
  obtain i where i: "i < 8" "\<forall>j. j \<noteq> i \<longrightarrow> evolves (sk s1 j) (sk s2 j)" "sock_inv (sk s2 i)" "conn_gen (sk s2 i) = g_conn_gen_next s1"
     "state (sk s2 i) = TCP_LISTEN \<longrightarrow> (\<forall>j<8. \<not> (state (sk s1 j) = TCP_LISTEN \<and> local_port (sk s1 j) = local_port (sk s2 i)))"
     "g_conn_gen_next s2 = (if g_conn_gen_next s1 + 1 = 0 then 1 else g_conn_gen_next s1 + 1)"
    using assms(2) unfolding new_conn_def by (elim exE conjE) (rule that)
  have "\<forall>j. j \<noteq> i \<longrightarrow> evolves (sk s j) (sk s2 j)" using i(2) e evolves_trans by blast
  moreover have "local_port (sk s1 j) = local_port (sk s j)" for j using e [of j] by (simp add: evolves_def)
  ultimately show ?thesis unfolding new_conn_def using i assms(3) unfolding g by (intro conjI exI [of _ i]) auto
qed

section \<open>The receiver\<close>

lemma retire_form: "\<exists>h n. retire ack x = x\<lparr>retx_head := h, retx_nseg := n\<rparr>"
proof (induction ack x rule: retire.induct)
  case (1 ack x)
  show ?case
  proof (cases "retx_nseg x = 0 \<or> seq_gt (seg_end (retx_q x (retx_head x))) ack")
    case True
    then have "retire ack x = x" by (subst retire.simps) simp
    then show ?thesis using same_queue by metis
  next
    case False
    then show ?thesis using 1 by (subst retire.simps) auto
  qed
qed

lemma rx_ack_sel [simp]: "conn_gen (tcp_rx_ack ack wnd x) = conn_gen x" "local_port (tcp_rx_ack ack wnd x) = local_port x"
  "state (tcp_rx_ack ack wnd x) = state x"
  using retire_form [of ack "x\<lparr>snd_una := ack\<rparr>"] by (auto simp: tcp_rx_ack_def Let_def)

lemma data_in_sel [simp]: "conn_gen (data_in sq bs x) = conn_gen x" "local_port (data_in sq bs x) = local_port x"
  "state (data_in sq bs x) = state x"
  by (simp_all add: data_in_def Let_def split_beta)

lemma data_opt_sel [simp]: "conn_gen (data_opt sq bs x) = conn_gen x" "local_port (data_opt sq bs x) = local_port x"
  "state (data_opt sq bs x) = state x"
  by (simp_all add: data_opt_def)

lemma state_in_sel: "conn_gen (state_in sq ack flags bs x) = conn_gen x" "local_port (state_in sq ack flags bs x) = local_port x"
  "state (state_in sq ack flags bs x) = TCP_LISTEN \<Longrightarrow> state x = TCP_LISTEN"
  "state x = TCP_CLOSED \<Longrightarrow> state (state_in sq ack flags bs x) = TCP_CLOSED"
  by (cases "state x"; simp add: state_in_def fin_in_def fw1_acked_def split: if_splits)+

lemma sock_in_evolves:
  assumes "length bs < 2 ^ 16"
  shows "evolves x (sock_in sq ack flags wnd bs x)"
proof -
  define y where "y = (if has flags TCP_ACK then tcp_rx_ack ack wnd x else x)"
  have y: "conn_gen y = conn_gen x" "local_port y = local_port x" "state y = state x" by (simp_all add: y_def)
  have e: "sock_in sq ack flags wnd bs x = (if has flags TCP_RST then y\<lparr>state := TCP_CLOSED\<rparr> else state_in sq ack flags bs y)"
    by (simp add: sock_in_def y_def Let_def)
  have "sock_inv x \<Longrightarrow> sock_inv (sock_in sq ack flags wnd bs x)" by (rule sock_in_inv [OF _ assms])
  moreover have "conn_gen (sock_in sq ack flags wnd bs x) = conn_gen x \<and> local_port (sock_in sq ack flags wnd bs x) = local_port x \<and>
     (state x = TCP_CLOSED \<longrightarrow> state (sock_in sq ack flags wnd bs x) = TCP_CLOSED) \<and>
     (state (sock_in sq ack flags wnd bs x) = TCP_LISTEN \<longrightarrow> state x = TCP_LISTEN)"
    using state_in_sel [where sq = sq and ack = ack and flags = flags and bs = bs and x = y] y unfolding e by auto
  ultimately show ?thesis unfolding evolves_def by blast
qed

lemma alloc_sock_less: "alloc_sock s = Some i \<Longrightarrow> i < 8"
  by (simp add: alloc_sock_def first_index_Some TCP_MAX_SOCKETS_def)

lemma spawn_new:
  assumes "ns < 8"
  shows "new_conn s (tcp_spawn ns src_ip src_port dst_port sq s)"
proof -
  define x where "x = sock_zero\<lparr>conn_gen := g_conn_gen_next s, state := TCP_SYN_RECEIVED, local_ip := g_my_ip s,
      local_port := dst_port, remote_ip := src_ip, remote_port := src_port, rcv_nxt := sq + 1,
      snd_nxt := g_isn_counter s, snd_una := g_isn_counter s\<rparr>"
  have "sock_inv x" using sock_inv_zero [where st = TCP_SYN_RECEIVED and a = "g_my_ip s" and b = dst_port and c = src_ip and d = src_port and
      v = "g_isn_counter s" and e = "sq + 1" and f = False and g = "g_conn_gen_next s"]
    by (simp add: x_def sock_zero_def)
  then have i: "sock_inv (seg_sent (TCP_SYN OR TCP_ACK) [] x)" by (intro seg_sent_inv) (simp_all add: x_def sock_zero_def)
  have t: "tcp_socks (tcp_spawn ns src_ip src_port dst_port sq s) = (tcp_socks s)(ns := seg_sent (TCP_SYN OR TCP_ACK) [] x)"
    "g_conn_gen_next (tcp_spawn ns src_ip src_port dst_port sq s) = (if g_conn_gen_next s + 1 = 0 then 1 else g_conn_gen_next s + 1)"
    by (simp_all add: tcp_spawn_def next_conn_gen_def x_def Let_def)
  show ?thesis unfolding new_conn_def t
    using assms i by (intro conjI exI [of _ ns]) (simp_all add: x_def)
qed

lemma rx_none_step: "same_conns s (tcp_rx_none a b c d e f g h s) \<or> new_conn s (tcp_rx_none a b c d e f g h s)"
  unfolding tcp_rx_none_def Let_def
  by (auto simp: same_conns_def dest: alloc_sock_less intro: spawn_new split: option.split)

lemma tcp_rx_step: "same_conns s (tcp_rx src dst pkt len s) \<or> new_conn s (tcp_rx src dst pkt len s)"
proof -
  have d: "length (slice pkt off (unat len - off)) < 2 ^ 16" for off
    using unsigned_less [of len, where 'a = nat] by (simp add: slice_def)
  have r: "same_conns s (tcp_rx_sock i sq ack flags wnd bs s)" if "length bs < 2 ^ 16" for i sq ack flags wnd bs
    using same_conns_upd [OF rx_sock_upd sock_in_evolves [OF that]] .
  have w: "same_conns s (tcp_rx_none a b c d e f g h (upd_sock i (\<lambda>x. x\<lparr>state := TCP_CLOSED\<rparr>) s)) \<or>
      new_conn s (tcp_rx_none a b c d e f g h (upd_sock i (\<lambda>x. x\<lparr>state := TCP_CLOSED\<rparr>) s))"
    if "state (sk s i) = TCP_TIME_WAIT" for a b c d e f g h i
  proof -
    let ?u = "upd_sock i (\<lambda>x. x\<lparr>state := TCP_CLOSED\<rparr>) s"
    have u: "same_conns s ?u"
      by (auto simp: same_conns_def evolves_def sock_inv_def clock_ok_def fin_ok_def)
    have k: "state (sk s j) = TCP_LISTEN \<Longrightarrow> state (sk ?u j) = TCP_LISTEN" for j using that by auto
    show ?thesis using rx_none_step [of ?u a b c d e f g h]
    proof
      assume "same_conns ?u (tcp_rx_none a b c d e f g h ?u)"
      then show ?thesis using u evolves_trans by (fastforce simp: same_conns_def)
    qed (use same_then_new [OF u _ k] in blast)
  qed
  show ?thesis
    by (simp only: tcp_rx_def Let_def split: if_split option.split)
      (intro conjI impI allI; ((rule disjI1, rule same_conns_refl) | rule rx_none_step | (erule conjE, rule w, assumption)
        | (rule disjI1, rule r, rule d)))
qed


section \<open>The calls\<close>

lemma pick_port_tcp [simp]:
  "tcp_socks (snd (pick_port k s)) = tcp_socks s" "g_conn_gen_next (snd (pick_port k s)) = g_conn_gen_next s"
  "g_isn_counter (snd (pick_port k s)) = g_isn_counter s" "g_my_ip (snd (pick_port k s)) = g_my_ip s"
  by (induction k arbitrary: s) (simp_all add: Let_def)

lemma connect_new:
  assumes "alloc_sock s = Some i"
  shows "new_conn s (snd (tcp_connect dst_ip dst_port lport s))"
proof -
  define x0 where "x0 = sock_zero\<lparr>conn_gen := g_conn_gen_next s, state := TCP_SYN_SENT, local_ip := g_my_ip s\<rparr>"
  define u where "u = upd_sock i (\<lambda>_. x0) (snd (next_conn_gen s))"
  define ps where "ps = (if lport \<noteq> 0 then (lport, u) else pick_ephemeral_port u)"
  obtain p s1 where p: "ps = (p, s1)" by (cases ps) auto
  have "s1 = u \<or> s1 = snd (pick_port 16384 u)" using p by (auto simp: ps_def pick_ephemeral_port_def split: if_splits)
  then have s1: "tcp_socks s1 = (tcp_socks s)(i := x0)" "g_isn_counter s1 = g_isn_counter s"
    "g_conn_gen_next s1 = (if g_conn_gen_next s + 1 = 0 then 1 else g_conn_gen_next s + 1)"
    by (elim disjE; simp add: u_def next_conn_gen_def Let_def)+
  define x where "x = x0\<lparr>local_port := p, remote_ip := dst_ip, remote_port := dst_port, accepted := True,
      snd_nxt := g_isn_counter s, snd_una := g_isn_counter s\<rparr>"
  have "sock_inv x"
    using sock_inv_zero [where st = TCP_SYN_SENT and a = "g_my_ip s" and b = p and c = dst_ip and d = dst_port and
      v = "g_isn_counter s" and e = 0 and f = True and g = "g_conn_gen_next s"] by (simp add: x_def x0_def sock_zero_def)
  then have i: "sock_inv (seg_sent TCP_SYN [] x)" by (intro seg_sent_inv) (simp_all add: x_def x0_def sock_zero_def)
  have "tcp_connect dst_ip dst_port lport s = (case ps of (p, s1) \<Rightarrow> (int i, tcp_send_seg i TCP_SYN []
      ((upd_sock i (\<lambda>x. x\<lparr>local_port := p, remote_ip := dst_ip, remote_port := dst_port, accepted := True,
          snd_nxt := g_isn_counter s1, snd_una := g_isn_counter s1\<rparr>) s1)\<lparr>g_isn_counter := g_isn_counter s1 + 0x10000\<rparr>)))"
    unfolding tcp_connect_def ps_def u_def x0_def by (simp add: assms next_conn_gen_def Let_def)
  then have t: "tcp_socks (snd (tcp_connect dst_ip dst_port lport s)) = (tcp_socks s)(i := seg_sent TCP_SYN [] x)"
    "g_conn_gen_next (snd (tcp_connect dst_ip dst_port lport s)) = g_conn_gen_next s1"
    using s1 by (simp_all add: x_def p)
  show ?thesis unfolding new_conn_def t s1(3)
    using alloc_sock_less [OF assms] i by (intro conjI exI [of _ i]) (simp_all add: x_def x0_def)
qed

lemma listen_new:
  assumes "alloc_sock s = Some i"
    "first_index (\<lambda>i. state (sk s i) = TCP_LISTEN \<and> local_port (sk s i) = lport) TCP_MAX_SOCKETS = None"
  shows "new_conn s (snd (tcp_listen lport s))"
proof -
  define x where "x = sock_zero\<lparr>conn_gen := g_conn_gen_next s, state := TCP_LISTEN, local_ip := g_my_ip s, local_port := lport\<rparr>"
  have i: "sock_inv x"
    using sock_inv_zero [where st = TCP_LISTEN and a = "g_my_ip s" and b = lport and c = 0 and d = 0 and
      v = 0 and e = 0 and f = False and g = "g_conn_gen_next s"] by (simp add: x_def sock_zero_def)
  have t: "tcp_socks (snd (tcp_listen lport s)) = (tcp_socks s)(i := x)"
    "g_conn_gen_next (snd (tcp_listen lport s)) = (if g_conn_gen_next s + 1 = 0 then 1 else g_conn_gen_next s + 1)"
    using assms by (simp_all add: tcp_listen_def next_conn_gen_def x_def Let_def)
  have "\<forall>j<8. \<not> (state (sk s j) = TCP_LISTEN \<and> local_port (sk s j) = lport)"
    using assms(2) by (simp add: first_index_None TCP_MAX_SOCKETS_def)
  then show ?thesis unfolding new_conn_def t
    using alloc_sock_less [OF assms(1)] i by (intro conjI exI [of _ i]) (simp_all add: x_def)
qed

lemma fin_out_sel [simp]: "conn_gen (fin_out x) = conn_gen x" "local_port (fin_out x) = local_port x"
  by (simp_all add: fin_out_def)

lemma close_sock_evolves: "evolves x (close_sock x)"
  unfolding evolves_def using close_sock_inv [of x] by (auto simp: close_sock_def fin_out_def)

lemma retx_sock_sel: "conn_gen (retx_sock x) = conn_gen x \<and> local_port (retx_sock x) = local_port x \<and>
    (state (retx_sock x) = TCP_LISTEN \<longrightarrow> state x = TCP_LISTEN)"
  by (simp add: retx_sock_def fin_out_def Let_def)

lemma tick_sock_evolves: "evolves x (tick_sock x)"
proof -
  have c: "conn_gen (close_sock y) = conn_gen y \<and> local_port (close_sock y) = local_port y \<and>
      (state (close_sock y) = TCP_LISTEN \<longrightarrow> state y = TCP_LISTEN)" for y
    using close_sock_evolves [of y] by (simp add: evolves_def)
  have "conn_gen (tick_sock x) = conn_gen x \<and> local_port (tick_sock x) = local_port x \<and>
    (state (tick_sock x) = TCP_LISTEN \<longrightarrow> state x = TCP_LISTEN)"
  proof (cases "state x")
    case TCP_CLOSE_WAIT
    let ?y = "x\<lparr>conn_timer := conn_timer x + 1\<rparr>"
    let ?w = "if conn_timer ?y \<ge> TCP_CLOSEWAIT_TICKS then close_sock (?y\<lparr>conn_timer := 0\<rparr>) else ?y"
    have "tick_sock x = retx_sock ?w" using TCP_CLOSE_WAIT by (simp add: tick_sock_def Let_def)
    then show ?thesis using retx_sock_sel [of ?w] c [of "?y\<lparr>conn_timer := 0\<rparr>"] by (auto split: if_splits)
  next
    case TCP_SYN_SENT
    then show ?thesis using retx_sock_sel [of "x\<lparr>conn_timer := conn_timer x + 1\<rparr>"] by (simp add: tick_sock_def Let_def)
  next
    case TCP_SYN_RECEIVED
    then show ?thesis using retx_sock_sel [of "x\<lparr>conn_timer := conn_timer x + 1\<rparr>"] by (simp add: tick_sock_def Let_def)
  qed (use retx_sock_sel [of x] in \<open>simp_all add: tick_sock_def Let_def\<close>)
  then show ?thesis using tick_sock_inv [of x] by (auto simp: evolves_def)
qed


lemma sock_inv_misc:
  assumes "sock_inv x"
  shows "sock_inv (x\<lparr>state := TCP_CLOSED\<rparr>)" "sock_inv (x\<lparr>accepted := a\<rparr>)" "sock_inv (x\<lparr>conn_timer := 0\<rparr>)"
    "h < 4096 \<Longrightarrow> sock_inv (x\<lparr>rx_head := h\<rparr>)"
  using assms sock_ok_head [of x h] by (simp_all add: sock_inv_def clock_ok_def fin_ok_def)

lemma send_step: "same_conns s (snd (tcp_send k bs s))"
proof (cases "snd (tcp_send k bs s) = s")
  case True
  then show ?thesis by (simp add: same_conns_refl)
next
  case False
  let ?x = "sk s (nat k)"
  have g: "state ?x = TCP_ESTABLISHED \<or> state ?x = TCP_CLOSE_WAIT" "bs \<noteq> []" "retx_nseg ?x < 8"
    "\<not> snd_nxt ?x - snd_una ?x \<ge> ucast (snd_wnd ?x)" "valid_sock k" "\<not> fin_pending ?x"
    using False by (auto simp: tcp_send_def Let_def TCP_RETX_SLOTS_def split: if_splits)
  define ds where "ds = take (min (min (length bs) (unat (ucast (snd_wnd ?x) - (snd_nxt ?x - snd_una ?x)))) TCP_MSS) bs"
  define y where "y = seg_sent (TCP_PSH OR TCP_ACK) ds ?x"
  have "0 < unat (ucast (snd_wnd ?x) - (snd_nxt ?x - snd_una ?x) :: u32)"
    using g(4) by (metis not_le order_refl right_minus_eq unat_gt_0)
  then have "ds \<noteq> []" using g(2) by (simp add: ds_def TCP_MSS_def)
  then have i: "sock_inv ?x \<Longrightarrow> sock_inv y" unfolding y_def using g(3) by (intro seg_sent_inv) simp_all
  have "sock_upd (nat k) (if state y = TCP_CLOSE_WAIT then y\<lparr>conn_timer := 0\<rparr> else y) s (snd (tcp_send k bs s))"
    using g unfolding tcp_send_def Let_def ds_def [symmetric] by (auto simp: sock_upd_def y_def TCP_RETX_SLOTS_def ds_def)
  then show ?thesis
    by (rule same_conns_upd) (use i sock_inv_misc(3) [of y] in \<open>auto simp: evolves_def y_def\<close>)
qed

lemma recv_step: "same_conns s (snd (tcp_recv k n s))"
proof (cases "valid_sock k")
  case True
  let ?x = "sk s (nat k)"
  obtain out h where g: "rbuf_get (rx_buf ?x) (rx_head ?x) (rx_tail ?x) TCP_RX_BUF_SIZE (unat n) = (out, h)" by force
  have h: "h < 4096" if "sock_inv ?x"
    using rbuf_get_spec [of 4096 "rx_head ?x" "rx_tail ?x" "rx_buf ?x" "unat n"] that g
    by (auto simp: sock_inv_def sock_ok_def TCP_RX_BUF_SIZE_def)
  define y where "y = (if out \<noteq> [] \<and> state ?x = TCP_CLOSE_WAIT then ?x\<lparr>rx_head := h, conn_timer := 0\<rparr> else ?x\<lparr>rx_head := h\<rparr>)"
  have u: "sock_upd (nat k) y s (snd (tcp_recv k n s))"
    using True g unfolding tcp_recv_def Let_def by (auto simp: sock_upd_def y_def)
  have "sock_inv ?x \<Longrightarrow> sock_inv y"
    using sock_inv_misc(4) [OF _ h] sock_inv_misc(3) [of "?x\<lparr>rx_head := h\<rparr>"] by (simp add: y_def)
  moreover have "conn_gen y = conn_gen ?x" "local_port y = local_port ?x" "state y = state ?x" by (simp_all add: y_def)
  ultimately have "evolves ?x y" by (simp add: evolves_def)
  then show ?thesis by (rule same_conns_upd [OF u])
qed (simp add: tcp_recv_def same_conns_refl)

lemma abort_step: "same_conns s (tcp_abort k s)"
  using sock_inv_misc(1) by (auto simp: tcp_abort_def same_conns_def evolves_def)

lemma close_step: "same_conns s (tcp_close k s)"
proof (cases "valid_sock k")
  case True
  show ?thesis by (rule same_conns_upd [OF tcp_close_upd [OF True] close_sock_evolves])
qed (simp add: tcp_close_def same_conns_refl)

lemma accept_step: "same_conns s (snd (tcp_accept l s))"
  using sock_inv_misc(2) by (auto simp: tcp_accept_def same_conns_def evolves_def split: option.split)

lemma tick_step: "same_conns s (tcp_tick s)"
  using tick_sock_evolves by (simp add: same_conns_def tcp_tick_socks)

section \<open>Reachable states\<close>

datatype tcp_op =
    Rx u32 u32 mem u16 | Connect u32 u16 u16 | Listen u16 | Accept int | Send int "u8 list" | Recv int u16
  | Close int | Abort int | ConnSend int u32 "u8 list" | ConnRecv int u32 u16 | ConnClose int u32 | ConnAbort int u32 | Tick

fun tcp_exec :: "tcp_op \<Rightarrow> 'a tcp_net_scheme \<Rightarrow> 'a tcp_net_scheme" where
  "tcp_exec (Rx src dst pkt len) s = tcp_rx src dst pkt len s"
| "tcp_exec (Connect ip port lport) s = snd (tcp_connect ip port lport s)"
| "tcp_exec (Listen port) s = snd (tcp_listen port s)"
| "tcp_exec (Accept l) s = snd (tcp_accept l s)"
| "tcp_exec (Send k bs) s = snd (tcp_send k bs s)"
| "tcp_exec (Recv k n) s = snd (tcp_recv k n s)"
| "tcp_exec (Close k) s = tcp_close k s"
| "tcp_exec (Abort k) s = tcp_abort k s"
| "tcp_exec (ConnSend k g bs) s = snd (tcp_conn_send k g bs s)"
| "tcp_exec (ConnRecv k g n) s = snd (tcp_conn_recv k g n s)"
| "tcp_exec (ConnClose k g) s = tcp_conn_close k g s"
| "tcp_exec (ConnAbort k g) s = tcp_conn_abort k g s"
| "tcp_exec Tick s = tcp_tick s"

lemma tcp_exec_step: "same_conns s (tcp_exec a s) \<or> new_conn s (tcp_exec a s)"
proof (cases a)
  case (Rx src dst pkt len)
  then show ?thesis by (simp add: tcp_rx_step)
next
  case (Connect ip port lport)
  then show ?thesis using connect_new [of s] by (cases "alloc_sock s") (auto simp: tcp_connect_def same_conns_refl)
next
  case (Listen port)
  then show ?thesis using listen_new [of s _ port]
    by (cases "alloc_sock s"; cases "first_index (\<lambda>i. state (sk s i) = TCP_LISTEN \<and> local_port (sk s i) = port) TCP_MAX_SOCKETS")
      (auto simp: tcp_listen_def same_conns_refl)
next
  case (ConnAbort k g)
  then show ?thesis using abort_step [of s k] by (auto simp: tcp_conn_abort_def tcp_abort_def conn_matches_def same_conns_refl)
qed (simp_all add: accept_step send_step recv_step close_step abort_step tick_step tcp_conn_send_def tcp_conn_recv_def
    tcp_conn_close_def same_conns_refl)

inductive tcp_reach :: "'a tcp_net_scheme \<Rightarrow> bool" where
  boot: "tcp_socks s = (\<lambda>_. sock_zero) \<Longrightarrow> g_conn_gen_next s = 1 \<Longrightarrow> tcp_reach s"
| op: "tcp_reach s \<Longrightarrow> tcp_reach (tcp_exec a s)"
| other: "tcp_reach s \<Longrightarrow> tcp_socks s' = tcp_socks s \<Longrightarrow> g_conn_gen_next s' = g_conn_gen_next s \<Longrightarrow> tcp_reach s'"

definition tcp_inv :: "'a tcp_net_scheme \<Rightarrow> bool" where
  "tcp_inv s \<longleftrightarrow> (\<forall>j. sock_inv (sk s j)) \<and> g_conn_gen_next s \<noteq> 0 \<and>
     (\<forall>i<8. \<forall>j<8. i \<noteq> j \<longrightarrow> state (sk s i) = TCP_LISTEN \<longrightarrow> state (sk s j) = TCP_LISTEN \<longrightarrow> local_port (sk s i) \<noteq> local_port (sk s j))"

lemma same_conns_inv: "tcp_inv s \<Longrightarrow> same_conns s s' \<Longrightarrow> tcp_inv s'"
  unfolding tcp_inv_def same_conns_def evolves_def by metis

lemma new_conn_inv:
  assumes "tcp_inv s" "new_conn s s'"
  shows "tcp_inv s'"
proof -
  obtain i where i: "i < 8" "\<forall>j. j \<noteq> i \<longrightarrow> evolves (sk s j) (sk s' j)" "sock_inv (sk s' i)"
     "state (sk s' i) = TCP_LISTEN \<longrightarrow> (\<forall>j<8. \<not> (state (sk s j) = TCP_LISTEN \<and> local_port (sk s j) = local_port (sk s' i)))"
     "g_conn_gen_next s' = (if g_conn_gen_next s + 1 = 0 then 1 else g_conn_gen_next s + 1)"
    using assms(2) unfolding new_conn_def by (elim exE conjE) (rule that)
  have "sock_inv (sk s' j)" for j using i(2,3) assms(1) by (cases "j = i") (auto simp: tcp_inv_def evolves_def)
  moreover have o: "state (sk s j) = TCP_LISTEN \<and> local_port (sk s' j) = local_port (sk s j)"
    if "j \<noteq> i" "state (sk s' j) = TCP_LISTEN" for j using i(2) that by (auto simp: evolves_def)
  have "local_port (sk s' k) \<noteq> local_port (sk s' j)"
    if "k < 8" "j < 8" "k \<noteq> j" "state (sk s' k) = TCP_LISTEN" "state (sk s' j) = TCP_LISTEN" for k j
    using o [of k] o [of j] i(4) that assms(1) unfolding tcp_inv_def by metis
  moreover have "g_conn_gen_next s' \<noteq> 0" using i(5) by simp
  ultimately show ?thesis unfolding tcp_inv_def by blast
qed

lemma tcp_reach_inv: "tcp_reach s \<Longrightarrow> tcp_inv s"
proof (induction rule: tcp_reach.induct)
  case (boot s)
  have "sock_inv sock_zero"
    using sock_inv_zero [where st = TCP_CLOSED and a = 0 and b = 0 and c = 0 and d = 0 and v = 0 and e = 0 and f = False and g = 0]
    by (simp add: sock_zero_def)
  moreover have "state sock_zero = TCP_CLOSED" by (simp add: sock_zero_def)
  ultimately show ?case using boot by (simp add: tcp_inv_def)
next
  case (op s a)
  then show ?case using tcp_exec_step [of s a] same_conns_inv new_conn_inv by blast
next
  case (other s s')
  then show ?case by (simp add: tcp_inv_def)
qed

end
