(* ===== verification/Udp_Queue.thy ===== *)
theory Udp_Queue
  imports Net_Ring
begin

text \<open>
  A UDP socket's receive side is a bounded queue of datagrams: the ring holds their bytes back to back
  and the descriptor ring their sources and lengths.
\<close>

section \<open>Skipping bytes\<close>

lemma rbuf_get_head:
  assumes "1 < sz" "h < sz" "t < sz" "n \<le> ring_len sz h t"
  shows "unat (snd (rbuf_get buf h t sz n)) = (unat h + n) mod unat sz"
  using assms
proof (induction n arbitrary: h)
  case 0
  then show ?case by (simp add: word_less_nat_alt)
next
  case (Suc n)
  then have ne: "h \<noteq> t" using ring_len_bounds(2) [OF Suc.prems(2,3)] by auto
  have "n \<le> ring_len sz (ring_next h sz) t" using ring_next_len(3) [OF Suc.prems(1-3) ne] Suc.prems(4) by simp
  then show ?case using ne Suc.IH [OF Suc.prems(1) ring_next_nat(2) [OF Suc.prems(1,2)] Suc.prems(3)]
      ring_next_nat(1) [OF Suc.prems(1,2)]
    by (simp add: split_beta mod_add_left_eq)
qed

lemma ring_skip_bytes:
  assumes "1 < sz" "h < sz" "t < sz" "n \<le> ring_len sz h t"
  shows "of_nat ((unat h + n) mod unat sz) < sz"
    and "ring_bytes sz (buf, of_nat ((unat h + n) mod unat sz), t) = drop n (ring_bytes sz (buf, h, t))"
proof -
  obtain h' where *: "rbuf_get buf h t sz n = (take n (ring_bytes sz (buf, h, t)), h')" "h' < sz"
     "ring_bytes sz (buf, h', t) = drop n (ring_bytes sz (buf, h, t))"
    using rbuf_get_spec [OF assms(1-3)] by blast
  have e: "(unat h + n) mod unat sz = unat h'" using rbuf_get_head [OF assms, of buf] *(1) by simp
  have "of_nat ((unat h + n) mod unat sz) = h'" unfolding e by simp
  then show "of_nat ((unat h + n) mod unat sz) < sz"
    "ring_bytes sz (buf, of_nat ((unat h + n) mod unat sz), t) = drop n (ring_bytes sz (buf, h, t))"
    using * by simp_all
qed

section \<open>The queue of datagrams\<close>

type_synonym dgram = "u32 \<times> u16 \<times> u8 list"

definition dgram_bytes :: "dgram list \<Rightarrow> nat" where
  "dgram_bytes q = length (concat (map (snd \<circ> snd) q))"

definition q_put :: "dgram \<Rightarrow> dgram list \<Rightarrow> dgram list" where
  "q_put d q = (if length q < 8 \<and> dgram_bytes q + length (snd (snd d)) \<le> 2047 then q @ [d] else q)"

fun q_get :: "nat \<Rightarrow> dgram list \<Rightarrow> (u8 list \<times> u32 \<times> u16) option \<times> dgram list" where
  "q_get n [] = (None, [])"
| "q_get n ((ip, port, bs) # q) = (Some (take n bs, ip, port), q)"

definition udp_rep :: "udp_sock \<Rightarrow> dgram list \<Rightarrow> bool" where
  "udp_rep x q \<longleftrightarrow> u_rx_head x < 2048 \<and> u_rx_tail x < 2048 \<and> u_rx_qhead x < 8 \<and>
     unat (u_rx_qcount x) = length q \<and> length q \<le> 8 \<and>
     ring_bytes 2048 (u_rx_buf x, u_rx_head x, u_rx_tail x) = concat (map (snd \<circ> snd) q) \<and>
     (\<forall>k<length q. u_rx_q x ((unat (u_rx_qhead x) + k) mod 8) =
        \<lparr>d_src_ip = fst (q ! k), d_src_port = fst (snd (q ! k)), d_len = of_nat (length (snd (snd (q ! k))))\<rparr>)"

lemma udp_rep_room:
  assumes "udp_rep x q"
  shows "unat (ring_free x) = 2047 - dgram_bytes q" "dgram_bytes q \<le> 2047"
proof -
  have o: "u_rx_head x < 2048" "u_rx_tail x < 2048" using assms by (simp_all add: udp_rep_def)
  have l: "ring_len 2048 (u_rx_head x) (u_rx_tail x) = dgram_bytes q"
    using assms ring_bytes_length [of 2048 "u_rx_buf x" "u_rx_head x" "u_rx_tail x"]
    unfolding udp_rep_def dgram_bytes_def by metis
  then show "dgram_bytes q \<le> 2047" using ring_len_bounds(1) [OF o] by simp
  have "ring_free x = rbuf_free (u_rx_head x) (u_rx_tail x) 2048"
    by (simp add: ring_free_def rbuf_free_def ring_used_def UDP_RX_BUF_SIZE_def)
  then show "unat (ring_free x) = 2047 - dgram_bytes q" using rbuf_used_len(2) [OF o] l by simp
qed

lemma queue_dgram_rep:
  assumes "udp_rep x q" "length bs < 2 ^ 16"
  shows "udp_rep (queue_dgram ip port bs x) (q_put (ip, port, bs) q)"
proof -
  have o: "(1 :: u16) < 2048" "u_rx_head x < 2048" "u_rx_tail x < 2048" using assms(1) by (simp_all add: udp_rep_def)
  have l: "ring_len 2048 (u_rx_head x) (u_rx_tail x) = dgram_bytes q"
    using assms(1) ring_bytes_length [of 2048 "u_rx_buf x" "u_rx_head x" "u_rx_tail x"]
    unfolding udp_rep_def dgram_bytes_def by metis
  have g: "ring_free x \<ge> of_nat (length bs) \<longleftrightarrow> dgram_bytes q + length bs \<le> 2047"
    using udp_rep_room [OF assms(1)] assms(2) by (auto simp: word_le_nat_alt unat_of_nat take_bit_nat_eq_self)
  show ?thesis
  proof (cases "length q < 8 \<and> dgram_bytes q + length bs \<le> 2047")
    case True
    have c: "unat (u_rx_qcount x + 1) = length q + 1"
      using True assms(1) by (subst unat_add_lem [THEN iffD1]) (simp_all add: udp_rep_def)
    obtain buf' t' where p: "rbuf_put (u_rx_buf x) (u_rx_tail x) (u_rx_head x) 2048 bs 0 =
        (of_nat (min (length bs) (2047 - dgram_bytes q)), buf', t')" "t' < 2048"
      "ring_bytes 2048 (buf', u_rx_head x, t') = concat (map (snd \<circ> snd) q) @ bs"
      using rbuf_put_spec [OF o, of 0 bs "u_rx_buf x"] assms True unfolding l by (auto simp: udp_rep_def)
    have n: "(unat (u_rx_qhead x) + k) mod 8 \<noteq> (unat (u_rx_qhead x) + length q) mod 8" if "k < length q" for k
      using mod_add_inj [of "unat (u_rx_qhead x)" k 8 "length q"] that True by auto
    show ?thesis using True assms g c p n
      unfolding queue_dgram_def q_put_def udp_rep_def ring_put_def UDP_RX_BUF_SIZE_def UDP_RX_QUEUE_def
      by (auto simp: nth_append less_Suc_eq)
  next
    case False
    then show ?thesis using assms g unfolding queue_dgram_def q_put_def
      by (auto simp: udp_rep_def UDP_RX_QUEUE_def)
  qed
qed


lemma queue_rep_bounds:
  assumes "udp_rep x ((ip, port, bs) # q)"
  shows "length bs + dgram_bytes q = ring_len 2048 (u_rx_head x) (u_rx_tail x)" "length bs \<le> 2047"
proof -
  have "length bs + dgram_bytes q = dgram_bytes ((ip, port, bs) # q)" by (simp add: dgram_bytes_def)
  moreover have "dgram_bytes ((ip, port, bs) # q) = ring_len 2048 (u_rx_head x) (u_rx_tail x)"
    using assms ring_bytes_length [of 2048 "u_rx_buf x" "u_rx_head x" "u_rx_tail x"]
    unfolding udp_rep_def dgram_bytes_def by metis
  ultimately show "length bs + dgram_bytes q = ring_len 2048 (u_rx_head x) (u_rx_tail x)" "length bs \<le> 2047"
    using udp_rep_room(2) [OF assms] by simp_all
qed

text \<open>Reading a datagram takes exactly its bytes from the ring, whatever the caller's buffer holds.\<close>

lemma recv_ring:
  assumes "udp_rep x ((ip, port, bs) # q)" "(n :: u16) = min (of_nat (length bs)) maxlen"
  shows "\<exists>x'. ring_get x n = (take (unat maxlen) bs, x') \<and>
     (\<exists>h. (if of_nat (length bs) > n then ring_skip x' (of_nat (length bs) - n) else x') = x\<lparr>u_rx_head := h\<rparr> \<and>
        h < 2048 \<and> ring_bytes 2048 (u_rx_buf x, h, u_rx_tail x) = concat (map (snd \<circ> snd) q))"
proof -
  have o: "(1 :: u16) < 2048" "u_rx_head x < 2048" "u_rx_tail x < 2048" using assms(1) by (simp_all add: udp_rep_def)
  note b = queue_rep_bounds [OF assms(1)]
  have r: "ring_bytes 2048 (u_rx_buf x, u_rx_head x, u_rx_tail x) = bs @ concat (map (snd \<circ> snd) q)"
    using assms(1) by (simp add: udp_rep_def)
  have u: "unat (of_nat (length bs) :: u16) = length bs" using b(2) by (simp add: unat_of_nat take_bit_nat_eq_self)
  have n: "unat n = min (length bs) (unat maxlen)" unfolding assms(2) by (simp add: min_def word_le_nat_alt u)
  obtain h where g: "rbuf_get (u_rx_buf x) (u_rx_head x) (u_rx_tail x) 2048 (unat n) = (take (unat maxlen) bs, h)" "h < 2048"
     "ring_bytes 2048 (u_rx_buf x, h, u_rx_tail x) = drop (unat n) bs @ concat (map (snd \<circ> snd) q)"
    using rbuf_get_spec [OF o, of "u_rx_buf x" "unat n"] unfolding r n by (auto simp: min_def split: if_splits)
  have e: "unat (of_nat (length bs) - n) = length bs - unat n"
    using n by (simp add: unat_sub word_le_nat_alt u)
  have l: "length bs - unat n \<le> ring_len 2048 h (u_rx_tail x)"
    using arg_cong [OF g(3), of length] by simp
  note k = ring_skip_bytes(1) [OF o(1) g(2) o(3) l] ring_skip_bytes(2) [OF o(1) g(2) o(3) l, of "u_rx_buf x"]
  show ?thesis
    using g k e n by (auto simp: ring_get_def ring_skip_def UDP_RX_BUF_SIZE_def word_less_nat_alt u
        intro!: exI [of _ "if length bs > unat n then of_nat ((unat h + (length bs - unat n)) mod 2048) else h"])
qed

lemma udp_recv_rep:
  assumes "udp_sock_valid i s" "udp_rep (udp_socks s (nat i)) q"
  shows "fst (udp_recv i maxlen s) = fst (q_get (unat maxlen) q) \<and>
    (\<exists>x. snd (udp_recv i maxlen s) = upd_udp (nat i) (\<lambda>_. x) s \<and> udp_rep x (snd (q_get (unat maxlen) q)) \<and> u_active x)"
proof (cases q)
  case Nil
  then have "u_rx_qcount (udp_socks s (nat i)) = 0" using assms(2) by (simp add: udp_rep_def unat_eq_0)
  then show ?thesis using assms Nil 
    by (auto simp: udp_recv_def upd_udp_def udp_sock_valid_def intro!: exI [of _ "udp_socks s (nat i)"])
next
  case (Cons d q')
  obtain ip port bs where d: "d = (ip, port, bs)" by (cases d) auto
  let ?x = "udp_socks s (nat i)"
  have c: "u_rx_qcount ?x \<noteq> 0" using assms(2) Cons by (auto simp: udp_rep_def)
  have "\<forall>k<length q. u_rx_q ?x ((unat (u_rx_qhead ?x) + k) mod 8) =
        \<lparr>d_src_ip = fst (q ! k), d_src_port = fst (snd (q ! k)), d_len = of_nat (length (snd (snd (q ! k))))\<rparr>"
    using assms(2) unfolding udp_rep_def by blast
  note desc = this [rule_format]
  have qh: "unat (u_rx_qhead ?x) < 8" using assms(2) by (simp add: udp_rep_def word_less_nat_alt)
  then have h0: "u_rx_q ?x (unat (u_rx_qhead ?x)) = \<lparr>d_src_ip = ip, d_src_port = port, d_len = of_nat (length bs)\<rparr>"
    using desc [of 0] Cons d by simp
  define n where "n = min (of_nat (length bs)) maxlen"
  have n': "(if of_nat (length bs) < maxlen then of_nat (length bs) else maxlen) = n"
    by (simp add: n_def min_def order_less_le)
  obtain x' h where g: "ring_get ?x n = (take (unat maxlen) bs, x')"
     "(if of_nat (length bs) > n then ring_skip x' (of_nat (length bs) - n) else x') = ?x\<lparr>u_rx_head := h\<rparr>"
     "h < 2048" "ring_bytes 2048 (u_rx_buf ?x, h, u_rx_tail ?x) = concat (map (snd \<circ> snd) q')"
    using recv_ring [OF assms(2) [unfolded Cons d] n_def] by blast
  define y where "y = ?x\<lparr>u_rx_head := h, u_rx_qhead := of_nat ((unat (u_rx_qhead ?x) + 1) mod 8), u_rx_qcount := u_rx_qcount ?x - 1\<rparr>"
  have f: "d_len (u_rx_q ?x (unat (u_rx_qhead ?x))) = of_nat (length bs)"
    "d_src_ip (u_rx_q ?x (unat (u_rx_qhead ?x))) = ip" "d_src_port (u_rx_q ?x (unat (u_rx_qhead ?x))) = port"
    using h0 by simp_all
  have r: "udp_recv i maxlen s = (Some (take (unat maxlen) bs, ip, port), upd_udp (nat i) (\<lambda>_. y) s)"
    unfolding udp_recv_def Let_def f n' g(1) case_prod_conv g(2) y_def using assms(1) c by (simp add: UDP_RX_QUEUE_def)
  have m: "unat (of_nat ((unat (u_rx_qhead ?x) + 1) mod 8) :: u8) = (unat (u_rx_qhead ?x) + 1) mod 8"
    by (simp add: unat_of_nat take_bit_nat_eq_self)
  then have m8: "of_nat ((unat (u_rx_qhead ?x) + 1) mod 8) < (8 :: u8)" by (simp add: word_less_nat_alt)
  have "unat (u_rx_qcount ?x - 1) = length q'"
    using assms(2) Cons unat_minus_one [OF c] by (simp add: udp_rep_def)
  moreover have "u_rx_q ?x ((unat (of_nat ((unat (u_rx_qhead ?x) + 1) mod 8) :: u8) + k) mod 8) =
      \<lparr>d_src_ip = fst (q' ! k), d_src_port = fst (snd (q' ! k)), d_len = of_nat (length (snd (snd (q' ! k))))\<rparr>"
    if "k < length q'" for k
    unfolding m using desc [of "Suc k"] that Cons by (simp add: mod_simps)
  ultimately have "udp_rep y q'"
    using g(3,4) assms(2) Cons m8 unfolding udp_rep_def y_def by simp
  then show ?thesis using r assms(1) Cons d by (auto simp: udp_sock_valid_def y_def)
qed


section \<open>Sequences of arrivals and reads\<close>

datatype udp_ev = Arrive u32 u16 "u8 list" | Receive u16

fun udp_run :: "nat \<Rightarrow> udp_ev list \<Rightarrow> 'a udp_net_scheme \<Rightarrow> (u8 list \<times> u32 \<times> u16) option list \<times> 'a udp_net_scheme" where
  "udp_run i [] s = ([], s)"
| "udp_run i (Arrive ip port bs # es) s = udp_run i es (upd_udp i (queue_dgram ip port bs) s)"
| "udp_run i (Receive n # es) s =
     (let (r, s) = udp_recv (int i) n s; (rs, s) = udp_run i es s in (r # rs, s))"

fun q_run :: "udp_ev list \<Rightarrow> dgram list \<Rightarrow> (u8 list \<times> u32 \<times> u16) option list \<times> dgram list" where
  "q_run [] q = ([], q)"
| "q_run (Arrive ip port bs # es) q = q_run es (q_put (ip, port, bs) q)"
| "q_run (Receive n # es) q = (let (r, q) = q_get (unat n) q; (rs, q) = q_run es q in (r # rs, q))"

definition ev_ok :: "udp_ev \<Rightarrow> bool" where
  "ev_ok e = (case e of Arrive _ _ bs \<Rightarrow> length bs < 2 ^ 16 | Receive _ \<Rightarrow> True)"

lemma upd_udp_sock [simp]: "udp_socks (upd_udp i f s) j = (if i = j then f (udp_socks s i) else udp_socks s j)"
  by (simp add: upd_udp_def)

lemma queue_dgram_active [simp]: "u_active (queue_dgram ip port bs x) = u_active x"
  by (simp add: queue_dgram_def ring_put_def Let_def split_beta)

lemma udp_run_refines:
  assumes "udp_sock_valid (int i) s" "udp_rep (udp_socks s i) q" "list_all ev_ok es"
  shows "fst (udp_run i es s) = fst (q_run es q) \<and> udp_rep (udp_socks (snd (udp_run i es s)) i) (snd (q_run es q))"
  using assms
proof (induction es arbitrary: s q)
  case (Cons e es)
  show ?case
  proof (cases e)
    case (Arrive ip port bs)
    have "udp_sock_valid (int i) (upd_udp i (queue_dgram ip port bs) s)"
      using Cons.prems(1) by (simp add: udp_sock_valid_def)
    moreover have "udp_rep (udp_socks (upd_udp i (queue_dgram ip port bs) s) i) (q_put (ip, port, bs) q)"
      using queue_dgram_rep [OF Cons.prems(2)] Cons.prems(3) Arrive by (simp add: ev_ok_def)
    ultimately show ?thesis using Cons.IH Cons.prems(3) Arrive by simp
  next
    case (Receive n)
    obtain x where x: "fst (udp_recv (int i) n s) = fst (q_get (unat n) q)"
      "snd (udp_recv (int i) n s) = upd_udp i (\<lambda>_. x) s" "udp_rep x (snd (q_get (unat n) q))" "u_active x"
      using udp_recv_rep [OF Cons.prems(1), of q n] Cons.prems(2) by auto
    have "udp_sock_valid (int i) (upd_udp i (\<lambda>_. x) s)" using Cons.prems(1) x(4) by (simp add: udp_sock_valid_def)
    then show ?thesis using Cons.IH [of "upd_udp i (\<lambda>_. x) s" "snd (q_get (unat n) q)"] Cons.prems(3) x Receive
      by (simp add: split_beta)
  qed
qed simp

lemma next_port_socks: "next_port s = Some r \<Longrightarrow> udp_socks (snd r) = udp_socks s"
proof (rule next_port.raw_induct [of "\<lambda>s r. udp_socks (snd r) = udp_socks s"])
  fix f :: "'a udp_net_scheme \<Rightarrow> (u16 \<times> 'a udp_net_scheme) option" and s r
  assume IH: "\<And>s r. f s = Some r \<Longrightarrow> udp_socks (snd r) = udp_socks s"
    and "(let e = if 65535 \<le> g_ephemeral s then 49152 else g_ephemeral s; s = s\<lparr>g_ephemeral := e + 1\<rparr>
          in if \<not> port_in_use e s then Some (e, s) else f s) = Some r"
  then show "udp_socks (snd r) = udp_socks s" by (auto simp: Let_def dest!: IH split: if_splits)
qed

lemma alloc_port_socks: "alloc_port draws s = Some (p, s') \<Longrightarrow> udp_socks s' = udp_socks s"
  by (auto simp: alloc_port_def dest: next_port_socks split: option.splits)

lemma udp_open_rep:
  assumes "udp_open draws port s = Some (i, s')" "i \<noteq> -1"
  shows "udp_sock_valid i s' \<and> udp_rep (udp_socks s' (nat i)) []"
proof -
  obtain k where k: "first_index (\<lambda>i. \<not> u_active (udp_socks s i)) UDP_MAX_SOCKETS = Some k"
    using assms by (cases "first_index (\<lambda>i. \<not> u_active (udp_socks s i)) UDP_MAX_SOCKETS") (auto simp: udp_open_def)
  let ?s = "upd_udp k (\<lambda>x. x\<lparr>u_active := True\<rparr>) s"
  obtain p s1 where a: "(if port \<noteq> 0 then Some (port, ?s) else alloc_port draws ?s) = Some (p, s1)" "i = int k"
    "s' = upd_udp k (\<lambda>x. x\<lparr>u_local_port := p, u_rx_head := 0, u_rx_tail := 0, u_rx_qhead := 0, u_rx_qcount := 0\<rparr>) s1"
    using assms(1) k by (auto simp: udp_open_def Let_def)
  have "udp_socks s1 = udp_socks ?s" using a(1) alloc_port_socks by (auto split: if_splits)
  then show ?thesis using a(2,3) k
    by (auto simp: udp_sock_valid_def udp_rep_def ring_bytes_def ring_len_def first_index_Some)
qed


section \<open>The property\<close>

definition udp_blank :: udp_sock where
  "udp_blank = \<lparr>u_active = False, u_local_port = 0, u_rx_buf = \<lambda>_. 0, u_rx_head = 0, u_rx_tail = 0,
     u_rx_q = \<lambda>_. \<lparr>d_src_ip = 0, d_src_port = 0, d_len = 0\<rparr>, u_rx_qhead = 0, u_rx_qcount = 0,
     u_last_src_ip = 0, u_last_src_port = 0\<rparr>"

definition udp_net_blank :: udp_net where
  "udp_net_blank = \<lparr>g_pit_ticks = 0, netdev_up = True, g_netdev = Some (\<lambda>_. 1), netdev_out = [], arp_my_ip = 0,
     arp_gateway = 0, arp_my_mac = replicate 6 2, g_cache = \<lambda>_. arp_zero, g_my_ip = 0, g_gateway = 0, g_netmask = 0,
     g_my_mac = replicate 6 2, g_ip_id = 0,
     g_pend = \<lambda>_. \<lparr>p_valid = False, p_nexthop = 0, p_tstamp = 0, p_frame = []\<rparr>, g_arp_req = \<lambda>_. (0, 0),
     g_got_reply = False, g_expect_ident = 0, g_expect_seq = 0, g_expect_src = 0, g_reply_ttl = 0, g_reply_src = 0,
     udp_socks = \<lambda>_. udp_blank, g_ephemeral = 49152\<rparr>"

definition udp_demo :: "udp_ev list" where
  "udp_demo = [Arrive 7 53 [1, 2, 3], Arrive 8 54 [4], Receive 2, Receive 10, Receive 10]"

text \<open>(C16) A UDP socket is a queue of datagrams: after \<open>udp_open\<close>, whatever sequence of datagrams
  arrives (\<open>queue_dgram\<close>, the last step of \<open>udp_rx\<close>) and of \<open>udp_recv\<close> calls with buffers of any size,
  the calls return what a queue of at most eight datagrams and 2047 bytes returns: one datagram each, in
  arrival order, cut to the caller's buffer, with its own source, or nothing when it is empty.\<close>

theorem udp_queue_refines:
  assumes "udp_open draws port s = Some (i, s')" "i \<noteq> -1" "list_all ev_ok es"
  shows "fst (udp_run (nat i) es s') = fst (q_run es [])"
proof -
  have o: "udp_sock_valid i s'" "udp_rep (udp_socks s' (nat i)) []" using udp_open_rep [OF assms(1,2)] by auto
  then have "udp_sock_valid (int (nat i)) s'" by (simp add: udp_sock_valid_def)
  then show ?thesis using udp_run_refines [OF _ o(2) assms(3)] by blast
qed

lemma udp_queue_refines_witness:
  "\<exists>s'. udp_open [] 99 udp_net_blank = Some (0, s') \<and>
     fst (udp_run 0 udp_demo s') = [Some ([1, 2], 7, 53), Some ([4], 8, 54), None]"
proof -
  have "first_index (\<lambda>i. \<not> u_active (udp_socks udp_net_blank i)) UDP_MAX_SOCKETS = Some 0"
    by (simp add: first_index_Some udp_net_blank_def udp_blank_def UDP_MAX_SOCKETS_def)
  then obtain s' where s': "udp_open [] 99 udp_net_blank = Some (0, s')" by (simp add: udp_open_def Let_def)
  have "fst (q_run udp_demo []) = [Some ([1, 2], 7, 53), Some ([4], 8, 54), None]"
    by (simp add: udp_demo_def q_put_def dgram_bytes_def)
  moreover have "list_all ev_ok udp_demo" by (simp add: udp_demo_def ev_ok_def)
  ultimately show ?thesis using udp_queue_refines [OF s', of udp_demo] s' by auto
qed

end
