(* ===== verification/Tcp_Props.thy ===== *)
theory Tcp_Props
  imports Tcp_System Udp_Queue
begin

text \<open>
  The properties of TCP in every state that operations which do not overlap can reach: no byte is
  forgotten before it is acknowledged, the buffers stay in bounds, half-dead connections end, and at
  most one socket listens on a port.
\<close>

section \<open>A concrete state\<close>

definition tcp_blank :: tcp_net where
  "tcp_blank = udp_net.extend udp_net_blank
     (tcp_net.fields (\<lambda>_. sock_zero) 0x12345678 1 49152)"

lemma tcp_blank_sel [simp]:
  "tcp_socks tcp_blank = (\<lambda>_. sock_zero)" "g_isn_counter tcp_blank = 0x12345678" "g_conn_gen_next tcp_blank = 1"
  "g_eph_next tcp_blank = 49152" "netdev_up tcp_blank = True" "g_my_ip tcp_blank = 0" "g_netmask tcp_blank = 0"
  by (simp_all add: tcp_blank_def udp_net_blank_def udp_net.extend_def tcp_net.fields_def)

lemma tcp_blank_reach: "tcp_reach tcp_blank"
  by (rule tcp_reach.boot) simp_all


definition tcp_one :: tcp_net where "tcp_one = snd (tcp_connect 7 80 5000 tcp_blank)"

lemma tcp_one_reach: "tcp_reach tcp_one"
  using tcp_reach.op [OF tcp_blank_reach, of "Connect 7 80 5000"] by (simp add: tcp_one_def)

lemma tcp_one_sock:
  "sk tcp_one 0 = seg_sent TCP_SYN [] (sock_zero\<lparr>conn_gen := 1, state := TCP_SYN_SENT, local_ip := 0, local_port := 5000,
     remote_ip := 7, remote_port := 80, accepted := True, snd_nxt := 0x12345678, snd_una := 0x12345678\<rparr>)"
  "g_conn_gen_next tcp_one = 2"
proof -
  have "alloc_sock tcp_blank = Some 0" by (simp add: alloc_sock_def first_index_Some TCP_MAX_SOCKETS_def sock_zero_def)
  then show "sk tcp_one 0 = seg_sent TCP_SYN [] (sock_zero\<lparr>conn_gen := 1, state := TCP_SYN_SENT, local_ip := 0, local_port := 5000,
     remote_ip := 7, remote_port := 80, accepted := True, snd_nxt := 0x12345678, snd_una := 0x12345678\<rparr>)"
    "g_conn_gen_next tcp_one = 2"
    by (simp_all add: tcp_one_def tcp_connect_def next_conn_gen_def Let_def sock_zero_def)
qed

lemma tcp_one_sel [simp]:
  "state (sk tcp_one 0) = TCP_SYN_SENT" "snd_una (sk tcp_one 0) = 0x12345678" "snd_nxt (sk tcp_one 0) = 0x12345679"
  "retx_nseg (sk tcp_one 0) = 1" "conn_gen (sk tcp_one 0) = 1" "local_port (sk tcp_one 0) = 5000"
  by (simp_all add: tcp_one_sock seg_sent_def sock_zero_def)

section \<open>Nothing is forgotten\<close>

lemma chain_seg:
  assumes "chain a rs" "off < seq_total rs" "seq_total rs < 2 ^ 32"
  shows "\<exists>r\<in>set rs. unat (a + of_nat off - r_seq r) < seg_len r"
  using assms
proof (induction rs arbitrary: a off)
  case (Cons r rs)
  show ?case
  proof (cases "off < seg_len r")
    case True
    then show ?thesis using Cons.prems by (auto simp: unat_of_nat take_bit_nat_eq_self)
  next
    case False
    have "a + of_nat (seg_len r) + of_nat (off - seg_len r) = a + of_nat off"
      using False by (simp add: of_nat_diff algebra_simps)
    then show ?thesis using Cons.IH [of "a + of_nat (seg_len r)" "off - seg_len r"] Cons.prems False by auto
  qed
qed simp

lemma covers_seg:
  assumes "covers a rs una nxt" "length rs \<le> 8" "unat (q - una) < unat (nxt - una)"
  shows "\<exists>r\<in>set rs. unat (q - r_seq r) < seg_len r"
proof -
  note o = covers_offset [OF assms(1,2)]
  define off where "off = unat (q - una) + unat (una - a)"
  have "off < seq_total rs" using assms(3) o by (simp add: off_def)
  moreover have "a + of_nat off = q" by (simp add: off_def)
  moreover have "chain a rs" using assms(1) by (simp add: covers_def)
  ultimately show ?thesis using chain_seg [of a rs off] o(4) by auto
qed

text \<open>(C5) Reliability of the sender: in every state reachable by operations that do not overlap, whatever was received, every sequence
  number that was sent and not yet acknowledged belongs to a segment that is still in the retransmit
  queue, and the queue is empty exactly when everything is acknowledged.\<close>

theorem tcp_unacked_kept:
  assumes "tcp_reach s" "unat (q - snd_una (sk s i)) < unat (snd_nxt (sk s i) - snd_una (sk s i))"
  shows "\<exists>k<retx_nseg (sk s i). let r = retx_q (sk s i) ((retx_head (sk s i) + k) mod TCP_RETX_SLOTS)
    in unat (q - r_seq r) < unat (seg_end r - r_seq r)"
proof -
  have "sock_ok (sk s i)" using tcp_reach_inv [OF assms(1)] by (simp add: tcp_inv_def sock_inv_def)
  then obtain a where a: "covers a (flight (sk s i)) (snd_una (sk s i)) (snd_nxt (sk s i))" "retx_nseg (sk s i) \<le> 8"
    by (auto simp: sock_ok_def)
  obtain r where r: "r \<in> set (flight (sk s i))" "unat (q - r_seq r) < seg_len r"
    using covers_seg [OF a(1) _ assms(2)] a(2) by auto
  have "chain a (flight (sk s i))" using a(1) by (simp add: covers_def)
  then have "seg_len r \<le> seq_total (flight (sk s i))" using r(1) by (auto simp: seq_total_def intro: member_le_sum_list)
  then have "seg_len r < 2 ^ 32" using covers_offset(4) [OF a(1)] a(2) by simp
  then have "unat (seg_end r - r_seq r) = seg_len r" by (simp add: seg_end_len unat_of_nat take_bit_nat_eq_self)
  then show ?thesis using r by (auto simp: flight_def TCP_RETX_SLOTS_def Let_def)
qed

lemma tcp_unacked_kept_witness:
  "unat ((0x12345678 :: u32) - snd_una (sk tcp_one 0)) < unat (snd_nxt (sk tcp_one 0) - snd_una (sk tcp_one 0)) \<and>
   (\<exists>k<retx_nseg (sk tcp_one 0). let r = retx_q (sk tcp_one 0) ((retx_head (sk tcp_one 0) + k) mod TCP_RETX_SLOTS)
    in unat (0x12345678 - r_seq r) < unat (seg_end r - r_seq r))"
  using tcp_unacked_kept [OF tcp_one_reach, where q = "0x12345678" and i = 0] by simp

lemma chain_data: "chain a rs \<Longrightarrow> \<forall>r\<in>set rs. length (r_data r) \<le> 1460"
  by (induction rs arbitrary: a) auto

text \<open>(C19) Buffers in bounds: in every reachable state the indices of the receive ring and of the
  retransmit queue are inside their arrays, no queued segment holds more than the 1460 bytes of its
  slot, at most eight segments are in flight and the back-off is at most 160 ticks.\<close>

theorem tcp_bounds:
  assumes "tcp_reach s"
  shows "rx_head (sk s i) < TCP_RX_BUF_SIZE \<and> rx_tail (sk s i) < TCP_RX_BUF_SIZE \<and>
    retx_head (sk s i) < TCP_RETX_SLOTS \<and> retx_nseg (sk s i) \<le> TCP_RETX_SLOTS \<and> retx_timer (sk s i) \<le> 160 \<and>
    (\<forall>k<retx_nseg (sk s i). length (r_data (retx_q (sk s i) ((retx_head (sk s i) + k) mod TCP_RETX_SLOTS))) \<le> TCP_MSS)"
proof -
  have i: "sock_ok (sk s i)" "clock_ok (sk s i)" using tcp_reach_inv [OF assms] by (simp_all add: tcp_inv_def sock_inv_def)
  then obtain a where "chain a (flight (sk s i))" by (auto simp: sock_ok_def covers_def)
  then have "\<forall>r\<in>set (flight (sk s i)). length (r_data r) \<le> 1460" by (rule chain_data)
  then show ?thesis using i
    by (auto simp: sock_ok_def clock_ok_def flight_def TCP_RX_BUF_SIZE_def TCP_RETX_SLOTS_def TCP_MSS_def)
qed

lemma tcp_bounds_witness: "retx_head (sk tcp_one 0) < TCP_RETX_SLOTS \<and> retx_timer (sk tcp_one 0) \<le> 160"
  using tcp_bounds [OF tcp_one_reach, where i = 0] by simp

section \<open>Connections end\<close>

lemma tick_pow:
  "i < 8 \<Longrightarrow> sk ((tcp_tick ^^ n) s) i = (tick_sock ^^ n) (sk s i)"
  by (induction n) (simp_all add: tcp_tick_socks)

text \<open>(C13) No connection stays half-open: in every reachable state, a socket that waits for its peer (in
  any state but LISTEN and a quiet ESTABLISHED, and also ESTABLISHED with data in flight or with a close
  pending) is closed after at most 12000 ticks (two minutes) if nothing more arrives.\<close>

theorem tcp_teardown:
  assumes "tcp_reach s" "i < TCP_MAX_SOCKETS" "state (sk s i) \<noteq> TCP_LISTEN"
    "state (sk s i) = TCP_ESTABLISHED \<Longrightarrow> snd_una (sk s i) \<noteq> snd_nxt (sk s i) \<or> fin_pending (sk s i)"
  shows "tcp_state_of (int i) ((tcp_tick ^^ 12000) s) = TCP_CLOSED"
proof -
  have v: "sock_inv (sk s i)" using tcp_reach_inv [OF assms(1)] by (simp add: tcp_inv_def)
  have w: "waiting (sk s i)" using assms(3,4) by (auto simp: waiting_def)
  have "i < 8" using assms(2) by (simp add: TCP_MAX_SOCKETS_def)
  then show ?thesis
    using ticks_close [OF v w ticks_left_le [OF v]] assms(2) by (simp add: tcp_state_of_def valid_sock_def tick_pow)
qed

lemma tcp_teardown_witness:
  "tcp_state_of 0 tcp_one = TCP_SYN_SENT \<and> tcp_state_of 0 ((tcp_tick ^^ 12000) tcp_one) = TCP_CLOSED"
  using tcp_teardown [OF tcp_one_reach, where i = 0] by (simp add: TCP_MAX_SOCKETS_def tcp_state_of_def valid_sock_def)

section \<open>Listeners\<close>

text \<open>(C26) At most one socket listens on a port, in every reachable state.\<close>

theorem tcp_one_listener:
  assumes "tcp_reach s" "i < TCP_MAX_SOCKETS" "j < TCP_MAX_SOCKETS" "state (sk s i) = TCP_LISTEN" "state (sk s j) = TCP_LISTEN"
    "local_port (sk s i) = local_port (sk s j)"
  shows "i = j"
  using tcp_reach_inv [OF assms(1)] assms(2-6) unfolding tcp_inv_def TCP_MAX_SOCKETS_def by blast

definition tcp_two :: tcp_net where "tcp_two = snd (tcp_listen 80 tcp_one)"

lemma tcp_two_reach: "tcp_reach tcp_two"
  using tcp_reach.op [OF tcp_one_reach, of "Listen 80"] by (simp add: tcp_two_def)

lemma tcp_one_other: "i \<noteq> 0 \<Longrightarrow> sk tcp_one i = sock_zero"
proof -
  have "alloc_sock tcp_blank = Some 0" by (simp add: alloc_sock_def first_index_Some TCP_MAX_SOCKETS_def sock_zero_def)
  then show "i \<noteq> 0 \<Longrightarrow> sk tcp_one i = sock_zero" by (simp add: tcp_one_def tcp_connect_def next_conn_gen_def Let_def)
qed

lemma tcp_two_sock:
  "sk tcp_two i = (if i = 1 then sock_zero\<lparr>conn_gen := 2, state := TCP_LISTEN, local_ip := g_my_ip tcp_one, local_port := 80\<rparr>
     else sk tcp_one i)" "g_conn_gen_next tcp_two = 3"
proof -
  have z: "state sock_zero = TCP_CLOSED" by (simp add: sock_zero_def)
  have c: "state (sk tcp_one l) \<noteq> TCP_LISTEN" for l using tcp_one_other [of l] z by (cases "l = 0") simp_all
  have a: "alloc_sock tcp_one = Some 1"
    using tcp_one_other [of 1] z by (simp add: alloc_sock_def first_index_Some TCP_MAX_SOCKETS_def)
  have f: "first_index (\<lambda>i. state (sk tcp_one i) = TCP_LISTEN \<and> local_port (sk tcp_one i) = 80) TCP_MAX_SOCKETS = None"
    using c by (simp add: first_index_None)
  show "sk tcp_two i = (if i = 1 then sock_zero\<lparr>conn_gen := 2, state := TCP_LISTEN, local_ip := g_my_ip tcp_one, local_port := 80\<rparr>
     else sk tcp_one i)" "g_conn_gen_next tcp_two = 3"
    using a f tcp_one_sock(2) by (simp_all add: tcp_two_def tcp_listen_def next_conn_gen_def Let_def)
qed

lemma tcp_one_listener_witness:
  "{j. j < TCP_MAX_SOCKETS \<and> state (sk tcp_two j) = TCP_LISTEN \<and> local_port (sk tcp_two j) = 80} = {1}"
proof -
  have "state (sk tcp_two 1) = TCP_LISTEN" "local_port (sk tcp_two 1) = 80" by (simp_all add: tcp_two_sock sock_zero_def)
  then show ?thesis using tcp_one_listener [OF tcp_two_reach, where j = 1] by (auto simp: TCP_MAX_SOCKETS_def)
qed

end
