(* ===== verification/Tcp_Conns.thy ===== *)
theory Tcp_Conns
  imports Tcp_Props
begin

text \<open>
  Connection generations: a saved pair of socket index and generation names one connection, and the
  checked calls refuse it once that connection is gone.  Also the send window and ephemeral ports.
\<close>

section \<open>The sequence of generations\<close>

definition gen_succ :: "u32 \<Rightarrow> u32" where "gen_succ g = (if g + 1 = 0 then 1 else g + 1)"

lemma gen_succ_nat:
  assumes "g \<noteq> 0"
  shows "gen_succ g \<noteq> 0" "unat (gen_succ g) = unat g mod (2 ^ 32 - 1) + 1"
proof -
  show "gen_succ g \<noteq> 0" by (simp add: gen_succ_def)
  show "unat (gen_succ g) = unat g mod (2 ^ 32 - 1) + 1"
  proof (cases "g + 1 = 0")
    case True
    then have "g = - 1" by (simp add: add_eq_0_iff2)
    then show ?thesis by (simp add: gen_succ_def unsigned_minus_1_eq_mask mask_eq_exp_minus_1)
  next
    case False
    then have u: "unat (g + 1) = unat g + 1" using unatSuc [of g] by (simp add: add.commute)
    moreover have "unat (g + 1) < 2 ^ 32" using unsigned_less [of "g + 1", where 'a = nat] by simp
    ultimately have "unat g < 2 ^ 32 - 1" by linarith
    then show ?thesis using False u by (simp add: gen_succ_def)
  qed
qed

lemma gen_pow_nat:
  assumes "g \<noteq> 0"
  shows "(gen_succ ^^ m) g \<noteq> 0 \<and> unat ((gen_succ ^^ m) g) = (unat g - 1 + m) mod (2 ^ 32 - 1) + 1"
proof (induction m)
  case 0
  have "0 < unat g" using assms by (simp add: unat_gt_0)
  moreover have "unat g < 2 ^ 32" using unsigned_less [of g, where 'a = nat] by simp
  ultimately have "unat g - 1 < 2 ^ 32 - 1" by linarith
  then have "(unat g - 1) mod (2 ^ 32 - 1) = unat g - 1" by simp
  then show ?case using assms \<open>0 < unat g\<close> by simp
next
  case (Suc m)
  define h where "h = (gen_succ ^^ m) g"
  have h: "h \<noteq> 0" "unat h = (unat g - 1 + m) mod (2 ^ 32 - 1) + 1" using Suc by (simp_all add: h_def)
  have "unat h mod (2 ^ 32 - 1) = (unat g - 1 + Suc m) mod (2 ^ 32 - 1)"
    unfolding h(2) by (simp only: mod_add_left_eq add_Suc_right Suc_eq_plus1 add.assoc)
  then show ?case using gen_succ_nat [OF h(1)] by (simp add: h_def)
qed

lemma gen_pow_neq:
  assumes "g \<noteq> 0" "0 < m" "m < 2 ^ 32 - 1"
  shows "(gen_succ ^^ m) g \<noteq> g"
proof
  assume e: "(gen_succ ^^ m) g = g"
  have "(unat g - 1 + m) mod (2 ^ 32 - 1) + 1 = unat g"
    using gen_pow_nat [OF assms(1), of m] unfolding e by (elim conjE) (rule sym)
  moreover have "(unat g - 1 + 0) mod (2 ^ 32 - 1) + 1 = unat g"
    using gen_pow_nat [OF assms(1), of 0] unfolding funpow_0 by (elim conjE) (rule sym)
  ultimately have "(unat g - 1 + m) mod (2 ^ 32 - 1) = (unat g - 1 + 0) mod (2 ^ 32 - 1)" by linarith
  then show False using mod_add_inj [of "unat g - 1" m "2 ^ 32 - 1" 0] assms(2,3) by simp
qed

section \<open>Paths\<close>

text \<open>A sequence of operations, with the number of connections it opens.\<close>

inductive tcp_path :: "'a tcp_net_scheme \<Rightarrow> nat \<Rightarrow> 'a tcp_net_scheme \<Rightarrow> bool" where
  none: "tcp_path s 0 s"
| old: "tcp_path s n s' \<Longrightarrow> g_conn_gen_next (tcp_exec a s') = g_conn_gen_next s' \<Longrightarrow> tcp_path s n (tcp_exec a s')"
| new: "tcp_path s n s' \<Longrightarrow> g_conn_gen_next (tcp_exec a s') \<noteq> g_conn_gen_next s' \<Longrightarrow> tcp_path s (Suc n) (tcp_exec a s')"

lemma gen_next_neq: "(if (g :: u32) + 1 = 0 then 1 else g + 1) \<noteq> g"
  by auto

lemma new_conn_gen: "new_conn s s' \<Longrightarrow> g_conn_gen_next s' = gen_succ (g_conn_gen_next s)"
  by (simp add: new_conn_def gen_succ_def)

lemma exec_gen:
  "g_conn_gen_next (tcp_exec a s) = g_conn_gen_next s \<Longrightarrow> same_conns s (tcp_exec a s)"
  "g_conn_gen_next (tcp_exec a s) \<noteq> g_conn_gen_next s \<Longrightarrow> new_conn s (tcp_exec a s)"
  using tcp_exec_step [of s a] gen_next_neq [of "g_conn_gen_next s"] by (auto simp: same_conns_def new_conn_def)

lemma same_conns_match: "same_conns s s' \<Longrightarrow> conn_matches k g s' \<Longrightarrow> conn_matches k g s"
  unfolding same_conns_def conn_matches_def evolves_def by metis

lemma new_conn_match:
  assumes "new_conn s s'" "conn_matches k g s'" "g \<noteq> g_conn_gen_next s"
  shows "conn_matches k g s"
  using assms unfolding new_conn_def conn_matches_def evolves_def by metis

lemma path_match:
  assumes "tcp_path s n s'" "g_conn_gen_next s = (gen_succ ^^ m) g" "g \<noteq> 0" "0 < m" "m + n < 2 ^ 32" "\<not> conn_matches k g s"
  shows "\<not> conn_matches k g s' \<and> g_conn_gen_next s' = (gen_succ ^^ (m + n)) g"
  using assms
proof (induction rule: tcp_path.induct)
  case (old s n s' a)
  then show ?case using same_conns_match [OF exec_gen(1) [OF old.hyps(2)], of k g] by auto
next
  case (new s n s' a)
  have ih: "\<not> conn_matches k g s'" "g_conn_gen_next s' = (gen_succ ^^ (m + n)) g" using new by simp_all
  note c = exec_gen(2) [OF new.hyps(2)]
  have "g \<noteq> g_conn_gen_next s'" using gen_pow_neq [of g "m + n"] new.prems ih(2) by auto
  then show ?case using new_conn_match [OF c] ih new_conn_gen [OF c] by auto
qed simp

text \<open>(C14) A dead handle stays dead: once the connection that a saved (socket, generation) pair names is
  gone, the checked calls refuse the pair without any effect, whatever happens to the socket table, as
  long as fewer than \<open>2 ^ 32\<close> connections have been opened since the pair was issued (the generation
  counter skips 0 when it wraps).\<close>

theorem tcp_dead_handle:
  assumes "tcp_path s n s'" "g_conn_gen_next s = (gen_succ ^^ m) g" "g \<noteq> 0" "0 < m" "m + n < 2 ^ 32"
    "\<not> conn_matches k g s"
  shows "tcp_conn_state k g s' = TCP_CLOSED \<and> tcp_conn_send k g bs s' = (0, s') \<and> tcp_conn_recv k g len s' = ([], s') \<and>
    tcp_conn_close k g s' = s' \<and> tcp_conn_abort k g s' = s'"
  using path_match [OF assms]
  by (simp add: tcp_conn_state_def tcp_conn_send_def tcp_conn_recv_def tcp_conn_close_def tcp_conn_abort_def)

lemma tcp_dead_handle_witness:
  "conn_matches 0 1 tcp_one \<and> (let s = snd (tcp_listen 80 (tcp_abort 0 tcp_one)) in tcp_conn_send 0 1 [5] s = (0, s))"
proof -
  let ?s = "tcp_abort 0 tcp_one"
  have g: "g_conn_gen_next ?s = 2" using tcp_one_sock(2) by (simp add: tcp_abort_def valid_sock_def TCP_MAX_SOCKETS_def)
  have "gen_succ 1 = 2" by (simp add: gen_succ_def)
  then have g2: "g_conn_gen_next ?s = (gen_succ ^^ 1) 1" using g by simp
  have nm: "\<not> conn_matches 0 1 ?s" by (simp add: tcp_abort_def valid_sock_def TCP_MAX_SOCKETS_def conn_matches_def)
  have c: "state (sk tcp_one l) \<noteq> TCP_LISTEN" for l
    using tcp_one_other [of l] by (cases "l = 0") (simp_all add: sock_zero_def)
  have "new_conn ?s (snd (tcp_listen 80 ?s))"
  proof (rule listen_new)
    show "alloc_sock ?s = Some 0"
      by (simp add: alloc_sock_def first_index_Some TCP_MAX_SOCKETS_def tcp_abort_def valid_sock_def)
    show "first_index (\<lambda>i. state (sk ?s i) = TCP_LISTEN \<and> local_port (sk ?s i) = 80) TCP_MAX_SOCKETS = None"
      using c by (auto simp: first_index_None tcp_abort_def valid_sock_def TCP_MAX_SOCKETS_def)
  qed
  then have "tcp_path ?s 1 (tcp_exec (Listen 80) ?s)"
    using tcp_path.new [OF tcp_path.none, of "Listen 80" ?s] gen_next_neq [of "g_conn_gen_next ?s"] by (simp add: new_conn_def)
  then have "tcp_conn_send 0 1 [5] (tcp_exec (Listen 80) ?s) = (0, tcp_exec (Listen 80) ?s)"
    using tcp_dead_handle [OF _ g2 _ _ _ nm, where bs = "[5]"] by simp
  then show ?thesis by (simp add: conn_matches_def valid_sock_def TCP_MAX_SOCKETS_def Let_def)
qed


section \<open>Sending\<close>

text \<open>(C23) The send window: when \<open>tcp_send\<close> takes anything, it takes a prefix of the data of at most 1460
  bytes, queues exactly that prefix at \<open>snd_nxt\<close>, and never leaves more bytes in flight than the peer's
  window allows.\<close>

theorem tcp_send_window:
  assumes "tcp_send k bs s = (n, s')" "0 < n"
  shows "n \<le> length bs \<and> n \<le> TCP_MSS \<and>
    retx_q (sk s' (nat k)) ((retx_head (sk s (nat k)) + retx_nseg (sk s (nat k))) mod TCP_RETX_SLOTS) =
      \<lparr>r_seq = snd_nxt (sk s (nat k)), r_flags = TCP_PSH OR TCP_ACK, r_data = take n bs\<rparr> \<and>
    snd_nxt (sk s' (nat k)) = snd_nxt (sk s (nat k)) + of_nat n \<and>
    unat (snd_nxt (sk s' (nat k)) - snd_una (sk s' (nat k))) \<le> unat (snd_wnd (sk s (nat k)))"
proof -
  let ?x = "sk s (nat k)"
  define fl where "fl = snd_nxt ?x - snd_una ?x"
  define w where "w = (ucast (snd_wnd ?x) :: u32)"
  define m where "m = min (min (length bs) (unat (w - fl))) TCP_MSS"
  define y where "y = tcp_send_seg (nat k) (TCP_PSH OR TCP_ACK) (take m bs) s"
  have e: "tcp_send k bs s =
     (if \<not> valid_sock k then (0, s)
      else if state ?x \<noteq> TCP_ESTABLISHED \<and> state ?x \<noteq> TCP_CLOSE_WAIT then (0, s)
      else if bs = [] \<or> fin_pending ?x then (0, s)
      else if retx_nseg ?x \<ge> TCP_RETX_SLOTS then (0, s)
      else if fl \<ge> w then (0, s)
      else (m, if state (sk y (nat k)) = TCP_CLOSE_WAIT then upd_sock (nat k) (\<lambda>x. x\<lparr>conn_timer := 0\<rparr>) y else y))"
    by (simp only: tcp_send_def Let_def fl_def w_def m_def y_def)
  have g: "fl < w" "n = m" "s' = (if state (sk y (nat k)) = TCP_CLOSE_WAIT then upd_sock (nat k) (\<lambda>x. x\<lparr>conn_timer := 0\<rparr>) y else y)"
    using assms unfolding e by (auto split: if_splits)
  have l: "take TCP_MSS (take n bs) = take n bs" "length (take n bs) = n" "take n bs \<noteq> []" "n \<le> TCP_MSS" "n \<le> length bs"
    using g(2) assms(2) by (auto simp: m_def)
  have s': "sk s' (nat k) = (if state ?x = TCP_CLOSE_WAIT then (seg_sent (TCP_PSH OR TCP_ACK) (take n bs) ?x)\<lparr>conn_timer := 0\<rparr>
      else seg_sent (TCP_PSH OR TCP_ACK) (take n bs) ?x)"
    unfolding g(3) y_def g(2) by simp
  have q: "snd_nxt (sk s' (nat k)) = snd_nxt ?x + of_nat n" "snd_una (sk s' (nat k)) = snd_una ?x"
    "retx_q (sk s' (nat k)) ((retx_head ?x + retx_nseg ?x) mod TCP_RETX_SLOTS) =
      \<lparr>r_seq = snd_nxt ?x, r_flags = TCP_PSH OR TCP_ACK, r_data = take n bs\<rparr>"
    using l unfolding s' by (simp_all add: seg_sent_def)
  have wd: "unat (w - fl) = unat w - unat fl" using g(1) by (simp add: unat_sub)
  have "unat (fl + of_nat n) \<le> unat w"
  proof -
    have "n \<le> unat w - unat fl" using g(2) wd by (simp add: m_def)
    moreover have "unat fl < unat w" using g(1) by (simp add: word_less_nat_alt)
    moreover have "unat (of_nat n :: u32) = n" using l(4) by (simp add: unat_of_nat take_bit_nat_eq_self TCP_MSS_def)
    moreover have "unat w < 2 ^ 32" using unsigned_less [of w, where 'a = nat] by simp
    ultimately show ?thesis by (subst unat_add_lem [THEN iffD1]) simp_all
  qed
  moreover have "unat w = unat (snd_wnd ?x)"
    using unsigned_less [of "snd_wnd ?x", where 'a = nat] by (simp add: w_def unsigned_ucast_eq take_bit_nat_eq_self)
  moreover have "snd_nxt (sk s' (nat k)) - snd_una (sk s' (nat k)) = fl + of_nat n" by (simp add: q fl_def)
  ultimately have "unat (snd_nxt (sk s' (nat k)) - snd_una (sk s' (nat k))) \<le> unat (snd_wnd ?x)" by (simp only:)
  then show ?thesis using l(4,5) q(1,3) by (intro conjI)
qed

definition tcp_open_sock :: tcp_net where
  "tcp_open_sock = upd_sock 0 (\<lambda>_. sock_zero\<lparr>state := TCP_ESTABLISHED, snd_wnd := 2\<rparr>) tcp_blank"

lemma tcp_send_window_witness:
  "\<exists>s'. tcp_send 0 [1, 2, 3] tcp_open_sock = (2, s') \<and> snd_nxt (sk s' 0) = 2"
proof -
  have x: "sk tcp_open_sock 0 = sock_zero\<lparr>state := TCP_ESTABLISHED, snd_wnd := 2\<rparr>" by (simp add: tcp_open_sock_def)
  obtain s' where s': "tcp_send 0 [1, 2, 3] tcp_open_sock = (2, s')"
    by (simp add: tcp_send_def Let_def x sock_zero_def valid_sock_def TCP_MAX_SOCKETS_def TCP_RETX_SLOTS_def TCP_MSS_def)
  then have "snd_nxt (sk s' 0) = 2" using tcp_send_window [OF s'] x by (simp add: sock_zero_def)
  then show ?thesis using s' by blast
qed

section \<open>Ephemeral ports\<close>

definition eph_succ :: "u16 \<Rightarrow> u16" where
  "eph_succ p = (if p + 1 = 0 \<or> p + 1 < 49152 then 49152 else p + 1)"

lemma eph_succ_nat:
  assumes "49152 \<le> p"
  shows "49152 \<le> eph_succ p" "unat (eph_succ p) = 49152 + (unat p - 49152 + 1) mod 16384"
proof -
  have p: "49152 \<le> unat p" "unat p < 2 ^ 16" using assms unsigned_less [of p, where 'a = nat] by (simp_all add: word_le_nat_alt)
  have "unat (eph_succ p) = 49152 + (unat p - 49152 + 1) mod 16384"
  proof (cases "p + 1 = 0")
    case True
    then have "p = - 1" by (simp add: add_eq_0_iff2)
    then have "unat p = 65535" by (simp add: unsigned_minus_1_eq_mask mask_eq_exp_minus_1)
    then show ?thesis using True by (simp add: eph_succ_def)
  next
    case False
    then have u: "unat (p + 1) = unat p + 1" using unatSuc [of p] by (simp add: add.commute)
    then have "unat p + 1 < 2 ^ 16" using unsigned_less [of "p + 1", where 'a = nat] by simp
    then have "(unat p - 49152 + 1) mod 16384 = unat p - 49152 + 1" using p by simp
    moreover have "\<not> p + 1 < 49152" using u p by (simp add: word_less_nat_alt)
    ultimately show ?thesis using False u p by (simp add: eph_succ_def)
  qed
  then show "unat (eph_succ p) = 49152 + (unat p - 49152 + 1) mod 16384" "49152 \<le> eph_succ p"
    by (simp_all add: word_le_nat_alt)
qed

lemma eph_pow_nat:
  assumes "49152 \<le> p"
  shows "49152 \<le> (eph_succ ^^ m) p \<and> unat ((eph_succ ^^ m) p) = 49152 + (unat p - 49152 + m) mod 16384"
proof (induction m)
  case 0
  have "unat p - 49152 < 16384" using unsigned_less [of p, where 'a = nat] by simp
  then show ?case using assms by (simp add: word_le_nat_alt)
next
  case (Suc m)
  define h where "h = (eph_succ ^^ m) p"
  have h: "49152 \<le> h" "unat h = 49152 + (unat p - 49152 + m) mod 16384" using Suc by (simp_all add: h_def)
  have "((unat p - 49152 + m) mod 16384 + 1) mod 16384 = (unat p - 49152 + Suc m) mod 16384"
    by (simp only: mod_add_left_eq add_Suc_right Suc_eq_plus1 add.assoc)
  then show ?case using eph_succ_nat [OF h(1)] h(2) by (simp add: h_def [symmetric])
qed

lemma eph_pow_inj:
  assumes "49152 \<le> p"
  shows "inj_on (\<lambda>m. (eph_succ ^^ m) p) {..<16384}"
proof (rule inj_onI)
  fix m n assume b: "m \<in> {..<16384}" "n \<in> {..<16384}" and e: "(eph_succ ^^ m) p = (eph_succ ^^ n) p"
  have "(unat p - 49152 + m) mod 16384 = (unat p - 49152 + n) mod 16384"
    using eph_pow_nat [OF assms, of m] eph_pow_nat [OF assms, of n] unfolding e by simp
  then show "m = n" using mod_add_inj [of "unat p - 49152" m 16384 n] b by simp
qed

definition port_taken :: "u16 \<Rightarrow> 'a tcp_net_scheme \<Rightarrow> bool" where
  "port_taken p s \<longleftrightarrow> (\<exists>i<8. state (sk s i) \<noteq> TCP_CLOSED \<and> local_port (sk s i) = p)"

lemma pick_port_cases:
  "(\<exists>j<k. fst (pick_port k s) = (eph_succ ^^ j) (g_eph_next s) \<and> \<not> port_taken ((eph_succ ^^ j) (g_eph_next s)) s) \<or>
   (\<forall>j<k. port_taken ((eph_succ ^^ j) (g_eph_next s)) s)"
proof (induction k arbitrary: s)
  case (Suc k)
  define e where "e = g_eph_next s"
  let ?s = "s\<lparr>g_eph_next := eph_succ e\<rparr>"
  have t: "port_taken p ?s = port_taken p s" for p by (simp add: port_taken_def)
  have f: "(first_index (\<lambda>i. state (sk ?s i) \<noteq> TCP_CLOSED \<and> local_port (sk ?s i) = e) TCP_MAX_SOCKETS = None) = (\<not> port_taken e s)"
    by (auto simp: first_index_None port_taken_def TCP_MAX_SOCKETS_def)
  have p: "pick_port (Suc k) s = (if \<not> port_taken e s then (e, ?s) else pick_port k ?s)"
    using f by (simp add: Let_def e_def eph_succ_def del: first_index_None)
  show ?case
  proof (cases "port_taken e s")
    case False
    then show ?thesis using p by (intro disjI1 exI [of _ 0]) (simp add: e_def)
  next
    case True
    have sh: "(eph_succ ^^ j) (eph_succ e) = (eph_succ ^^ Suc j) e" for j by (simp add: funpow_swap1)
    have r: "fst (pick_port (Suc k) s) = fst (pick_port k ?s)" using p True by simp
    consider (found) j where "j < k" "fst (pick_port k ?s) = (eph_succ ^^ j) (eph_succ e)"
        "\<not> port_taken ((eph_succ ^^ j) (eph_succ e)) s"
      | (none) "\<forall>j<k. port_taken ((eph_succ ^^ j) (eph_succ e)) s"
      using Suc.IH [of ?s] unfolding t by auto
    then show ?thesis
    proof cases
      case found
      then show ?thesis unfolding r e_def [symmetric] sh by (intro disjI1 exI [of _ "Suc j"]) simp
    next
      case none
      have "port_taken ((eph_succ ^^ j) e) s" if "j < Suc k" for j
        using none that True unfolding sh by (cases j) auto
      then show ?thesis unfolding e_def [symmetric] by blast
    qed
  qed
qed simp

text \<open>(C27) Ephemeral ports: \<open>pick_ephemeral_port\<close> returns a port of the dynamic range that no open socket
  uses, however many sockets are open and wherever the counter stands.\<close>

theorem ephemeral_port_free:
  assumes "49152 \<le> g_eph_next s"
  shows "49152 \<le> fst (pick_ephemeral_port s) \<and> 49152 \<le> g_eph_next (snd (pick_ephemeral_port s)) \<and>
    (\<forall>i<TCP_MAX_SOCKETS. state (sk s i) \<noteq> TCP_CLOSED \<longrightarrow> local_port (sk s i) \<noteq> fst (pick_ephemeral_port s))"
proof -
  have "\<not> (\<forall>j<16384. port_taken ((eph_succ ^^ j) (g_eph_next s)) s)"
  proof
    assume a: "\<forall>j<16384. port_taken ((eph_succ ^^ j) (g_eph_next s)) s"
    let ?c = "\<lambda>j. (eph_succ ^^ j) (g_eph_next s)"
    have "?c ` {..<9} \<subseteq> (\<lambda>i. local_port (sk s i)) ` {..<8}" 
    proof
      fix p assume "p \<in> ?c ` {..<9}"
      then obtain j where "j < 9" "p = ?c j" by blast
      then have "port_taken p s" using a by simp
      then show "p \<in> (\<lambda>i. local_port (sk s i)) ` {..<8}" by (auto simp: port_taken_def)
    qed
    then have "card (?c ` {..<9}) \<le> card ((\<lambda>i. local_port (sk s i)) ` {..<8 :: nat})" by (intro card_mono) simp_all
    also have "\<dots> \<le> 8" using card_image_le [of "{..<8 :: nat}"] by simp
    finally have "card (?c ` {..<9}) \<le> 8" .
    moreover have "inj_on ?c {..<9}" by (rule inj_on_subset [OF eph_pow_inj [OF assms]]) auto
    ultimately show False by (simp add: card_image)
  qed
  then obtain j where j: "fst (pick_port 16384 s) = (eph_succ ^^ j) (g_eph_next s)" "\<not> port_taken ((eph_succ ^^ j) (g_eph_next s)) s"
    using pick_port_cases [of 16384 s] by blast
  have "49152 \<le> g_eph_next (snd (pick_port n u))" if "49152 \<le> g_eph_next u" for n and u :: "'a tcp_net_scheme"
    using that by (induction n arbitrary: u) (auto simp: Let_def not_less)
  then show ?thesis using j eph_pow_nat [OF assms, of j] assms
    by (auto simp: pick_ephemeral_port_def port_taken_def TCP_MAX_SOCKETS_def)
qed

lemma ephemeral_port_free_witness: "49152 \<le> g_eph_next tcp_one \<and> 49152 \<le> fst (pick_ephemeral_port tcp_one)"
proof -
  have "alloc_sock tcp_blank = Some 0" by (simp add: alloc_sock_def first_index_Some TCP_MAX_SOCKETS_def sock_zero_def)
  then have g: "49152 \<le> g_eph_next tcp_one" by (simp add: tcp_one_def tcp_connect_def next_conn_gen_def Let_def)
  then show ?thesis using ephemeral_port_free [OF g] by simp
qed

end
