(* ===== verification/Tcp_Stream.thy ===== *)
theory Tcp_Stream
  imports Tcp_Props
begin

text \<open>
  The receiver's byte stream: whatever segments arrive, in any order, duplicated or overlapping, the
  bytes handed to the reader are the sender's bytes, each once and in sequence.
\<close>

section \<open>One segment\<close>

definition tcp_ring_of :: "tcp_sock \<Rightarrow> u8 list" where
  "tcp_ring_of x = ring_bytes 4096 (rx_buf x, rx_head x, rx_tail x)"

definition carries :: "(u32 \<Rightarrow> u8) \<Rightarrow> u32 \<Rightarrow> u8 list \<Rightarrow> bool" where
  "carries S sq bs \<longleftrightarrow> length bs < 2 ^ 16 \<and> (\<forall>k<length bs. bs ! k = S (sq + of_nat k))"

definition stream :: "(u32 \<Rightarrow> u8) \<Rightarrow> u32 \<Rightarrow> nat \<Rightarrow> u8 list" where
  "stream S sq n = map (\<lambda>j. S (sq + of_nat j)) [0..<n]"

lemma stream_add: "stream S sq (m + n) = stream S sq m @ stream S (sq + of_nat m) n"
proof -
  have "map (\<lambda>j. S (sq + of_nat m + of_nat j)) [0..<n] = map (\<lambda>j. S (sq + of_nat j)) (map (\<lambda>j. j + m) [0..<n])"
    by (simp add: algebra_simps)
  then show ?thesis unfolding stream_def map_add_upt by (simp add: upt_add_eq_append [of 0 m n] add.commute)
qed

text \<open>How far into the segment the next expected byte lies, and the signed distance of the code.\<close>

lemma ahead_cases:
  fixes sq nx :: u32
  defines "ahead \<equiv> sint (sq - nx)" and "off \<equiv> unat (nx - sq)"
  assumes "n < 2 ^ 16"
  shows "off < n \<Longrightarrow> ahead = - int off"
    and "\<not> off < n \<Longrightarrow> ahead > 0 \<or> (ahead < 0 \<and> nat (- ahead) \<ge> n) \<or> (off = 0 \<and> n = 0)"
proof -
  have w: "sq - nx = of_int (- int off)" by (simp add: off_def)
  have b: "off < 2 ^ 32" using unsigned_less [of "nx - sq", where 'a = nat] by (simp add: off_def)
  have s: "ahead = - int off" if "off \<le> 2 ^ 31"
    using sint_small [of "- int off"] that unfolding ahead_def w by simp
  then show "off < n \<Longrightarrow> ahead = - int off" using assms(3) by simp
  assume n: "\<not> off < n"
  show "ahead > 0 \<or> (ahead < 0 \<and> nat (- ahead) \<ge> n) \<or> (off = 0 \<and> n = 0)"
  proof (cases "off \<le> 2 ^ 31")
    case True
    then show ?thesis using s n by auto
  next
    case False
    have "sq - nx = of_int (2 ^ 32 - int off)" unfolding w by simp
    then have "ahead = 2 ^ 32 - int off" unfolding ahead_def using sint_small [of "2 ^ 32 - int off"] False b by simp
    then show ?thesis using b by simp
  qed
qed

lemma carries_drop:
  assumes "carries S sq bs" "unat (nx - sq) < length bs"
  shows "take r (drop (unat (nx - sq)) bs) = stream S nx (min (length bs - unat (nx - sq)) r)"
proof (rule nth_equalityI)
  show "length (take r (drop (unat (nx - sq)) bs)) = length (stream S nx (min (length bs - unat (nx - sq)) r))"
    by (simp add: stream_def)
  fix k assume k: "k < length (take r (drop (unat (nx - sq)) bs))"
  have e: "sq + of_nat (unat (nx - sq) + k) = nx + of_nat k" by simp
  have "bs ! (unat (nx - sq) + k) = S (sq + of_nat (unat (nx - sq) + k))" 
  proof -
    have "unat (nx - sq) + k < length bs" using k by (simp, linarith)
    then show ?thesis using assms(1) unfolding carries_def by blast
  qed
  then show "take r (drop (unat (nx - sq)) bs) ! k = stream S nx (min (length bs - unat (nx - sq)) r) ! k"
    using assms(2) k unfolding e by (simp add: stream_def)
qed

lemma data_in_stream:
  assumes "rx_head x < 4096" "rx_tail x < 4096" "carries S sq bs"
  defines "off \<equiv> unat (rcv_nxt x - sq)"
  defines "n \<equiv> (if off < length bs then min (length bs - off) (4095 - length (tcp_ring_of x)) else 0)"
  shows "tcp_ring_of (data_in sq bs x) = tcp_ring_of x @ stream S (rcv_nxt x) n"
    "rcv_nxt (data_in sq bs x) = rcv_nxt x + of_nat n" "rx_head (data_in sq bs x) = rx_head x" "rx_tail (data_in sq bs x) < 4096"
proof -
  have l: "length bs < 2 ^ 16" using assms(3) by (simp add: carries_def)
  define ahead where "ahead = sint (sq - rcv_nxt x)"
  have "tcp_ring_of (data_in sq bs x) = tcp_ring_of x @ stream S (rcv_nxt x) n \<and>
    rcv_nxt (data_in sq bs x) = rcv_nxt x + of_nat n \<and> rx_head (data_in sq bs x) = rx_head x \<and> rx_tail (data_in sq bs x) < 4096"
  proof (cases "off < length bs")
    case True
    have a: "ahead = - int off" using ahead_cases(1) [OF l, of "rcv_nxt x" sq] True unfolding ahead_def off_def by simp
    have ds: "(if ahead < 0 then drop (nat (- ahead)) bs else bs) = drop off bs" by (simp add: a)
    have o: "(1 :: u16) < 4096" "unat (0 :: u16) + length (drop off bs) < 2 ^ 16" using l by simp_all
    obtain b t where p: "rbuf_put (rx_buf x) (rx_tail x) (rx_head x) 4096 (drop off bs) 0 = (of_nat n, b, t)" "t < 4096"
      "ring_bytes 4096 (b, rx_head x, t) = tcp_ring_of x @ take (4095 - length (tcp_ring_of x)) (drop off bs)"
      using rbuf_put_spec [OF o(1) assms(1,2) o(2), of "rx_buf x"] True
      unfolding n_def by (auto simp: tcp_ring_of_def)
    have n16: "n < 2 ^ 16" using l unfolding n_def by (auto simp: min_def)
    have u: "ucast (of_nat n :: u16) = (of_nat n :: u32)"
      using n16 by (simp add: word_unat_eq_iff unsigned_ucast_eq unat_of_nat take_bit_nat_eq_self)
    have e: "data_in sq bs x = x\<lparr>rx_buf := b, rx_tail := t, rcv_nxt := rcv_nxt x + of_nat n\<rparr>"
      unfolding data_in_def Let_def ahead_def [symmetric] ds TCP_RX_BUF_SIZE_def p(1) using True a u by auto
    have "take (4095 - length (tcp_ring_of x)) (drop off bs) = stream S (rcv_nxt x) n"
      using carries_drop [OF assms(3) True [unfolded off_def]] True unfolding n_def off_def by simp
    then show ?thesis using p e by (simp add: tcp_ring_of_def)
  next
    case False
    have "ahead > 0 \<or> (ahead < 0 \<and> nat (- ahead) \<ge> length bs) \<or> (off = 0 \<and> length bs = 0)"
      using ahead_cases(2) [OF l, of "rcv_nxt x" sq] False unfolding ahead_def off_def by simp
    then have "data_in sq bs x = x \<or> (bs = [] \<and> off = 0 \<and> \<not> ahead < 0)"
      unfolding data_in_def Let_def ahead_def [symmetric] by auto
    moreover have "data_in sq [] x = x" if "\<not> ahead < 0"
      using that unfolding data_in_def Let_def ahead_def [symmetric] by simp
    ultimately have "data_in sq bs x = x" by auto
    then show ?thesis using False assms(2) by (simp add: n_def stream_def)
  qed
  then show "tcp_ring_of (data_in sq bs x) = tcp_ring_of x @ stream S (rcv_nxt x) n"
    "rcv_nxt (data_in sq bs x) = rcv_nxt x + of_nat n" "rx_head (data_in sq bs x) = rx_head x" "rx_tail (data_in sq bs x) < 4096"
    by simp_all
qed


section \<open>Sequences of segments and reads\<close>

datatype stream_ev = Segment u32 "u8 list" | Read u16

fun stream_run :: "nat \<Rightarrow> stream_ev list \<Rightarrow> 'a tcp_net_scheme \<Rightarrow> u8 list \<times> 'a tcp_net_scheme" where
  "stream_run i [] s = ([], s)"
| "stream_run i (Segment sq bs # es) s = stream_run i es (tcp_rx_data i sq bs s)"
| "stream_run i (Read n # es) s =
     (let (out, s) = tcp_recv (int i) n s; (rest, s) = stream_run i es s in (out @ rest, s))"

definition ev_carries :: "(u32 \<Rightarrow> u8) \<Rightarrow> stream_ev \<Rightarrow> bool" where
  "ev_carries S e = (case e of Segment sq bs \<Rightarrow> carries S sq bs | Read _ \<Rightarrow> True)"

lemma tcp_recv_ring:
  assumes "i < 8" "rx_head (sk s i) < 4096" "rx_tail (sk s i) < 4096" "tcp_recv (int i) n s = (out, s')"
  shows "out @ tcp_ring_of (sk s' i) = tcp_ring_of (sk s i)" "rcv_nxt (sk s' i) = rcv_nxt (sk s i)"
    "rx_head (sk s' i) < 4096" "rx_tail (sk s' i) < 4096"
proof -
  let ?x = "sk s i"
  have v: "valid_sock (int i)" using assms(1) by (simp add: valid_sock_def TCP_MAX_SOCKETS_def)
  have o: "(1 :: u16) < 4096" by simp
  obtain h where g: "rbuf_get (rx_buf ?x) (rx_head ?x) (rx_tail ?x) 4096 (unat n) = (take (unat n) (tcp_ring_of ?x), h)"
    "h < 4096" "ring_bytes 4096 (rx_buf ?x, h, rx_tail ?x) = drop (unat n) (tcp_ring_of ?x)"
    using rbuf_get_spec [OF o assms(2,3), of "rx_buf ?x" "unat n"] by (auto simp: tcp_ring_of_def)
  have s': "out = take (unat n) (tcp_ring_of ?x)"
    "sk s' i = (if out \<noteq> [] \<and> state ?x = TCP_CLOSE_WAIT then ?x\<lparr>rx_head := h, conn_timer := 0\<rparr> else ?x\<lparr>rx_head := h\<rparr>)"
  proof -
    have f: "fst (tcp_recv (int i) n s) = take (unat n) (tcp_ring_of ?x)"
      using v g(1) by (simp add: tcp_recv_def TCP_RX_BUF_SIZE_def Let_def)
    then show o: "out = take (unat n) (tcp_ring_of ?x)" using assms(4) by simp
    have "sk (snd (tcp_recv (int i) n s)) i = (if take (unat n) (tcp_ring_of ?x) \<noteq> [] \<and> state ?x = TCP_CLOSE_WAIT
        then ?x\<lparr>rx_head := h, conn_timer := 0\<rparr> else ?x\<lparr>rx_head := h\<rparr>)"
      using v g(1) by (simp add: tcp_recv_def TCP_RX_BUF_SIZE_def Let_def)
    then show "sk s' i = (if out \<noteq> [] \<and> state ?x = TCP_CLOSE_WAIT then ?x\<lparr>rx_head := h, conn_timer := 0\<rparr> else ?x\<lparr>rx_head := h\<rparr>)"
      unfolding o assms(4) snd_conv .
  qed
  have r: "rx_buf (sk s' i) = rx_buf ?x" "rx_head (sk s' i) = h" "rx_tail (sk s' i) = rx_tail ?x" "rcv_nxt (sk s' i) = rcv_nxt ?x"
    using s'(2) by simp_all
  show "out @ tcp_ring_of (sk s' i) = tcp_ring_of ?x" unfolding s'(1) tcp_ring_of_def [of "sk s' i"] r g(3) by simp
  show "rcv_nxt (sk s' i) = rcv_nxt ?x" "rx_head (sk s' i) < 4096" "rx_tail (sk s' i) < 4096" using r g(2) assms(3) by simp_all
qed

lemma stream_run_spec:
  assumes "i < 8" "rx_head (sk s i) < 4096" "rx_tail (sk s i) < 4096" "list_all (ev_carries S) es"
    "stream_run i es s = (out, s')"
  shows "\<exists>n. out @ tcp_ring_of (sk s' i) = tcp_ring_of (sk s i) @ stream S (rcv_nxt (sk s i)) n \<and>
    rcv_nxt (sk s' i) = rcv_nxt (sk s i) + of_nat n"
  using assms
proof (induction es arbitrary: s out)
  case Nil
  then show ?case by (intro exI [of _ 0]) (simp add: stream_def)
next
  case (Cons e es)
  show ?case
  proof (cases e)
    case (Segment sq bs)
    let ?s = "tcp_rx_data i sq bs s"
    have x: "sk ?s i = data_in sq bs (sk s i)" using sock_upd_at [OF rx_data_upd] .
    have "carries S sq bs" using Cons.prems(4) Segment by (simp add: ev_carries_def)
    note d = data_in_stream [OF Cons.prems(2,3) this]
    obtain k where k: "tcp_ring_of (sk ?s i) = tcp_ring_of (sk s i) @ stream S (rcv_nxt (sk s i)) k"
      "rcv_nxt (sk ?s i) = rcv_nxt (sk s i) + of_nat k" unfolding x using d(1,2) by blast
    obtain n where "out @ tcp_ring_of (sk s' i) = tcp_ring_of (sk ?s i) @ stream S (rcv_nxt (sk ?s i)) n"
      "rcv_nxt (sk s' i) = rcv_nxt (sk ?s i) + of_nat n"
      using Cons.IH [of ?s out] Cons.prems Segment d(3,4) unfolding x by auto
    then show ?thesis unfolding k by (intro exI [of _ "k + n"]) (simp add: stream_add)
  next
    case (Read m)
    obtain o1 s1 where r: "tcp_recv (int i) m s = (o1, s1)" by force
    obtain o2 s2 where r2: "stream_run i es s1 = (o2, s2)" by force
    then have o2: "stream_run i es s1 = (o2, s')" "out = o1 @ o2" using Cons.prems(5) Read r by simp_all
    note v = tcp_recv_ring [OF Cons.prems(1-3) r]
    obtain n where "o2 @ tcp_ring_of (sk s' i) = tcp_ring_of (sk s1 i) @ stream S (rcv_nxt (sk s1 i)) n"
      "rcv_nxt (sk s' i) = rcv_nxt (sk s1 i) + of_nat n"
      using Cons.IH [OF Cons.prems(1) v(3,4) _ o2(1)] Cons.prems(4) by auto
    then show ?thesis unfolding o2(2) v(2) using v(1) by (intro exI [of _ n]) (metis append.assoc)
  qed
qed

definition stream_demo :: "stream_ev list" where
  "stream_demo = [Segment 2 [2, 3], Segment 0 [0, 1], Segment 1 [1, 2, 3], Read 2, Segment 0 [0, 1]]"

lemma carries_stream: "n < 2 ^ 16 \<Longrightarrow> carries S sq (stream S sq n)"
  by (simp add: carries_def stream_def)

lemma stream_small:
  "stream S sq 2 = [S sq, S (sq + 1)]" "stream S sq 3 = [S sq, S (sq + 1), S (sq + 2)]"
  by (simp_all add: stream_def upt_rec)

lemma carries_demo:
  "carries ucast 2 [2, 3]" "carries ucast 0 [0, 1]" "carries ucast 1 [1, 2, 3]" "carries ucast 0 [0, 1, 2]"
  using carries_stream [of 2 ucast 2] carries_stream [of 2 ucast 0] carries_stream [of 3 ucast 1] carries_stream [of 3 ucast 0]
  by (simp_all add: stream_small)

lemma stream_demo_carries: "list_all (ev_carries ucast) stream_demo"
  using carries_demo by (simp add: stream_demo_def ev_carries_def)

text \<open>(C4) The stream: on a socket of a reachable state, let segments of a sender's stream \<open>S\<close> arrive in
  any order, any number of times, overlapping and with gaps, mixed with reads of any size.  Then the
  bytes read so far, followed by those waiting in the ring, are what was waiting before followed by
  consecutive bytes of \<open>S\<close> from the sequence number expected first, without loss, repetition or
  reordering, and \<open>rcv_nxt\<close> has advanced by exactly their number.\<close>

theorem tcp_stream_in_order:
  assumes "tcp_reach s" "i < TCP_MAX_SOCKETS" "list_all (ev_carries S) es" "stream_run i es s = (out, s')"
  shows "\<exists>n. out @ tcp_ring_of (sk s' i) = tcp_ring_of (sk s i) @ stream S (rcv_nxt (sk s i)) n \<and>
    rcv_nxt (sk s' i) = rcv_nxt (sk s i) + of_nat n"
proof -
  have "sock_ok (sk s i)" using tcp_reach_inv [OF assms(1)] by (simp add: tcp_inv_def sock_inv_def)
  then show ?thesis using stream_run_spec [OF _ _ _ assms(3,4)] assms(2) by (simp add: sock_ok_def TCP_MAX_SOCKETS_def)
qed

lemma tcp_stream_in_order_witness:
  "list_all (ev_carries ucast) stream_demo \<and>
   (\<exists>out s' n. stream_run 0 stream_demo tcp_one = (out, s') \<and>
      out @ tcp_ring_of (sk s' 0) = tcp_ring_of (sk tcp_one 0) @ stream ucast (rcv_nxt (sk tcp_one 0)) n)"
proof -
  obtain out s' where r: "stream_run 0 stream_demo tcp_one = (out, s')" by force
  then show ?thesis using tcp_stream_in_order [OF tcp_one_reach _ stream_demo_carries r] stream_demo_carries
    by (auto simp: TCP_MAX_SOCKETS_def)
qed

text \<open>(C25) Progress of the receiver: a segment that holds the next expected byte is taken from that byte
  on, as far as the ring has room; any other segment leaves the stream alone.\<close>

theorem tcp_rx_progress:
  assumes "tcp_reach s" "carries S sq bs"
  shows "tcp_ring_of (sk (tcp_rx_data i sq bs s) i) = tcp_ring_of (sk s i) @ stream S (rcv_nxt (sk s i))
     (if unat (rcv_nxt (sk s i) - sq) < length bs
      then min (length bs - unat (rcv_nxt (sk s i) - sq)) (4095 - length (tcp_ring_of (sk s i))) else 0)"
proof -
  have "sock_ok (sk s i)" using tcp_reach_inv [OF assms(1)] by (simp add: tcp_inv_def sock_inv_def)
  then show ?thesis using data_in_stream(1) [OF _ _ assms(2)] unfolding sock_upd_at [OF rx_data_upd] by (simp add: sock_ok_def)
qed


lemma tcp_rx_progress_witness:
  "carries ucast 0 [0, 1, 2] \<and> tcp_ring_of (sk (tcp_rx_data 0 0 [0, 1, 2] tcp_one) 0) = [0, 1, 2]"
proof -
  have x: "rcv_nxt (sk tcp_one 0) = 0" "tcp_ring_of (sk tcp_one 0) = []"
    by (simp_all add: tcp_one_sock sock_zero_def tcp_ring_of_def ring_bytes_def ring_len_def)
  have "stream ucast 0 3 = ([0, 1, 2] :: u8 list)" by (simp add: stream_small)
  then show ?thesis using tcp_rx_progress [OF tcp_one_reach carries_demo(4), where i = 0] carries_demo(4) x
    by (simp add: numeral_3_eq_3)
qed

end
