(* ===== verification/Net_Text.thy ===== *)
theory Net_Text
  imports Net_Rx
begin

text \<open>
  The text form of addresses (\<^verbatim>\<open>kernel/net/stack.c\<close>): printing and parsing are inverse, and what the
  parser accepts beyond that.
\<close>

section \<open>Numbers\<close>

lemma three: "(3 :: nat) = Suc (Suc (Suc 0))" by simp

lemma four: "(4 :: nat) = Suc (Suc (Suc (Suc 0)))" by simp

lemma digit_char: "n < 10 \<Longrightarrow> is_digit (char_of (48 + n :: nat)) \<and> (of_char (char_of (48 + n :: nat)) :: nat) = 48 + n"
  by (simp add: is_digit_def of_char_of)

lemma read_dec_digits:
  assumes "n < 10 ^ k"
  shows "read_dec (rev (dec_digits k n) @ rest) v d =
    read_dec rest (v * 10 ^ length (dec_digits k n) + of_nat n) (d + length (dec_digits k n))"
  using assms
proof (induction k arbitrary: n rest)
  case (Suc k)
  show ?case
  proof (cases "n = 0")
    case False
    have c: "is_digit (char_of (48 + n mod 10 :: nat))" "(of_char (char_of (48 + n mod 10 :: nat)) :: nat) - 48 = n mod 10"
      using digit_char [of "n mod 10"] by simp_all
    have m: "(v * 10 ^ l + of_nat (n div 10)) * 10 + of_nat (n mod 10) = v * 10 ^ Suc l + (of_nat n :: u32)" for l
    proof -
      have "(of_nat (n div 10) * 10 + of_nat (n mod 10) :: u32) = of_nat (n div 10 * 10 + n mod 10)" by (simp only: of_nat_add of_nat_mult of_nat_numeral)
      then show ?thesis by (simp add: algebra_simps)
    qed
    let ?l = "length (dec_digits k (n div 10))"
    have "n div 10 < 10 ^ k" using Suc.prems by (simp add: less_mult_imp_div_less mult.commute)
    note ih = Suc.IH [OF this, of "char_of (48 + n mod 10 :: nat) # rest"]
    have "read_dec (char_of (48 + n mod 10 :: nat) # rest) (v * 10 ^ ?l + of_nat (n div 10)) (d + ?l) =
        read_dec rest (v * 10 ^ Suc ?l + of_nat n) (d + ?l + 1)"
      unfolding read_dec.simps c m by (simp only: c if_True)
    then show ?thesis using False ih by (simp del: power_Suc read_dec.simps)
  qed simp
qed simp

lemma u8_to_dec_read:
  assumes "rest = [] \<or> \<not> is_digit (hd rest)"
  shows "\<exists>d. read_dec (u8_to_dec v @ rest) 0 0 = (ucast v, Suc d, rest)" "u8_to_dec v @ rest \<noteq> []"
proof -
  have stop: "read_dec rest w d = (w, d, rest)" for w d using assms by (cases rest) auto
  have b: "unat v < 256" using unsigned_less [of v, where 'a = nat] by simp
  have uc: "(of_nat (unat v) :: u32) = ucast v" by simp
  show "\<exists>d. read_dec (u8_to_dec v @ rest) 0 0 = (ucast v, Suc d, rest)"
  proof (cases "v = 0")
    case True
    then show ?thesis using stop digit_char [of 0] by (simp add: u8_to_dec_def is_digit_def)
  next
    case False
    have l: "length (dec_digits 4 (unat v)) = Suc (length (dec_digits 3 (unat v div 10)))"
      unfolding four [unfolded three [symmetric]] dec_digits.simps using False by (simp add: unat_eq_0)
    have "unat v < 10 ^ 4" using b by simp
    from read_dec_digits [OF this, of rest 0 0] show ?thesis
      using False stop l uc by (auto simp: u8_to_dec_def)
  qed
  show "u8_to_dec v @ rest \<noteq> []" by (auto simp: u8_to_dec_def four unat_eq_0)
qed

section \<open>Addresses\<close>

lemma octet_small: "\<not> (ucast (v :: u8) :: u32) > 255"
  using unsigned_less [of v, where 'a = nat] by (simp add: word_less_nat_alt unsigned_ucast_eq take_bit_nat_eq_self)

lemma read_octets_last:
  assumes "rest = [] \<or> \<not> is_digit (hd rest)"
  shows "read_octets 1 (u8_to_dec v @ rest) r = Some (push_bit 8 r OR ucast v)"
  using u8_to_dec_read [OF assms, of v] octet_small [of v] by auto

lemma read_octets_dot:
  assumes "0 < k"
  shows "read_octets (Suc k) (u8_to_dec v @ CHR ''.'' # cs) r = read_octets k cs (push_bit 8 r OR ucast v)"
  using u8_to_dec_read [of "CHR ''.'' # cs" v] octet_small [of v] assms by (auto simp: is_digit_def)

lemma octets_join:
  fixes ip :: u32
  shows "push_bit 8 (push_bit 8 (push_bit 8 (push_bit 8 0 OR ucast (ucast (drop_bit 24 ip) :: u8)) OR
    ucast (ucast (drop_bit 16 ip) :: u8)) OR ucast (ucast (drop_bit 8 ip) :: u8)) OR ucast (ucast ip :: u8) = ip" (is "?w = ip")
proof (rule bit_word_eqI)
  fix n assume "n < LENGTH(32)"
  then have "n < 8 \<or> (8 \<le> n \<and> n < 16) \<or> (16 \<le> n \<and> n < 24) \<or> (24 \<le> n \<and> n < 32)" by (simp, linarith)
  then show "bit ?w n = bit ip n"
    by (elim disjE conjE) (simp_all add: bit_simps less_diff_conv2)
qed

text \<open>(C31) Parsing an address that was printed gives the address back.\<close>

theorem ip_text_roundtrip: "net_str_to_ip (net_ip_to_str ip) = Some ip"
proof -
  have "net_str_to_ip (net_ip_to_str ip) = read_octets (Suc (Suc (Suc 1))) (u8_to_dec (ucast (drop_bit 24 ip)) @ CHR ''.'' #
      u8_to_dec (ucast (drop_bit 16 ip)) @ CHR ''.'' # u8_to_dec (ucast (drop_bit 8 ip)) @ CHR ''.'' # u8_to_dec (ucast ip) @ []) 0"
    by (simp add: net_str_to_ip_def net_ip_to_str_def four del: read_octets.simps)
  then show ?thesis
    by (simp only: read_octets_dot read_octets_last [OF disjI1 [OF refl]] octets_join zero_less_Suc zero_less_one)
qed

section \<open>What the parser accepts\<close>

text \<open>The number a string of digits denotes, and strings of digits.\<close>

definition dec_value :: "string \<Rightarrow> nat" where
  "dec_value ds = foldl (\<lambda>v c. v * 10 + (of_char c - 48)) 0 ds"

definition digits :: "string \<Rightarrow> bool" where "digits ds \<longleftrightarrow> ds \<noteq> [] \<and> list_all is_digit ds"

lemma read_dec_any:
  assumes "list_all is_digit ds" "rest = [] \<or> \<not> is_digit (hd rest)"
  shows "read_dec (ds @ rest) (of_nat v) d = (of_nat (foldl (\<lambda>v c. v * 10 + (of_char c - 48)) v ds), d + length ds, rest)"
  using assms
proof (induction ds arbitrary: v d)
  case Nil
  then show ?case by (cases rest) auto
next
  case (Cons c ds)
  have "of_nat v * 10 + of_nat (of_char c - 48) = (of_nat (v * 10 + (of_char c - 48)) :: u32)" by simp
  then show ?case using Cons.IH [of "v * 10 + (of_char c - 48)" "d + 1"] Cons.prems by (simp del: of_nat_add of_nat_mult)
qed

lemma read_dec_value:
  assumes "digits ds" "rest = [] \<or> \<not> is_digit (hd rest)"
  shows "\<exists>d. read_dec (ds @ rest) 0 0 = (of_nat (dec_value ds), Suc d, rest)" "ds @ rest \<noteq> []"
proof -
  obtain k where "length ds = Suc k" using assms(1) by (cases ds) (auto simp: digits_def)
  then show "\<exists>d. read_dec (ds @ rest) 0 0 = (of_nat (dec_value ds), Suc d, rest)"
    using read_dec_any [of ds rest 0 0] assms by (simp add: digits_def dec_value_def)
qed (use assms in \<open>simp add: digits_def\<close>)

lemma octet_range: "(of_nat n :: u32) > 255 \<longleftrightarrow> n mod 2 ^ 32 > 255"
  by (simp add: word_less_nat_alt unat_of_nat take_bit_eq_mod)

lemma octet_shift:
  assumes "n mod 2 ^ 32 \<le> 255"
  shows "push_bit 8 r OR (of_nat n :: u32) = r * 256 + of_nat (n mod 2 ^ 32)"
proof -
  let ?v = "of_nat (n mod 2 ^ 32) :: u32"
  have v: "of_nat n = ?v" by (simp add: word_unat_eq_iff unat_of_nat take_bit_eq_mod del: of_nat_mod)
  have u: "unat ?v = n mod 2 ^ 32" by (simp add: unat_of_nat take_bit_eq_mod del: of_nat_mod)
  have "\<not> bit ?v i" if "8 \<le> i" for i
  proof -
    have "(2 :: nat) ^ 8 \<le> 2 ^ i" using that by (intro power_increasing) simp_all
    then have "unat ?v div 2 ^ i = 0" using assms u by simp
    then have "\<not> bit (unat ?v) i" by (simp only: bit_iff_odd) simp
    then show ?thesis by (simp add: bit_unsigned_iff)
  qed
  then have "push_bit 8 r + ?v = push_bit 8 r OR ?v" by (intro disjunctive_add) (auto simp: bit_simps)
  then show ?thesis unfolding v by (simp add: push_bit_eq_mult)
qed

lemma read_octet_last:
  assumes "digits ds" "rest = [] \<or> \<not> is_digit (hd rest)"
  shows "read_octets 1 (ds @ rest) r =
    (if dec_value ds mod 2 ^ 32 \<le> 255 then Some (r * 256 + of_nat (dec_value ds mod 2 ^ 32)) else None)"
proof -
  obtain d where d: "read_dec (ds @ rest) 0 0 = (of_nat (dec_value ds), Suc d, rest)" using read_dec_value(1) [OF assms] by blast
  show ?thesis
    using d read_dec_value(2) [OF assms] octet_range [of "dec_value ds"] octet_shift [of "dec_value ds" r]
    by (cases "dec_value ds mod 2 ^ 32 \<le> 255") (simp_all add: One_nat_def del: of_nat_mod)
qed

lemma read_octet_dot:
  assumes "digits ds" "0 < k"
  shows "read_octets (Suc k) (ds @ CHR ''.'' # cs) r =
    (if dec_value ds mod 2 ^ 32 \<le> 255 then read_octets k cs (r * 256 + of_nat (dec_value ds mod 2 ^ 32)) else None)"
proof -
  have stop: "CHR ''.'' # cs = [] \<or> \<not> is_digit (hd (CHR ''.'' # cs))" by (simp add: is_digit_def)
  obtain d where d: "read_dec (ds @ CHR ''.'' # cs) 0 0 = (of_nat (dec_value ds), Suc d, CHR ''.'' # cs)"
    using read_dec_value(1) [OF assms(1) stop] by blast
  show ?thesis
    using d octet_range [of "dec_value ds"] octet_shift [of "dec_value ds" r] assms(2)
    by (cases "dec_value ds mod 2 ^ 32 \<le> 255") simp_all
qed

text \<open>(C40) The parser bounds neither the length of a number nor what follows the address: four
  strings of digits with dots between them, followed by any text that does not start with a digit,
  are read as an address exactly when each number modulo \<open>2 ^ 32\<close> is at most 255, and the octets
  are these remainders.  So an octet of 4294967297 counts as 1, and trailing text is ignored.\<close>

theorem ip_text_lenient:
  assumes "digits a" "digits b" "digits c" "digits d" "rest = [] \<or> \<not> is_digit (hd rest)"
  shows "net_str_to_ip (a @ ''.'' @ b @ ''.'' @ c @ ''.'' @ d @ rest) =
    (if \<forall>ds \<in> {a, b, c, d}. dec_value ds mod 2 ^ 32 \<le> 255
     then Some (of_nat (foldl (\<lambda>r ds. r * 256 + dec_value ds mod 2 ^ 32) 0 [a, b, c, d])) else None)"
proof -
  have "net_str_to_ip (a @ ''.'' @ b @ ''.'' @ c @ ''.'' @ d @ rest) =
      read_octets (Suc (Suc (Suc 1))) (a @ CHR ''.'' # b @ CHR ''.'' # c @ CHR ''.'' # d @ rest) 0"
    by (simp add: net_str_to_ip_def four del: read_octets.simps)
  then show ?thesis
    by (simp only: read_octet_dot [OF assms(1)] read_octet_dot [OF assms(2)] read_octet_dot [OF assms(3)]
      read_octet_last [OF assms(4,5)] zero_less_Suc zero_less_one) simp
qed

theorem ip_text_lenient_witness:
  "net_str_to_ip ''4294967297.0.0.1 junk'' = Some 0x01000001"
  using ip_text_lenient [of "''4294967297''" "''0''" "''0''" "''1''" "'' junk''"]
  by (simp add: digits_def dec_value_def is_digit_def)

end
