(* ===== verification/Net_Codec.thy ===== *)
theory Net_Codec
  imports Udp_Queue Net_Rx
begin

text \<open>
  What is built is what is parsed: byte order, header fields, the IPv4 header checksum, and the path of a
  datagram from \<open>udp_send\<close> through the frame to the receiving socket.
\<close>

section \<open>Bytes in memory\<close>

definition holds :: "mem \<Rightarrow> nat \<Rightarrow> u8 list \<Rightarrow> bool" where
  "holds p off bs \<longleftrightarrow> (\<forall>i<length bs. p (off + i) = bs ! i)"

lemma holds_Nil [simp]: "holds p off []" by (simp add: holds_def)

lemma holds_Cons [simp]: "holds p off (b # bs) \<longleftrightarrow> p off = b \<and> holds p (Suc off) bs"
  unfolding holds_def by (auto simp: less_Suc_eq_0_disj)

lemma holds_append [simp]: "holds p off (xs @ ys) \<longleftrightarrow> holds p off xs \<and> holds p (off + length xs) ys"
  by (induction xs arbitrary: off) auto

lemma holds_shift: "holds (\<lambda>i. p (k + i)) off bs \<longleftrightarrow> holds p (k + off) bs"
  by (simp add: holds_def add.assoc)

lemma slice_holds: "holds p off bs \<Longrightarrow> slice p off (length bs) = bs"
  by (rule nth_equalityI) (simp_all add: holds_def slice_def)

lemma bytes_length [simp]: "length (bytes16 v) = 2" "length (bytes32 w) = 4"
  by (simp_all add: bytes16_def bytes32_def)

lemma fld16_bytes: "fld16 p off = v" if "holds p off (bytes16 v)"
proof -
  have "ucast (ucast v :: u8) OR push_bit 8 (ucast (ucast (drop_bit 8 v) :: u8)) = v"
    by (rule bit_word_eqI) (auto simp: bit_simps)
  then show ?thesis using that by (simp add: fld16_def bytes16_def)
qed

lemma octet_cases: "n < 32 \<Longrightarrow> n < 8 \<or> (8 \<le> n \<and> n < 16) \<or> (16 \<le> n \<and> n < 24) \<or> (24 \<le> n \<and> n < (32 :: nat))"
  by linarith

lemma fld32_bytes: "fld32 p off = v" if "holds p off (bytes32 v)" for v :: u32
proof -
  have "ucast (ucast v :: u8) OR push_bit 8 (ucast (ucast (drop_bit 8 v) :: u8)) OR
      push_bit 16 (ucast (ucast (drop_bit 16 v) :: u8)) OR push_bit 24 (ucast (ucast (drop_bit 24 v) :: u8)) = v" (is "?w = v")
  proof (rule bit_word_eqI)
    fix n assume "n < LENGTH(32)"
    then have "n < 8 \<or> (8 \<le> n \<and> n < 16) \<or> (16 \<le> n \<and> n < 24) \<or> (24 \<le> n \<and> n < 32)" using octet_cases [of n] by simp
    then show "bit ?w n = bit v n"
      by (elim disjE conjE) (simp_all add: bit_simps less_diff_conv2)
  qed
  then show ?thesis using that by (simp add: fld32_def bytes32_def numeral_2_eq_2 numeral_3_eq_3)
qed

lemma net_htons_htons [simp]: "net_htons (net_htons v) = v" "net_ntohs (net_htons v) = v"
proof -
  have "bit (net_htons (net_htons v)) n = bit v n" if "n < 16" for n
    using that by (cases "n < 8") (auto simp: net_htons_def bit_simps)
  then show "net_htons (net_htons v) = v" by (intro bit_word_eqI) simp
  then show "net_ntohs (net_htons v) = v" by (simp add: net_ntohs_def)
qed

lemma bit_htonl:
  assumes "n < 32"
  shows "bit (net_htonl v) n = bit v (8 * (3 - n div 8) + n mod 8)"
proof -
  have m: "(0xFF :: u32) = mask 8" "(0xFF00 :: u32) = push_bit 8 (mask 8)" "(0xFF0000 :: u32) = push_bit 16 (mask 8)"
    "(0xFF000000 :: u32) = push_bit 24 (mask 8)" by (simp_all add: mask_eq_exp_minus_1)
  have q: "n div 8 = 0 \<and> n mod 8 = n" if "n < 8" using that by simp
  have r: "n div 8 = k \<and> n mod 8 = n - 8 * k" if "8 * k \<le> n" "n < 8 * k + 8" for k
    using that by (metis add.commute div_nat_eqI minus_mult_div_eq_mod mult.commute mult_Suc_right)
  show ?thesis using octet_cases [OF assms] unfolding net_htonl_def m
    by (elim disjE conjE) (use q r [of 1] r [of 2] r [of 3] in \<open>simp_all add: bit_simps less_diff_conv2\<close>)
qed

lemma net_htonl_htonl [simp]: "net_htonl (net_htonl v) = v" "net_ntohl (net_htonl v) = v"
proof -
  have "bit (net_htonl (net_htonl v)) n = bit v n" if n: "n < 32" for n
  proof -
    define k where "k = 8 * (3 - n div 8) + n mod 8"
    have d: "n div 8 \<le> 3" using n by simp
    have k: "k < 32" "k div 8 = 3 - n div 8" "k mod 8 = n mod 8" unfolding k_def using d by simp_all
    have "8 * (3 - k div 8) + k mod 8 = n" using d unfolding k by simp
    then show ?thesis using bit_htonl [OF n, of "net_htonl v"] bit_htonl [OF k(1), of v] by (simp add: k_def [symmetric])
  qed
  then show "net_htonl (net_htonl v) = v" by (intro bit_word_eqI) simp
  then show "net_ntohl (net_htonl v) = v" by (simp add: net_ntohl_def)
qed


section \<open>IPv4\<close>

definition ip_hdr_ok :: "u16 \<Rightarrow> u16 \<Rightarrow> u8 \<Rightarrow> u32 \<Rightarrow> u32 \<Rightarrow> u8 list" where
  "ip_hdr_ok tot ident proto src dst =
     ip_hdr tot ident proto (net_htons (inet_cksum (ip_hdr tot ident proto 0 src dst))) src dst"

lemma ip_hdr_length [simp]: "length (ip_hdr tot ident proto ck src dst) = 20"
  by (simp add: ip_hdr_def)

lemma ip_hdr_fields:
  assumes "holds pkt 0 (ip_hdr tot ident proto ck src dst)"
  shows "fld8 pkt 0 = 0x45" "net_ntohs (fld16 pkt 2) = tot" "fld16 pkt 6 = 0" "fld8 pkt 8 = 64" "fld8 pkt 9 = proto"
    "fld16 pkt 10 = ck" "net_ntohl (fld32 pkt 12) = src" "net_ntohl (fld32 pkt 16) = dst"
proof -
  have "pkt 0 = 0x45" "pkt 8 = 64" "pkt 9 = proto" "holds pkt 2 (bytes16 (net_htons tot))" "holds pkt 6 (bytes16 0)"
    "holds pkt 10 (bytes16 ck)" "holds pkt 12 (bytes32 (net_htonl src))" "holds pkt 16 (bytes32 (net_htonl dst))"
    using assms by (simp_all add: ip_hdr_def eval_nat_numeral)
  then show "fld8 pkt 0 = 0x45" "net_ntohs (fld16 pkt 2) = tot" "fld16 pkt 6 = 0" "fld8 pkt 8 = 64" "fld8 pkt 9 = proto"
    "fld16 pkt 10 = ck" "net_ntohl (fld32 pkt 12) = src" "net_ntohl (fld32 pkt 16) = dst"
    by (simp_all add: fld8_def fld16_bytes fld32_bytes)
qed

lemma ip_hdr_zeroed:
  assumes "holds pkt 0 (ip_hdr tot ident proto ck src dst)"
  shows "slice (pkt(10 := 0, 11 := 0)) 0 20 = ip_hdr tot ident proto 0 src dst"
proof -
  have "holds (pkt(10 := 0, 11 := 0)) 0 (ip_hdr tot ident proto 0 src dst)"
    using assms by (simp add: ip_hdr_def bytes16_def bytes32_def eval_nat_numeral)
  from slice_holds [OF this] show ?thesis by simp
qed

text \<open>Any header with a right checksum is accepted when its total length is at most the received length;
  nothing relates the total length to the header length.\<close>

lemma ip_rx_accepts:
  assumes "holds pkt 0 (ip_hdr_ok tot ident proto src dst)" "20 \<le> unat len" "tot \<le> len"
  shows "ip_rx pkt len s =
     (if proto = IP_PROTO_ICMP then icmp_rx src 64 (\<lambda>i. pkt (20 + i)) (tot - 20) s
      else if proto = IP_PROTO_UDP then udp_rx src (\<lambda>i. pkt (20 + i)) (tot - 20) s
      else if proto = IP_PROTO_TCP then tcp_rx src dst (\<lambda>i. pkt (20 + i)) (tot - 20) s
      else s)"
proof -
  note h = assms(1) [unfolded ip_hdr_ok_def]
  note f = ip_hdr_fields [OF h]
  have i: "(0x45 AND 0x0F) * 4 = (20 :: u8)" "drop_bit 4 (0x45 :: u8) = 4" by simp_all
  have z: "net_ntohs 0 AND 0x3FFF = 0" by (simp add: net_ntohs_def net_htons_def)
  have u: "unat (20 :: u8) = 20" "(ucast (20 :: u8) :: u16) = 20" by simp_all
  show ?thesis
    unfolding ip_rx_def Let_def f i u ip_hdr_zeroed [OF h] z IP_HDR_LEN_def
    using assms(2,3) by simp
qed


section \<open>A packet on the wire\<close>

definition pad :: "u8 list \<Rightarrow> u8 list" where
  "pad f = (if length f \<ge> 60 then f else f @ replicate (60 - length f) 0)"

definition wire :: "u8 list \<Rightarrow> u8 list \<Rightarrow> u16 \<Rightarrow> u8 \<Rightarrow> u32 \<Rightarrow> u32 \<Rightarrow> u8 list \<Rightarrow> u8 list" where
  "wire dst_mac src_mac ident proto src dst payload =
     pad (dst_mac @ src_mac @ bytes16 (net_htons ETHERTYPE_IP) @ ip_packet ident proto src dst payload)"

definition next_hop :: "u32 \<Rightarrow> 'a net_scheme \<Rightarrow> u32" where
  "next_hop dst s = (if dst AND g_netmask s \<noteq> g_my_ip s AND g_netmask s then g_gateway s else dst)"

text \<open>The host is up, the destination is unicast and its next hop is in the cache.\<close>

definition reachable :: "u32 \<Rightarrow> u8 list \<Rightarrow> 'a net_scheme \<Rightarrow> bool" where
  "reachable dst mac s \<longleftrightarrow> netdev_up s \<and> g_netdev s \<noteq> None \<and> dst \<noteq> 0xFFFFFFFF \<and> dst \<noteq> g_my_ip s OR NOT (g_netmask s) \<and>
     fst (arp_lookup (next_hop dst s) s) = Some mac \<and> length mac = 6 \<and> length (g_my_mac s) = 6"

lemma ip_packet_hdr: "ip_packet ident proto src dst payload = ip_hdr_ok (of_nat (20 + length payload)) ident proto src dst @ payload"
  by (simp add: ip_packet_def ip_hdr_ok_def Let_def IP_HDR_LEN_def)

lemma small_u16: "n < 2 ^ 16 \<Longrightarrow> unat (of_nat n :: u16) = n"
  by (simp add: unat_of_nat take_bit_nat_eq_self)

lemma arp_lookup_keeps [simp]:
  "netdev_up (snd (arp_lookup ip s)) = netdev_up s" "g_netdev (snd (arp_lookup ip s)) = g_netdev s"
  "netdev_out (snd (arp_lookup ip s)) = netdev_out s" "g_my_mac (snd (arp_lookup ip s)) = g_my_mac s"
  by (simp_all add: arp_lookup_def upd_cache_def split: option.split)

lemma arp_lookup_id: "fst (arp_lookup ip (s\<lparr>g_ip_id := k\<rparr>)) = fst (arp_lookup ip s)"
  by (simp add: arp_lookup_def arp_cache_find_def split: option.split)

lemma ip_send_wire:
  assumes "reachable dst mac s" "length payload \<le> 1480"
  shows "netdev_out (snd (ip_send dst proto payload s)) =
    netdev_out s @ [wire mac (g_my_mac s) (g_ip_id s) proto (g_my_ip s) dst payload]"
proof -
  define s1 where "s1 = s\<lparr>g_ip_id := g_ip_id s + 1\<rparr>"
  define fr where "fr = replicate ETH_HDR_LEN 0 @ ip_packet (g_ip_id s) proto (g_my_ip s) dst payload"
  have g: "\<not> (of_nat (IP_HDR_LEN + length payload) :: u16) > of_nat (IP_HDR_LEN + 1480)"
    using assms(2) small_u16 [of "20 + length payload"] by (simp add: word_less_nat_alt IP_HDR_LEN_def)
  have r: "netdev_up s" "dst \<noteq> 0xFFFFFFFF" "dst \<noteq> g_my_ip s OR NOT (g_netmask s)"
    "fst (arp_lookup (next_hop dst s) s) = Some mac" "length mac = 6" "length (g_my_mac s) = 6"
    using assms(1) by (simp_all add: reachable_def)
  obtain dev where d: "g_netdev s = Some dev" using assms(1) by (auto simp: reachable_def)
  have l: "fst (arp_lookup (next_hop dst s) s1) = Some mac" using r(4) unfolding s1_def arp_lookup_id .
  define s2 where "s2 = snd (arp_lookup (next_hop dst s) s1)"
  have a: "arp_lookup (next_hop dst s) s1 = (Some mac, s2)" using l by (simp add: s2_def prod_eq_iff)
  have s2: "netdev_up s2" "g_netdev s2 = Some dev" "netdev_out s2 = netdev_out s" "g_my_mac s2 = g_my_mac s"
    using r(1) d by (simp_all add: s2_def s1_def)
  have e: "ip_send dst proto payload s =
      (if \<not> netdev_up s then (0, s)
       else if (of_nat (IP_HDR_LEN + length payload) :: u16) > of_nat (IP_HDR_LEN + 1480) then (0, s)
       else if dst = 0xFFFFFFFF \<or> dst = g_my_ip s1 OR NOT (g_netmask s1)
       then netdev_send (eth_build fr ETH_BCAST (g_my_mac s1) ETHERTYPE_IP) s1
       else case arp_lookup (next_hop dst s1) s1 of
              (None, s) \<Rightarrow> (1, arp_request_throttled (next_hop dst s1) (arp_pend_enqueue (next_hop dst s1) fr s))
            | (Some mac, s) \<Rightarrow> netdev_send (eth_build fr mac (g_my_mac s) ETHERTYPE_IP) s)"
    by (simp only: ip_send_def Let_def fr_def s1_def next_hop_def)
  have n: "next_hop dst s1 = next_hop dst s" "g_my_ip s1 = g_my_ip s" "g_netmask s1 = g_netmask s"
    by (simp_all add: s1_def next_hop_def)
  have "ip_send dst proto payload s = netdev_send (eth_build fr mac (g_my_mac s2) ETHERTYPE_IP) s2"
    unfolding e n a using r(1-3) g by simp
  moreover have "eth_build fr mac (g_my_mac s2) ETHERTYPE_IP = mac @ g_my_mac s @ bytes16 (net_htons ETHERTYPE_IP) @
      ip_packet (g_ip_id s) proto (g_my_ip s) dst payload"
    by (simp add: eth_build_def fr_def s2(4))
  ultimately show ?thesis using s2 by (simp add: netdev_send_def wire_def pad_def ETH_MIN_FRAME_def Let_def)
qed

lemma eth_rx_wire:
  assumes "holds fr 0 (wire m1 m2 ident proto src dst payload)" "len = of_nat (length (wire m1 m2 ident proto src dst payload))"
    "length m1 = 6" "length m2 = 6" "length payload \<le> 1480"
  shows "holds (\<lambda>i. fr (34 + i)) 0 payload"
    and "eth_rx fr len s =
     (if proto = IP_PROTO_ICMP then icmp_rx src 64 (\<lambda>i. fr (34 + i)) (of_nat (length payload)) s
      else if proto = IP_PROTO_UDP then udp_rx src (\<lambda>i. fr (34 + i)) (of_nat (length payload)) s
      else if proto = IP_PROTO_TCP then tcp_rx src dst (\<lambda>i. fr (34 + i)) (of_nat (length payload)) s
      else s)"
proof -
  define f where "f = m1 @ m2 @ bytes16 (net_htons ETHERTYPE_IP) @ ip_packet ident proto src dst payload"
  have lf: "length f = 34 + length payload" using assms(3,4) by (simp add: f_def ip_packet_hdr ip_hdr_ok_def)
  have w: "wire m1 m2 ident proto src dst payload = pad f" by (simp add: wire_def f_def)
  have hf: "holds fr 0 f" using assms(1) unfolding w pad_def by (auto split: if_splits)
  have lw: "34 + length payload \<le> length (pad f)" "length (pad f) \<le> 1514" using lf assms(5) by (auto simp: pad_def)
  have ul: "unat len = length (pad f)" using assms(2) lw unfolding w by (simp add: small_u16)
  have h: "holds fr 12 (bytes16 (net_htons ETHERTYPE_IP))" "holds fr 14 (ip_hdr_ok (of_nat (20 + length payload)) ident proto src dst)"
    "holds fr 34 payload"
    using hf assms(3,4) unfolding f_def ip_packet_hdr by (simp_all add: ip_hdr_ok_def)
  show "holds (\<lambda>i. fr (34 + i)) 0 payload" using h(3) by (simp add: holds_shift)
  have et: "net_ntohs (fld16 fr 12) = ETHERTYPE_IP" using fld16_bytes [OF h(1)] by simp
  have pl: "unat (len - of_nat ETH_HDR_LEN) = length (pad f) - 14"
    using ul lw by (subst unat_sub) (simp_all add: ETH_HDR_LEN_def word_le_nat_alt)
  have tot: "unat (of_nat (20 + length payload) :: u16) = 20 + length payload" using assms(5) by (intro small_u16) simp
  have "holds (\<lambda>i. fr (14 + i)) 0 (ip_hdr_ok (of_nat (20 + length payload)) ident proto src dst)"
    using h(2) by (simp add: holds_shift)
  note i = ip_rx_accepts [OF this, of "len - of_nat ETH_HDR_LEN" s]
  have e: "(of_nat (20 + length payload) - 20 :: u16) = of_nat (length payload)" by simp
  have "eth_rx fr len s = ip_rx (\<lambda>i. fr (14 + i)) (len - of_nat ETH_HDR_LEN) s"
    using ul lw unfolding eth_rx_def Let_def et by (simp add: ETH_HDR_LEN_def ETHERTYPE_ARP_def ETHERTYPE_IP_def)
  then show "eth_rx fr len s =
     (if proto = IP_PROTO_ICMP then icmp_rx src 64 (\<lambda>i. fr (34 + i)) (of_nat (length payload)) s
      else if proto = IP_PROTO_UDP then udp_rx src (\<lambda>i. fr (34 + i)) (of_nat (length payload)) s
      else if proto = IP_PROTO_TCP then tcp_rx src dst (\<lambda>i. fr (34 + i)) (of_nat (length payload)) s
      else s)"
    using i pl tot lw unfolding e by (simp add: word_le_nat_alt add.assoc [symmetric])
qed

end
