(* ===== verification/Net_Props.thy ===== *)
theory Net_Props
  imports Net_Codec Tcp_Props
begin

text \<open>
  Properties that span the layers: delivery of a datagram from one host to another, segments as they
  travel, and two packets that the receive path does not reject.
\<close>

section \<open>A host and its memory\<close>

definition mem_of :: "u8 list \<Rightarrow> mem" where
  "mem_of bs = (\<lambda>k. if k < length bs then bs ! k else 0)"

lemma holds_mem_of [simp]: "holds (mem_of bs) 0 bs" by (simp add: holds_def mem_of_def)

definition net_demo :: tcp_net where
  "net_demo = tcp_blank\<lparr>g_cache := \<lambda>_. arp_zero\<lparr>e_valid := True, e_ip := 5, e_mac := [9, 9, 9, 9, 9, 9]\<rparr>,
     udp_socks := \<lambda>_. udp_blank\<lparr>u_active := True, u_local_port := 7\<rparr>\<rparr>"

lemma tcp_blank_net [simp]:
  "g_netdev tcp_blank = Some (\<lambda>_. 1)" "g_my_mac tcp_blank = [2, 2, 2, 2, 2, 2]" "netdev_out tcp_blank = []"
  "g_gateway tcp_blank = 0"
  by (simp_all add: tcp_blank_def udp_net_blank_def udp_net.extend_def eval_nat_numeral)

lemma net_demo_sel [simp]:
  "g_my_ip net_demo = 0" "netdev_out net_demo = []" "u_active (udp_socks net_demo i)" "u_local_port (udp_socks net_demo i) = 7"
  by (simp_all add: net_demo_def)

lemma demo_reachable:
  assumes "g_cache s = g_cache net_demo" "netdev_up s" "g_netdev s \<noteq> None" "g_my_ip s = 0" "g_netmask s = 0" "length (g_my_mac s) = 6"
  shows "reachable 5 [9, 9, 9, 9, 9, 9] s"
proof -
  have "arp_cache_find 5 s = Some 0"
    using assms(1) by (simp add: arp_cache_find_def first_index_Some net_demo_def ARP_CACHE_SIZE_def)
  then have "fst (arp_lookup 5 s) = Some [9, 9, 9, 9, 9, 9]" using assms(1) by (simp add: arp_lookup_def net_demo_def)
  then show ?thesis using assms by (simp add: reachable_def next_hop_def)
qed

lemma net_demo_reachable: "reachable 5 [9, 9, 9, 9, 9, 9] net_demo"
  by (rule demo_reachable) (simp_all add: net_demo_def)

section \<open>Delivery\<close>

definition udp_body :: "u16 \<Rightarrow> u16 \<Rightarrow> u8 list \<Rightarrow> u8 list" where
  "udp_body src_port dst_port bs =
     bytes16 (net_htons src_port) @ bytes16 (net_htons dst_port) @ bytes16 (net_htons (of_nat (8 + length bs))) @ bytes16 0 @ bs"

lemma udp_rx_body:
  assumes "holds pkt 0 (udp_body src_port dst_port bs)" "length bs \<le> 1472"
    "first_index (\<lambda>i. u_active (udp_socks s i) \<and> u_local_port (udp_socks s i) = dst_port) UDP_MAX_SOCKETS = Some j"
  shows "udp_rx src pkt (of_nat (length (udp_body src_port dst_port bs))) s = upd_udp j (queue_dgram src src_port bs) s"
proof -
  have h: "holds pkt 0 (bytes16 (net_htons src_port))" "holds pkt 2 (bytes16 (net_htons dst_port))"
    "holds pkt 4 (bytes16 (net_htons (of_nat (8 + length bs))))" "holds pkt 8 bs"
    using assms(1) unfolding udp_body_def by (simp_all add: eval_nat_numeral)
  have l: "length (udp_body src_port dst_port bs) = 8 + length bs" by (simp add: udp_body_def)
  have f: "net_ntohs (fld16 pkt 0) = src_port" "net_ntohs (fld16 pkt 2) = dst_port" "net_ntohs (fld16 pkt 4) = of_nat (8 + length bs)"
    using fld16_bytes [OF h(1)] fld16_bytes [OF h(2)] fld16_bytes [OF h(3)] by simp_all
  have d: "(of_nat (8 + length bs) - of_nat UDP_HDR_LEN :: u16) = of_nat (length bs)" by (simp add: UDP_HDR_LEN_def)
  have u: "unat (of_nat (length bs) :: u16) = length bs" "unat (of_nat (8 + length bs) :: u16) = 8 + length bs"
    using assms(2) by (intro small_u16; simp)+
  have sl: "slice pkt UDP_HDR_LEN (length bs) = bs" using slice_holds [OF h(4)] by (simp add: UDP_HDR_LEN_def)
  show ?thesis unfolding udp_rx_def Let_def f d u l sl using assms(3) by (simp add: UDP_HDR_LEN_def)
qed

text \<open>(C12) End-to-end delivery: when a socket of one host sends a datagram to a reachable unicast address,
  exactly one frame leaves the host, and a host that receives the bytes of that frame (with whatever
  follows them in its buffer) queues a datagram with the same bytes, source address and source port on
  the first socket bound to the destination port.  Ethernet padding, IP and UDP headers and the header
  checksum are all on the way.\<close>

theorem udp_delivery:
  assumes "reachable dst mac a" "udp_sock_valid i a" "length bs \<le> 1472"
    "holds fr 0 (last (netdev_out (snd (udp_send i dst port bs a))))"
    "len = of_nat (length (last (netdev_out (snd (udp_send i dst port bs a)))))"
    "first_index (\<lambda>i. u_active (udp_socks b i) \<and> u_local_port (udp_socks b i) = port) UDP_MAX_SOCKETS = Some j"
  shows "length (netdev_out (snd (udp_send i dst port bs a))) = length (netdev_out a) + 1 \<and>
    eth_rx fr len b = upd_udp j (queue_dgram (g_my_ip a) (u_local_port (udp_socks a (nat i))) bs) b"
proof -
  define p where "p = udp_body (u_local_port (udp_socks a (nat i))) port bs"
  have lp: "length p \<le> 1480" using assms(3) by (simp add: p_def udp_body_def)
  have s: "udp_send i dst port bs a = ip_send dst IP_PROTO_UDP p a"
    using assms(2,3) by (simp add: udp_send_def p_def udp_body_def Let_def UDP_HDR_LEN_def)
  have o: "netdev_out (snd (udp_send i dst port bs a)) = netdev_out a @ [wire mac (g_my_mac a) (g_ip_id a) IP_PROTO_UDP (g_my_ip a) dst p]"
    unfolding s by (rule ip_send_wire [OF assms(1) lp])
  have m: "length mac = 6" "length (g_my_mac a) = 6" using assms(1) by (simp_all add: reachable_def)
  note e = eth_rx_wire [OF assms(4,5) [unfolded o last_snoc] m lp]
  have "eth_rx fr len b = udp_rx (g_my_ip a) (\<lambda>i. fr (34 + i)) (of_nat (length p)) b"
    using e(2) [of b] by (simp add: IP_PROTO_UDP_def IP_PROTO_ICMP_def)
  then show ?thesis using udp_rx_body [OF e(1) [unfolded p_def] assms(3,6), of "g_my_ip a"] o by (simp add: p_def)
qed


lemma udp_delivery_witness:
  "\<exists>f. netdev_out (snd (udp_send 0 5 7 [1, 2, 3] net_demo)) = [f] \<and>
     eth_rx (mem_of f) (of_nat (length f)) net_demo = upd_udp 0 (queue_dgram 0 7 [1, 2, 3]) net_demo"
proof -
  let ?o = "netdev_out (snd (udp_send 0 5 7 [1, 2, 3] net_demo))"
  have v: "udp_sock_valid 0 net_demo" by (simp add: udp_sock_valid_def UDP_MAX_SOCKETS_def)
  have j: "first_index (\<lambda>i. u_active (udp_socks net_demo i) \<and> u_local_port (udp_socks net_demo i) = 7) UDP_MAX_SOCKETS = Some 0"
    by (simp add: first_index_Some UDP_MAX_SOCKETS_def)
  have d: "length ?o = length (netdev_out net_demo) + 1 \<and> eth_rx (mem_of (last ?o)) (of_nat (length (last ?o))) net_demo =
      upd_udp 0 (queue_dgram (g_my_ip net_demo) (u_local_port (udp_socks net_demo (nat 0))) [1, 2, 3]) net_demo"
    by (rule udp_delivery [OF net_demo_reachable v _ holds_mem_of refl j]) simp
  then have "length ?o = 1" by simp
  then obtain f where "?o = [f]" by (auto simp: length_Suc_conv)
  then show ?thesis using d by simp
qed

section \<open>Segments\<close>

lemma tcp_hdr_length [simp]: "length (tcp_hdr sp dp sq ack flags wnd ck) = 20"
  by (simp add: tcp_hdr_def)

lemma tcp_segment_hdr:
  "\<exists>ck. tcp_segment src dst sp dp sq ack flags wnd bs = tcp_hdr sp dp sq ack flags wnd ck @ bs"
  by (auto simp: tcp_segment_def Let_def)

lemma tcp_hdr_fields:
  assumes "holds pkt 0 (tcp_hdr sp dp sq ack flags wnd ck)"
  shows "net_ntohs (fld16 pkt 0) = sp" "net_ntohs (fld16 pkt 2) = dp" "net_ntohl (fld32 pkt 4) = sq" "fld32 pkt 8 = ack"
    "fld8 pkt 12 = 0x50" "fld8 pkt 13 = flags" "fld16 pkt 14 = wnd"
proof -
  have "pkt 12 = 0x50" "pkt 13 = flags" "holds pkt 0 (bytes16 (net_htons sp))" "holds pkt 2 (bytes16 (net_htons dp))"
    "holds pkt 4 (bytes32 (net_htonl sq))" "holds pkt 8 (bytes32 ack)" "holds pkt 14 (bytes16 wnd)"
    using assms by (simp_all add: tcp_hdr_def eval_nat_numeral)
  then show "net_ntohs (fld16 pkt 0) = sp" "net_ntohs (fld16 pkt 2) = dp" "net_ntohl (fld32 pkt 4) = sq" "fld32 pkt 8 = ack"
    "fld8 pkt 12 = 0x50" "fld8 pkt 13 = flags" "fld16 pkt 14 = wnd"
    by (simp_all add: fld8_def fld16_bytes fld32_bytes)
qed

lemma tcp_rx_hdr:
  assumes "holds pkt 0 (tcp_hdr sp dp sq (net_htonl ack) flags (net_htons wnd) ck @ bs)" "length bs \<le> 1460"
    "len = of_nat (20 + length bs)"
  shows "tcp_rx src dst pkt len s =
     (case find_sock src sp dp False s of
        None \<Rightarrow> tcp_rx_none src dst sp dp sq ack flags (length bs) s
      | Some i \<Rightarrow>
          if has flags TCP_SYN \<and> state (sk s i) = TCP_TIME_WAIT
          then tcp_rx_none src dst sp dp sq ack flags (length bs) (upd_sock i (\<lambda>x. x\<lparr>state := TCP_CLOSED\<rparr>) s)
          else tcp_rx_sock i sq ack flags wnd bs s)"
proof -
  have h: "holds pkt 0 (tcp_hdr sp dp sq (net_htonl ack) flags (net_htons wnd) ck)" "holds pkt 20 bs"
    using assms(1) by simp_all
  note f = tcp_hdr_fields [OF h(1)]
  have u: "unat len = 20 + length bs" using assms(2,3) small_u16 [of "20 + length bs"] by simp
  have d: "unat (drop_bit 4 (0x50 :: u8)) * 4 = 20" by simp
  have sl: "slice pkt 20 (length bs) = bs" by (rule slice_holds [OF h(2)])
  show ?thesis unfolding tcp_rx_def Let_def f d u diff_add_inverse net_htonl_htonl net_htons_htons sl
    by (simp add: TCP_HDR_LEN_def)
qed

text \<open>(C15) Segments arrive as they were sent: the frame that \<open>tcp_emit\<close> hands to the driver for a
  reachable peer is decoded by the receiving host into the same ports, sequence and acknowledgement
  numbers, flags, window and data, and goes to the connection the ports name.\<close>

theorem tcp_segment_delivery:
  assumes "reachable (remote_ip (sk a k)) mac a" "length bs \<le> TCP_MSS" "has flags TCP_ACK"
    "holds fr 0 (last (netdev_out (tcp_emit k sq flags bs a)))"
    "len = of_nat (length (last (netdev_out (tcp_emit k sq flags bs a))))"
    "find_sock (g_my_ip a) (local_port (sk a k)) (remote_port (sk a k)) False b = Some i"
    "\<not> (has flags TCP_SYN \<and> state (sk b i) = TCP_TIME_WAIT)"
  shows "eth_rx fr len b =
    tcp_rx_sock i sq (rcv_nxt (sk a k)) flags (rbuf_free (rx_head (sk a k)) (rx_tail (sk a k)) TCP_RX_BUF_SIZE) bs b"
proof -
  let ?x = "sk a k"
  define wnd where "wnd = rbuf_free (rx_head ?x) (rx_tail ?x) TCP_RX_BUF_SIZE"
  define p where "p = tcp_segment (local_ip ?x) (remote_ip ?x) (local_port ?x) (remote_port ?x) sq (net_htonl (rcv_nxt ?x))
      flags (net_htons wnd) bs"
  obtain ck where ck: "p = tcp_hdr (local_port ?x) (remote_port ?x) sq (net_htonl (rcv_nxt ?x)) flags (net_htons wnd) ck @ bs"
    using tcp_segment_hdr unfolding p_def by blast
  have lb: "length bs \<le> 1460" using assms(2) by (simp add: TCP_MSS_def)
  have lp: "length p \<le> 1480" "length p = 20 + length bs" using lb by (simp_all add: ck)
  have e: "tcp_emit k sq flags bs a = snd (ip_send (remote_ip ?x) IP_PROTO_TCP p a)"
    using assms(2,3) by (simp add: tcp_emit_def p_def wnd_def Let_def)
  have o: "netdev_out (tcp_emit k sq flags bs a) =
      netdev_out a @ [wire mac (g_my_mac a) (g_ip_id a) IP_PROTO_TCP (g_my_ip a) (remote_ip ?x) p]"
    unfolding e by (rule ip_send_wire [OF assms(1) lp(1)])
  have m: "length mac = 6" "length (g_my_mac a) = 6" using assms(1) by (simp_all add: reachable_def)
  note r = eth_rx_wire [OF assms(4,5) [unfolded o last_snoc] m lp(1)]
  have "eth_rx fr len b = tcp_rx (g_my_ip a) (remote_ip ?x) (\<lambda>i. fr (34 + i)) (of_nat (length p)) b"
    using r(2) [of b] by (simp add: IP_PROTO_UDP_def IP_PROTO_ICMP_def IP_PROTO_TCP_def)
  then show ?thesis
    using tcp_rx_hdr [OF r(1) [unfolded ck] lb, of "of_nat (length p)" "g_my_ip a" "remote_ip ?x" b] assms(6,7) lp(2)
    by (simp add: wnd_def)
qed

lemma tcp_segment_delivery_witness:
  "let a = upd_sock 0 (\<lambda>_. sock_zero\<lparr>state := TCP_ESTABLISHED, remote_ip := 5, remote_port := 80, local_port := 7\<rparr>) net_demo;
       b = upd_sock 0 (\<lambda>_. sock_zero\<lparr>state := TCP_ESTABLISHED, remote_ip := 0, remote_port := 7, local_port := 80\<rparr>) net_demo;
       f = last (netdev_out (tcp_emit 0 100 TCP_ACK [1, 2] a))
   in eth_rx (mem_of f) (of_nat (length f)) b = tcp_rx_sock 0 100 0 TCP_ACK 4095 [1, 2] b"
proof -
  define a where "a = upd_sock 0 (\<lambda>_. sock_zero\<lparr>state := TCP_ESTABLISHED, remote_ip := 5, remote_port := 80, local_port := 7\<rparr>) net_demo"
  define b where "b = upd_sock 0 (\<lambda>_. sock_zero\<lparr>state := TCP_ESTABLISHED, remote_ip := 0, remote_port := 7, local_port := 80\<rparr>) net_demo"
  have r: "reachable (remote_ip (sk a 0)) [9, 9, 9, 9, 9, 9] a"
    using demo_reachable [of a] by (simp add: a_def upd_sock_def net_demo_def)
  have f: "find_sock (g_my_ip a) (local_port (sk a 0)) (remote_port (sk a 0)) False b = Some 0"
    by (simp add: find_sock_def first_index_Some TCP_MAX_SOCKETS_def a_def b_def)
  have x: "has TCP_ACK TCP_ACK" "\<not> has TCP_ACK TCP_SYN" by (simp_all add: has_def TCP_ACK_def TCP_SYN_def)
  have w: "rbuf_free (rx_head (sk a 0)) (rx_tail (sk a 0)) TCP_RX_BUF_SIZE = 4095" "rcv_nxt (sk a 0) = 0"
    by (simp_all add: a_def sock_zero_def rbuf_free_def rbuf_used_def TCP_RX_BUF_SIZE_def)
  have "eth_rx (mem_of (last (netdev_out (tcp_emit 0 100 TCP_ACK [1, 2] a)))) (of_nat (length (last (netdev_out (tcp_emit 0 100 TCP_ACK [1, 2] a))))) b =
      tcp_rx_sock 0 100 (rcv_nxt (sk a 0)) TCP_ACK (rbuf_free (rx_head (sk a 0)) (rx_tail (sk a 0)) TCP_RX_BUF_SIZE) [1, 2] b"
    by (rule tcp_segment_delivery [OF r _ x(1) holds_mem_of refl f]) (simp_all add: TCP_MSS_def x)
  then show ?thesis unfolding w by (simp only: Let_def a_def b_def)
qed

section \<open>Accepted packets\<close>

text \<open>(C38) A packet whose total length is less than its header length passes every check of \<open>ip_rx\<close>; the
  payload length handed on is then the difference modulo \<open>2 ^ 16\<close>, at least 65516 bytes, however short
  the received packet is, so that the transport reads far past it.\<close>

theorem ip_short_total:
  assumes "holds pkt 0 (ip_hdr_ok tot ident IP_PROTO_UDP src dst)" "20 \<le> unat len" "unat tot < 20"
  shows "ip_rx pkt len s = udp_rx src (\<lambda>i. pkt (20 + i)) (tot - 20) s \<and> 65516 \<le> unat (tot - 20)"
proof -
  have "tot \<le> len" using assms(2,3) by (simp add: word_le_nat_alt)
  note r = ip_rx_accepts [OF assms(1,2) this, of s]
  have "tot - 20 = of_nat (unat tot + 65516)" by simp
  moreover have "unat tot + 65516 < 2 ^ 16" using assms(3) by simp
  ultimately have "unat (tot - 20) = unat tot + 65516" using small_u16 by metis
  then show ?thesis using r by (simp add: IP_PROTO_UDP_def IP_PROTO_ICMP_def)
qed

lemma ip_short_total_witness:
  "ip_rx (mem_of (ip_hdr_ok 0 0 IP_PROTO_UDP 1 2)) 20 net_demo =
     udp_rx 1 (\<lambda>i. mem_of (ip_hdr_ok 0 0 IP_PROTO_UDP 1 2) (20 + i)) (0 - 20) net_demo \<and> 65516 \<le> unat (0 - 20 :: u16)"
  by (rule ip_short_total [OF holds_mem_of]) simp_all

text \<open>(C39) A listening socket has no peer, so that a reset from address 0.0.0.0, port 0, matches it and
  closes it.\<close>

theorem listener_reset:
  assumes "find_sock 0 0 port False s = Some i" "state (sk s i) = TCP_LISTEN"
    "holds pkt 0 (tcp_hdr 0 port sq (net_htonl ack) TCP_RST (net_htons wnd) ck)"
  shows "state (sk (tcp_rx 0 dst pkt 20 s) i) = TCP_CLOSED"
proof -
  have "has TCP_RST TCP_RST" "\<not> has TCP_RST TCP_ACK" "\<not> has TCP_RST TCP_SYN"
    by (simp_all add: has_def TCP_RST_def TCP_ACK_def TCP_SYN_def)
  then show ?thesis
    using tcp_rx_hdr [of pkt 0 port sq ack TCP_RST wnd ck "[]" 20 0 dst s] assms by (simp add: tcp_rx_sock_def)
qed


lemma listener_reset_witness:
  "state (sk tcp_two 1) = TCP_LISTEN \<and>
   state (sk (tcp_rx 0 9 (mem_of (tcp_hdr 0 80 0 (net_htonl 0) TCP_RST (net_htons 0) 0)) 20 tcp_two) 1) = TCP_CLOSED"
proof -
  have l: "state (sk tcp_two 1) = TCP_LISTEN" by (simp add: tcp_two_sock)
  have "remote_ip (sk tcp_one 0) = 7" by (simp add: tcp_one_sock)
  then have "find_sock 0 0 80 False tcp_two = Some 1"
    by (simp add: find_sock_def first_index_Some TCP_MAX_SOCKETS_def tcp_two_sock sock_zero_def)
  then show ?thesis using listener_reset [OF _ l holds_mem_of] l by simp
qed

end
