(* ===== verification/Net_Cksum.thy ===== *)
theory Net_Cksum
  imports Net_Props
begin

text \<open>
  The one's complement checksum: folding keeps the residue modulo 65535, so that a receiver that sums a
  segment with its checksum accepts it.
\<close>

section \<open>Folding\<close>

lemma carry_nat:
  fixes v :: u32
  shows "unat ((v AND 0xFFFF) + drop_bit 16 v) = unat v mod 65536 + unat v div 65536"
proof -
  have m: "(0xFFFF :: u32) = mask 16" by (simp add: mask_eq_exp_minus_1)
  have lo: "unat (v AND 0xFFFF) = unat v mod 65536"
    unfolding m take_bit_eq_mask [symmetric] unsigned_take_bit_eq by (simp add: take_bit_eq_mod)
  have b: "unat v < 4294967296" using unsigned_less [of v, where 'a = nat] by simp
  then have hi: "unat (drop_bit 16 v) = unat v div 65536"
    unfolding unsigned_drop_bit_eq by (simp add: drop_bit_eq_div take_bit_nat_eq_self)
  have "unat v div 65536 < 65536" "unat v mod 65536 < 65536" using b by (simp_all add: less_mult_imp_div_less)
  then show ?thesis by (subst unat_add_lem [THEN iffD1]) (simp_all add: lo hi)
qed

lemma mod_carry: "(n mod 65536 + n div 65536) mod 65535 = n mod (65535 :: nat)"
proof -
  have "n = n mod 65536 + 65536 * (n div 65536)" by simp
  also have "\<dots> = (n mod 65536 + n div 65536) + 65535 * (n div 65536)" by simp
  finally show ?thesis by (metis mod_mult_self2)
qed

lemma cksum_fold_nat:
  "unat (cksum_fold v) < 65536 \<and> unat (cksum_fold v) mod 65535 = unat v mod 65535 \<and> (cksum_fold v = 0 \<longleftrightarrow> v = 0)"
proof (induction v rule: cksum_fold.induct)
  case (1 v)
  have b: "unat v < 4294967296" using unsigned_less [of v, where 'a = nat] by simp
  have hi: "unat (drop_bit 16 v) = unat v div 65536"
    using b unfolding unsigned_drop_bit_eq by (simp add: drop_bit_eq_div take_bit_nat_eq_self)
  show ?case
  proof (cases "drop_bit 16 v = 0")
    case True
    then have "unat v < 65536" using hi by simp
    then show ?thesis using True by (subst (1 2 3) cksum_fold.simps) simp
  next
    case False
    let ?w = "(v AND 0xFFFF) + drop_bit 16 v"
    have e: "cksum_fold v = cksum_fold ?w" using False by (subst cksum_fold.simps) simp
    have "0 < unat v div 65536" using False hi by (simp add: unat_gt_0 [symmetric])
    then have "?w \<noteq> 0" "v \<noteq> 0" using carry_nat [of v] by (auto simp: unat_eq_0 [symmetric] simp del: unat_eq_0)
    moreover have "unat ?w mod 65535 = unat v mod 65535" unfolding carry_nat by (rule mod_carry)
    ultimately show ?thesis using 1 [OF False] unfolding e by simp
  qed
qed

lemma cksum_fold_full:
  assumes "v \<noteq> 0" "unat v mod 65535 = 0"
  shows "cksum_fold v = 0xFFFF"
proof -
  have f: "unat (cksum_fold v) < 65536" "unat (cksum_fold v) mod 65535 = 0" "cksum_fold v \<noteq> 0"
    using cksum_fold_nat [of v] assms by auto
  from f(2) obtain k where "unat (cksum_fold v) = 65535 * k" by (auto simp: mod_eq_0_iff_dvd)
  moreover have "0 < unat (cksum_fold v)" using f(3) by (simp add: unat_gt_0)
  ultimately have "unat (cksum_fold v) = 65535" using f(1) by auto
  then show ?thesis by (simp add: word_unat_eq_iff)
qed

section \<open>Sums\<close>

lemma sum16le_acc: "sum16le bs (acc + d) = sum16le bs acc + d"
  by (induction bs acc rule: sum16le.induct) (simp_all add: algebra_simps)

lemma sum16le_append: "even (length xs) \<Longrightarrow> sum16le (xs @ ys) acc = sum16le ys (sum16le xs acc)"
  by (induction xs acc rule: sum16le.induct) simp_all

lemma sum16le_bytes16: "sum16le (bytes16 v) acc = acc + ucast v"
proof -
  have "ucast (ucast v :: u8) OR push_bit 8 (ucast (ucast (drop_bit 8 v) :: u8)) = (ucast v :: u32)"
    by (rule bit_word_eqI) (auto simp: bit_simps dest: bit_imp_le_length)
  then show ?thesis by (simp add: bytes16_def)
qed

lemma pair_less: "unat (ucast (a :: u8) OR push_bit 8 (ucast (b :: u8)) :: u32) \<le> 65535"
proof -
  have "(ucast a OR push_bit 8 (ucast b) :: u32) = take_bit 16 (ucast a OR push_bit 8 (ucast b))"
    by (rule bit_word_eqI) (auto simp: bit_simps dest: bit_imp_le_length)
  then have "unat (ucast a OR push_bit 8 (ucast b) :: u32) = take_bit 16 (unat (ucast a OR push_bit 8 (ucast b) :: u32))"
    by (metis unsigned_take_bit_eq)
  also have "\<dots> < 2 ^ 16" by (rule take_bit_nat_less_exp)
  finally show ?thesis by simp
qed

lemma sum16le_le:
  "unat acc + 65535 * length bs < 2 ^ 32 \<Longrightarrow> unat (sum16le bs acc) \<le> unat acc + 65535 * length bs"
proof (induction bs acc rule: sum16le.induct)
  case (1 a b r acc)
  let ?p = "ucast a OR push_bit 8 (ucast b) :: u32"
  have p: "unat ?p \<le> 65535" by (rule pair_less)
  then have u: "unat (acc + ?p) = unat acc + unat ?p" using 1(2) by (intro unat_add_lem [THEN iffD1]) simp
  then show ?case using 1 p by simp
next
  case (2 a acc)
  have p: "unat (ucast a :: u32) \<le> 255"
    using unsigned_less [of a, where 'a = nat] by (simp add: unsigned_ucast_eq take_bit_nat_eq_self)
  then show ?case using 2 by (simp add: unat_add_lem [THEN iffD1])
qed simp

section \<open>Segments\<close>

text \<open>(C24) Every segment carries a valid checksum: summing the segment with its checksum field, as a
  receiver does, gives zero.\<close>

theorem tcp_segment_checksum:
  assumes "length bs \<le> TCP_MSS"
  shows "tcp_checksum src dst (tcp_segment src dst sp dp sq ack flags wnd bs) = 0"
proof -
  define hd where "hd = bytes16 (net_htons sp) @ bytes16 (net_htons dp) @ bytes32 (net_htonl sq) @ bytes32 ack @ [0x50, flags] @ bytes16 wnd"
  have th: "tcp_hdr sp dp sq ack flags wnd ck @ bs = hd @ bytes16 ck @ bytes16 0 @ bs" for ck by (simp add: tcp_hdr_def hd_def)
  define P where "P = sum16le (tcp_pseudo src dst (20 + length bs)) 0"
  have lh: "length hd = 16" by (simp add: hd_def)
  define S where "S = sum16le (bytes16 0 @ bs) (sum16le hd P)"
  have sum: "sum16le (hd @ bytes16 ck @ bytes16 0 @ bs) P = S + ucast ck" for ck
  proof -
    have "sum16le (hd @ bytes16 ck @ bytes16 0 @ bs) P = sum16le (bytes16 0 @ bs) (sum16le (bytes16 ck) (sum16le hd P))"
      using lh by (simp add: sum16le_append)
    then show ?thesis unfolding sum16le_bytes16 sum16le_acc S_def .
  qed
  have lb: "length bs \<le> 1460" using assms by (simp add: TCP_MSS_def)
  have lp: "length (tcp_pseudo src dst (20 + length bs)) = 12" by (simp add: tcp_pseudo_def)
  have bP: "unat P \<le> 65535 * 12" using sum16le_le [of 0 "tcp_pseudo src dst (20 + length bs)"] lp by (simp add: P_def)
  have bh: "unat (sum16le hd P) \<le> 65535 * 28" using sum16le_le [of P hd] lh bP by simp
  have bS: "unat S \<le> 65535 * 1490" using sum16le_le [of "sum16le hd P" "bytes16 0 @ bs"] bh lb by (simp add: S_def)
  define c where "c = (ucast (NOT (cksum_fold S)) :: u16)"
  have seg: "tcp_segment src dst sp dp sq ack flags wnd bs = hd @ bytes16 c @ bytes16 0 @ bs"
    using sum [of 0] lh by (simp add: tcp_segment_def tcp_checksum_def Let_def th P_def c_def)
  have f: "unat (cksum_fold S) < 65536" "unat (cksum_fold S) mod 65535 = unat S mod 65535" using cksum_fold_nat [of S] by auto
  have uc: "unat c = 65535 - unat (cksum_fold S)"
  proof -
    have "c = NOT (ucast (cksum_fold S))" unfolding c_def by (rule bit_word_eqI) (simp add: bit_simps)
    then have "c = - 1 - ucast (cksum_fold S)" by (simp add: not_eq_complement)
    then have "unat c = unat (- 1 :: u16) - unat (ucast (cksum_fold S) :: u16)" by (simp add: unat_sub)
    moreover have "unat (ucast (cksum_fold S) :: u16) = unat (cksum_fold S)"
      using f(1) by (simp add: unsigned_ucast_eq take_bit_nat_eq_self)
    moreover have "unat (- 1 :: u16) = 65535" by (simp add: unsigned_minus_1_eq_mask mask_eq_exp_minus_1)
    ultimately show ?thesis by simp
  qed
  have ucu: "unat (ucast c :: u32) = unat c" 
    using unsigned_less [of c, where 'a = nat] by (simp add: unsigned_ucast_eq take_bit_nat_eq_self)
  have us: "unat (S + ucast c) = unat S + unat c" using bS uc unfolding ucu [symmetric] by (intro unat_add_lem [THEN iffD1]) (simp add: ucu)
  have "(unat S + unat c) mod 65535 = (unat (cksum_fold S) + unat c) mod 65535" using f(2) by (metis mod_add_left_eq)
  also have "unat (cksum_fold S) + unat c = 65535" using uc f(1) by simp
  finally have z: "unat (S + ucast c) mod 65535 = 0" using us by simp
  have nz: "S + ucast c \<noteq> 0"
  proof
    assume "S + ucast c = 0"
    then have "unat S = 0" "unat c = 0" using us by simp_all
    then show False using uc f cksum_fold_nat [of S] by (simp add: unat_eq_0)
  qed
  have l: "length (hd @ bytes16 c @ bytes16 0 @ bs) = 20 + length bs" using lh by simp
  show ?thesis unfolding seg tcp_checksum_def l P_def [symmetric] sum cksum_fold_full [OF nz z] by simp
qed

lemma tcp_segment_checksum_witness:
  "tcp_checksum 1 2 (tcp_segment 1 2 80 5000 7 8 TCP_ACK 100 [1, 2, 3]) = 0"
  by (rule tcp_segment_checksum) (simp add: TCP_MSS_def)

end
