(* ===== verification/Net_Arp.thy ===== *)
theory Net_Arp
  imports Udp_Queue
begin

text \<open>The ARP cache: what is evicted, what is kept, and that an entry just stored is found.\<close>

section \<open>Eviction\<close>

lemma lru_scan_cases:
  assumes "lru_scan c is oldest slot = Some j"
  shows "(slot = Some j \<and> (\<forall>k\<in>set is. \<not> e_pinned (c k) \<longrightarrow> oldest \<le> e_last_use (c k))) \<or>
    (j \<in> set is \<and> \<not> e_pinned (c j) \<and> e_last_use (c j) < oldest \<and>
     (\<forall>k\<in>set is. \<not> e_pinned (c k) \<longrightarrow> e_last_use (c j) \<le> e_last_use (c k)))"
  using assms
proof (induction c "is" oldest slot rule: lru_scan.induct)
  case (2 c i "is" oldest slot)
  show ?case
  proof (cases "e_pinned (c i)")
    case True
    then show ?thesis using 2 by auto
  next
    case False
    show ?thesis
    proof (cases "e_last_use (c i) < oldest")
      case True
      then show ?thesis using 2(2) [OF False True] 2(4) False by fastforce
    next
      case F2: False
      then show ?thesis using 2(3) [OF False F2] 2(4) False by fastforce
    qed
  qed
qed auto

text \<open>(C33) Eviction from the ARP cache: a new entry takes an unused slot if there is one; otherwise it
  replaces the least recently used of the entries that are not pinned.\<close>

theorem arp_victim_lru:
  assumes "arp_victim s = Some j"
  shows "j < ARP_CACHE_SIZE \<and> (\<not> e_valid (g_cache s j) \<or>
    ((\<forall>k<ARP_CACHE_SIZE. e_valid (g_cache s k)) \<and> \<not> e_pinned (g_cache s j) \<and>
     (\<forall>k<ARP_CACHE_SIZE. \<not> e_pinned (g_cache s k) \<longrightarrow> e_last_use (g_cache s j) \<le> e_last_use (g_cache s k))))"
proof (cases "first_index (\<lambda>i. \<not> e_valid (g_cache s i)) ARP_CACHE_SIZE")
  case None
  then have "lru_scan (g_cache s) [0..<ARP_CACHE_SIZE] (NOT 0) None = Some j" using assms by (simp add: arp_victim_def)
  from lru_scan_cases [OF this] show ?thesis using None by (auto simp: first_index_None)
next
  case (Some i)
  then have "j = i" using assms by (simp add: arp_victim_def)
  then show ?thesis using Some by (simp add: first_index_Some)
qed

definition arp_full :: "udp_net" where
  "arp_full = udp_net_blank\<lparr>arp_gateway := 1,
     g_cache := \<lambda>i. arp_zero\<lparr>e_valid := True, e_ip := of_nat (i + 1), e_pinned := (i = 0), e_last_use := of_nat (20 - i)\<rparr>\<rparr>"

lemma arp_full_victim: "arp_victim arp_full = Some 15"
proof -
  have "first_index (\<lambda>i. \<not> e_valid (g_cache arp_full i)) ARP_CACHE_SIZE = None" by (simp add: first_index_None arp_full_def)
  moreover have "[0..<ARP_CACHE_SIZE] = [0, 1, 2, 3, 4, 5, 6, 7, 8, 9, 10, 11, 12, 13, 14, 15]"
    by (simp add: ARP_CACHE_SIZE_def upt_rec)
  ultimately show ?thesis by (simp add: arp_victim_def arp_full_def arp_zero_def)
qed

lemma arp_victim_lru_witness:
  "arp_victim arp_full = Some 15 \<and> \<not> e_pinned (g_cache arp_full 15) \<and>
   e_last_use (g_cache arp_full 15) \<le> e_last_use (g_cache arp_full 3)"
proof -
  have "e_valid (g_cache arp_full 15)" "\<not> e_pinned (g_cache arp_full 3)" "(3::nat) < ARP_CACHE_SIZE"
    by (simp_all add: arp_full_def ARP_CACHE_SIZE_def)
  then show ?thesis using arp_victim_lru [OF arp_full_victim] arp_full_victim by blast
qed

text \<open>(C34) The gateway is never evicted: an update for any other address leaves a valid, pinned entry
  exactly as it is.\<close>

theorem arp_pinned_kept:
  assumes "e_valid (g_cache s i)" "e_pinned (g_cache s i)" "i < ARP_CACHE_SIZE" "e_ip (g_cache s i) \<noteq> ip"
  shows "g_cache (arp_cache_update ip mac s) i = g_cache s i"
proof (cases "arp_cache_find ip s")
  case None
  show ?thesis
  proof (cases "arp_victim s")
    case (Some j)
    then have "j \<noteq> i"
      using assms(1,2) lru_scan_cases [of "g_cache s" "[0..<ARP_CACHE_SIZE]" "NOT 0" None j]
      by (auto simp: arp_victim_def first_index_Some split: option.splits)
    then show ?thesis using None Some by (simp add: arp_cache_update_def upd_cache_def)
  qed (use None in \<open>simp add: arp_cache_update_def\<close>)
next
  case (Some j)
  then have "j \<noteq> i" using assms(4) by (auto simp: arp_cache_find_def first_index_Some)
  then show ?thesis using Some by (simp add: arp_cache_update_def upd_cache_def)
qed

lemma arp_pinned_kept_witness: "g_cache (arp_cache_update 99 [1, 2, 3, 4, 5, 6] arp_full) 0 = g_cache arp_full 0"
  by (rule arp_pinned_kept) (simp_all add: arp_full_def ARP_CACHE_SIZE_def)

text \<open>(C32) What is stored is found: after an update for an address, unless no entry could be evicted, a
  look-up of that address returns the hardware address stored.\<close>

theorem arp_update_lookup:
  assumes "ip \<noteq> 0" "arp_cache_find ip s \<noteq> None \<or> arp_victim s \<noteq> None"
  shows "fst (arp_lookup ip (arp_cache_update ip mac s)) = Some mac"
proof (cases "arp_cache_find ip s")
  case None
  then obtain j where j: "arp_victim s = Some j" using assms(2) by auto
  then have b: "j < ARP_CACHE_SIZE"
    using lru_scan_cases [of "g_cache s" "[0..<ARP_CACHE_SIZE]" "NOT 0" None j]
    by (auto simp: arp_victim_def first_index_Some split: option.splits)
  let ?u = "arp_cache_update ip mac s"
  have u: "g_cache ?u = (g_cache s)(j := \<lparr>e_ip = ip, e_mac = mac, e_valid = True, e_pinned = (ip = arp_gateway s), e_last_use = g_pit_ticks s\<rparr>)"
    using assms(1) None j by (simp add: arp_cache_update_def upd_cache_def)
  have "arp_cache_find ip ?u = Some j"
    using None b by (auto simp: arp_cache_find_def first_index_Some first_index_None u)
  then show ?thesis by (simp add: arp_lookup_def u)
next
  case (Some j)
  let ?u = "arp_cache_update ip mac s"
  have u: "g_cache ?u = (g_cache s)(j := (g_cache s j)\<lparr>e_mac := mac, e_last_use := g_pit_ticks s,
      e_pinned := e_pinned (g_cache s j) \<or> ip = arp_gateway s\<rparr>)"
    using assms(1) Some by (simp add: arp_cache_update_def upd_cache_def)
  have "arp_cache_find ip ?u = Some j"
    using Some by (auto simp: arp_cache_find_def first_index_Some u)
  then show ?thesis by (simp add: arp_lookup_def u)
qed

lemma arp_update_lookup_witness: "fst (arp_lookup 99 (arp_cache_update 99 [1, 2, 3, 4, 5, 6] arp_full)) = Some [1, 2, 3, 4, 5, 6]"
  by (rule arp_update_lookup) (simp_all add: arp_full_victim)

end
