(* ===== verification/Dns_Defs.thy ===== *)
theory Dns_Defs
  imports Net_Rx "HOL-Library.Monad_Syntax"
begin

text \<open>
  The DNS resolver (\<^verbatim>\<open>kernel/net/dns.c\<close>) on top of the UDP sockets.  A query is the list of the bytes stored
  from the start of \<open>qbuf\<close> on, so that a store past the buffer is a list longer than the buffer.  The
  caller's poll hook, or the wait and \<open>net_stack_poll\<close> that replace it when there is none, is the
  argument \<open>poll\<close>: what the \<open>k\<close>-th call does to the network state.  The transaction number and the
  draws of the port come from \<open>entropy_fill\<close> and are arguments, as is the configured server.
\<close>

section \<open>Wire format\<close>

definition DNS_HDR_LEN :: nat where "DNS_HDR_LEN = 12"
definition DNS_PORT :: u16 where "DNS_PORT = 53"
definition DNS_FLAG_RD :: u16 where "DNS_FLAG_RD = 0x0100"
definition DNS_FLAG_QR :: u16 where "DNS_FLAG_QR = 0x8000"
definition DNS_FLAG_RCODE :: u16 where "DNS_FLAG_RCODE = 0x000F"
definition DNS_TYPE_A :: u8 where "DNS_TYPE_A = 1"
definition DNS_CLASS_IN :: u8 where "DNS_CLASS_IN = 1"

text \<open>\<open>DnsHdr\<close>, from its fields in host order.\<close>

definition dns_hdr :: "u16 \<Rightarrow> u16 \<Rightarrow> u16 \<Rightarrow> u16 \<Rightarrow> u8 list" where
  "dns_hdr ident flags qdcount ancount =
     bytes16 (net_htons ident) @ bytes16 (net_htons flags) @ bytes16 (net_htons qdcount) @
     bytes16 (net_htons ancount) @ bytes16 0 @ bytes16 0"

section \<open>The query\<close>

text \<open>The loop over the labels: \<open>out\<close> holds the bytes stored so far, \<open>e\<close> is the offset of \<open>end\<close>.  The
  length of a label is kept in eight bits.  The result is False for the returns inside the loop.\<close>

lemma label_shorter: "length (tl (dropWhile p (c # cs))) < length (c # cs)"
  using length_dropWhile_le [of p "c # cs"] by (simp add: less_Suc_eq_le)

function put_labels :: "nat \<Rightarrow> string \<Rightarrow> u8 list \<Rightarrow> bool \<times> u8 list" where
  "put_labels e [] out = (True, out)"
| "put_labels e (c # cs) out =
     (let label = takeWhile (\<lambda>x. x \<noteq> CHR ''.'') (c # cs);
          llen = (of_nat (length label) :: u8)
      in if llen = 0 \<or> llen > 63 then (False, out)
         else if length out + 1 + unat llen \<ge> e then (False, out)
         else put_labels e (tl (dropWhile (\<lambda>x. x \<noteq> CHR ''.'') (c # cs))) (out @ [llen] @ map of_char label))"
  by pat_completeness auto
termination
  by (relation "measure (\<lambda>(e, src, out). length src)") (use label_shorter in \<open>simp_all only: wf_measure in_measure prod.case\<close>)

text \<open>\<open>dns_build_query\<close>: the result, 0 for failure, and the bytes stored.\<close>

definition dns_build_query :: "u16 \<Rightarrow> u16 \<Rightarrow> string \<Rightarrow> u16 \<times> u8 list" where
  "dns_build_query buflen txid hostname =
     (if unat buflen < DNS_HDR_LEN + 4 then (0, [])
      else let e = unat buflen - 4
           in case put_labels e hostname (dns_hdr txid DNS_FLAG_RD 1 0) of
                (ok, out) \<Rightarrow>
                  if \<not> ok \<or> length out \<ge> e then (0, out)
                  else let q = out @ [0] @ [0, DNS_TYPE_A] @ [0, DNS_CLASS_IN] in (of_nat (length q), q))"

section \<open>The response\<close>

text \<open>\<open>dns_name_end\<close>: the offset behind a name, \<open>None\<close> for -1.\<close>

function dns_name_end :: "mem \<Rightarrow> nat \<Rightarrow> nat \<Rightarrow> nat option" where
  "dns_name_end buf buflen off =
     (if off < buflen
      then let b = buf off
           in if b = 0 then Some (off + 1)
              else if b AND 0xC0 = 0xC0 then Some (off + 2)
              else dns_name_end buf buflen (off + (1 + unat (b AND 0x3F)))
      else None)"
  by pat_completeness auto
termination by (relation "measure (\<lambda>(buf, buflen, off). buflen - off)") auto

declare dns_name_end.simps [simp del]

text \<open>The result of \<open>dns_parse_response\<close>: 0 (not a reply to the query), -1 (a definitive failure), or 1
  and the address.\<close>

datatype dns_answer = DnsIgnore | DnsFail | DnsAddr u32

definition be16 :: "mem \<Rightarrow> nat \<Rightarrow> u16" where
  "be16 buf off = push_bit 8 (ucast (buf off)) OR ucast (buf (off + 1))"

definition be32 :: "mem \<Rightarrow> nat \<Rightarrow> u32" where
  "be32 buf off = push_bit 24 (ucast (buf off)) OR push_bit 16 (ucast (buf (off + 1))) OR
     push_bit 8 (ucast (buf (off + 2))) OR ucast (buf (off + 3))"

fun skip_questions :: "mem \<Rightarrow> nat \<Rightarrow> nat \<Rightarrow> nat \<Rightarrow> nat option" where
  "skip_questions buf len 0 off = Some off"
| "skip_questions buf len (Suc q) off =
     (case dns_name_end buf len off of
        None \<Rightarrow> None
      | Some off \<Rightarrow> if off + 4 > len then None else skip_questions buf len q (off + 4))"

fun walk_answers :: "mem \<Rightarrow> nat \<Rightarrow> nat \<Rightarrow> nat \<Rightarrow> dns_answer" where
  "walk_answers buf len 0 off = DnsFail"
| "walk_answers buf len (Suc a) off =
     (case dns_name_end buf len off of
        None \<Rightarrow> DnsFail
      | Some off \<Rightarrow>
          if off + 10 > len then DnsFail
          else let rtype = be16 buf off; rdlen = be16 buf (off + 8); off = off + 10
               in if rtype = ucast DNS_TYPE_A \<and> rdlen = 4 \<and> off + 4 \<le> len then DnsAddr (be32 buf off)
                  else walk_answers buf len a (off + unat rdlen))"

definition dns_parse_response :: "mem \<Rightarrow> u16 \<Rightarrow> u16 \<Rightarrow> mem \<Rightarrow> u16 \<Rightarrow> dns_answer" where
  "dns_parse_response buf len txid query qlen =
     (if unat len < DNS_HDR_LEN then DnsIgnore
      else let rid = net_ntohs (fld16 buf 0); flags = net_ntohs (fld16 buf 2);
               ancount = net_ntohs (fld16 buf 6); qdcount = net_ntohs (fld16 buf 4)
           in if rid \<noteq> txid then DnsIgnore
              else if flags AND DNS_FLAG_QR = 0 then DnsIgnore
              else if qdcount \<noteq> 1 \<or> len < qlen \<or>
                      (let n = unat (of_int (uint qlen - int DNS_HDR_LEN) :: u32)
                       in slice buf DNS_HDR_LEN n \<noteq> slice query DNS_HDR_LEN n)
              then DnsIgnore
              else if flags AND DNS_FLAG_RCODE \<noteq> 0 then DnsFail
              else if ancount = 0 then DnsFail
              else case skip_questions buf (unat len) (unat qdcount) DNS_HDR_LEN of
                     None \<Rightarrow> DnsFail
                   | Some off \<Rightarrow> walk_answers buf (unat len) (unat ancount) off)"

section \<open>Local names\<close>

definition ascii_lower :: "char \<Rightarrow> char" where
  "ascii_lower c = (if 65 \<le> (of_char c :: nat) \<and> (of_char c :: nat) \<le> 90 then char_of (of_char c + 32 :: nat) else c)"

fun after_prefix :: "string \<Rightarrow> string \<Rightarrow> string option" where
  "after_prefix [] host = Some host"
| "after_prefix (l # ls) [] = None"
| "after_prefix (l # ls) (c # cs) = (if ascii_lower c \<noteq> l then None else after_prefix ls cs)"

definition dns_is_localhost :: "string \<Rightarrow> bool" where
  "dns_is_localhost hostname =
     (case after_prefix ''localhost'' hostname of None \<Rightarrow> False | Some rest \<Rightarrow> rest = '''' \<or> rest = ''.'')"

section \<open>Resolving\<close>

definition RETRY_MS :: u32 where "RETRY_MS = 2000"
definition SLICE_MS :: u32 where "SLICE_MS = 50"

text \<open>A byte list in a buffer; nothing is read behind it.\<close>

definition buf_mem :: "u8 list \<Rightarrow> mem" where
  "buf_mem bs i = (if i < length bs then bs ! i else 0)"

text \<open>What a datagram that was read means to the query.\<close>

definition dns_check :: "u32 \<Rightarrow> u16 \<Rightarrow> u8 list \<Rightarrow> u16 \<Rightarrow> (u8 list \<times> u32 \<times> u16) option \<Rightarrow> dns_answer" where
  "dns_check server txid qbuf qlen r =
     (case r of
        None \<Rightarrow> DnsIgnore
      | Some (bs, src_ip, src_port) \<Rightarrow>
          if length bs > 0 \<and> src_port = DNS_PORT \<and> src_ip = server
          then dns_parse_response (buf_mem bs) (of_nat (length bs)) txid (buf_mem qbuf) qlen
          else DnsIgnore)"

text \<open>The inner loop: slices of 50 ms until an answer, the next retry or the timeout.\<close>

function dns_wait :: "(nat \<Rightarrow> 'a udp_net_scheme \<Rightarrow> 'a udp_net_scheme) \<Rightarrow> int \<Rightarrow> u32 \<Rightarrow> u16 \<Rightarrow> u8 list \<Rightarrow> u16 \<Rightarrow> u32 \<Rightarrow>
    u32 \<Rightarrow> u32 \<Rightarrow> nat \<Rightarrow> 'a udp_net_scheme \<Rightarrow> dns_answer \<times> u32 \<times> nat \<times> 'a udp_net_scheme" where
  "dns_wait poll sock server txid qbuf qlen timeout_ms waited elapsed k s =
     (if waited < RETRY_MS \<and> elapsed < timeout_ms
      then let (r, s) = udp_recv sock 512 (poll k s);
               waited = waited + SLICE_MS; elapsed = elapsed + SLICE_MS;
               a = dns_check server txid qbuf qlen r
           in if a = DnsIgnore then dns_wait poll sock server txid qbuf qlen timeout_ms waited elapsed (k + 1) s
              else (a, elapsed, k + 1, s)
      else (DnsIgnore, elapsed, k, s))"
  by pat_completeness auto
termination
proof (relation "measure (\<lambda>(poll, sock, server, txid, qbuf, qlen, timeout_ms, waited, elapsed, k, s). 2000 - unat waited)", goal_cases)
  case (2 poll sock server txid qbuf qlen timeout_ms waited elapsed k s x xa y xb xc xd)
  then have "unat waited < 2000" by (simp add: RETRY_MS_def word_less_nat_alt)
  moreover from this have "unat (waited + 50) = unat waited + 50" by (subst unat_add_lem [THEN iffD1]) simp_all
  ultimately show ?case using 2 by (simp add: SLICE_MS_def)
qed simp

declare dns_wait.simps [simp del]

text \<open>The outer loop: send and wait.  It need not end when the timeout is within 50 ms of \<open>2 ^ 32\<close>: the
  time counter wraps.\<close>

partial_function (option) dns_loop :: "(nat \<Rightarrow> 'a udp_net_scheme \<Rightarrow> 'a udp_net_scheme) \<Rightarrow> int \<Rightarrow> u32 \<Rightarrow> u16 \<Rightarrow> u8 list \<Rightarrow> u16 \<Rightarrow>
    u32 \<Rightarrow> u32 \<Rightarrow> nat \<Rightarrow> 'a udp_net_scheme \<Rightarrow> (dns_answer \<times> 'a udp_net_scheme) option" where
  "dns_loop poll sock server txid qbuf qlen timeout_ms elapsed k s =
     (if elapsed < timeout_ms
      then let s = snd (udp_send sock server DNS_PORT (take (unat qlen) qbuf) s);
               (a, elapsed, k, s) = dns_wait poll sock server txid qbuf qlen timeout_ms 0 elapsed k s
           in if a = DnsIgnore then dns_loop poll sock server txid qbuf qlen timeout_ms elapsed k s
              else Some (a, s)
      else Some (DnsIgnore, s))"

definition dns_resolve :: "(nat \<Rightarrow> 'a udp_net_scheme \<Rightarrow> 'a udp_net_scheme) \<Rightarrow> u32 list \<Rightarrow> u16 \<Rightarrow> u32 \<Rightarrow> string \<Rightarrow> u32 \<Rightarrow>
    'a udp_net_scheme \<Rightarrow> (u32 option \<times> 'a udp_net_scheme) option" where
  "dns_resolve poll draws rnd dns_server hostname timeout_ms s =
     (case net_str_to_ip hostname of
        Some ip \<Rightarrow> Some (Some ip, s)
      | None \<Rightarrow>
          if dns_is_localhost hostname then Some (Some 0x7F000001, s)
          else if dns_server = 0 then Some (None, s)
          else let txid = rnd OR 1; (qlen, qbuf) = dns_build_query 280 txid hostname
               in if qlen = 0 then Some (None, s)
                  else do {
                    (sock, s) \<leftarrow> udp_open draws 0 s;
                    if sock < 0 then Some (None, s)
                    else do {
                      (a, s) \<leftarrow> dns_loop poll sock dns_server txid qbuf qlen timeout_ms 0 0 s;
                      Some (case a of DnsAddr ip \<Rightarrow> Some ip | _ \<Rightarrow> None, udp_close sock s)
                    }
                  })"

end
