(* ===== verification/Dns_Wire.thy ===== *)
theory Dns_Wire
  imports Dns_Defs Net_Codec
begin

text \<open>
  Names, questions and resource records on the wire: the query that is built for a name, and what the
  parser makes of a response.
\<close>

section \<open>Nothing is read behind the packet\<close>

lemma name_end_cong:
  "\<forall>i<len. b1 i = b2 i \<Longrightarrow> dns_name_end b1 len off = dns_name_end b2 len off"
proof (induction b1 len off rule: dns_name_end.induct)
  case (1 buf buflen off)
  then show ?case by (subst (1 2) dns_name_end.simps) (auto simp: Let_def)
qed

lemma skip_questions_cong:
  "\<forall>i<len. b1 i = b2 i \<Longrightarrow> skip_questions b1 len q off = skip_questions b2 len q off"
  by (induction q arbitrary: off) (auto simp: name_end_cong [of len b1 b2] split: option.split)

lemma walk_answers_cong:
  assumes "\<forall>i<len. b1 i = b2 i"
  shows "walk_answers b1 len a off = walk_answers b2 len a off"
proof (induction a arbitrary: off)
  case (Suc a)
  have "be16 b1 i = be16 b2 i" if "i + 2 \<le> len" for i using assms that by (simp add: be16_def)
  moreover have "be32 b1 i = be32 b2 i" if "i + 4 \<le> len" for i using assms that by (simp add: be32_def)
  ultimately show ?case using Suc by (auto simp: name_end_cong [OF assms] Let_def split: option.split)
qed simp

lemma question_len: "12 \<le> qlen \<Longrightarrow> unat (of_int (uint qlen - 12) :: u32) = unat qlen - 12" for qlen :: u16
proof -
  assume "12 \<le> qlen"
  then have *: "12 \<le> unat qlen" by (simp add: word_le_nat_alt)
  have "unat qlen < 2 ^ 16" using unsigned_less [of qlen] by simp
  moreover have e: "uint qlen - 12 = int (unat qlen - 12)" using * by (simp only: of_nat_diff of_nat_numeral uint_nat)
  ultimately show ?thesis unfolding e of_int_of_nat_eq by (simp only: unat_of_nat) (simp add: take_bit_nat_eq_self)
qed

lemma parse_cong:
  assumes "\<forall>i<unat len. b1 i = b2 i" "12 \<le> qlen"
  shows "dns_parse_response b1 len txid q qlen = dns_parse_response b2 len txid q qlen"
proof (cases "unat len < 12")
  case False
  have f: "fld16 b1 i = fld16 b2 i" if "i < 11" for i using assms(1) False that by (simp add: fld16_def)
  have s: "slice b1 12 (unat qlen - 12) = slice b2 12 (unat qlen - 12)" if "qlen \<le> len"
    using assms that by (auto simp: slice_def word_le_nat_alt)
  have e: "fld16 b1 0 = fld16 b2 0" "fld16 b1 2 = fld16 b2 2" "fld16 b1 4 = fld16 b2 4" "fld16 b1 6 = fld16 b2 6"
    by (simp_all add: f)
  show ?thesis
    unfolding dns_parse_response_def Let_def DNS_HDR_LEN_def of_nat_numeral question_len [OF assms(2)] e
      skip_questions_cong [OF assms(1)] walk_answers_cong [OF assms(1)]
    by (cases "len < qlen") (simp_all add: s not_less)
qed (simp add: dns_parse_response_def DNS_HDR_LEN_def)

section \<open>Names\<close>

text \<open>A name as its labels, as text and on the wire.\<close>

fun dotted :: "string list \<Rightarrow> string" where
  "dotted [] = []"
| "dotted [l] = l"
| "dotted (l # ls) = l @ ''.'' @ dotted ls"

definition name_bytes :: "string list \<Rightarrow> u8 list" where
  "name_bytes ls = concat (map (\<lambda>l. of_nat (length l) # map of_char l) ls)"

definition qname_ok :: "string list \<Rightarrow> bool" where
  "qname_ok ls \<longleftrightarrow> (\<forall>l\<in>set ls. l \<noteq> [] \<and> length l \<le> 63 \<and> CHR ''.'' \<notin> set l)"

lemma name_simps [simp]:
  "name_bytes [] = []" "name_bytes (l # ls) = of_nat (length l) # map of_char l @ name_bytes ls"
  "qname_ok []" "qname_ok (l # ls) \<longleftrightarrow> l \<noteq> [] \<and> length l \<le> 63 \<and> CHR ''.'' \<notin> set l \<and> qname_ok ls"
  by (auto simp: name_bytes_def qname_ok_def)

lemma label_len:
  assumes "0 < n" "n \<le> 63"
  shows "(of_nat n :: u8) \<noteq> 0" "\<not> 63 < (of_nat n :: u8)" "unat (of_nat n :: u8) = n"
    "(of_nat n :: u8) AND 0xC0 \<noteq> 0xC0" "unat ((of_nat n :: u8) AND 0x3F) = n"
proof -
  show u: "unat (of_nat n :: u8) = n" using assms by (simp add: unat_of_nat take_bit_nat_eq_self)
  then show "(of_nat n :: u8) \<noteq> 0" "\<not> 63 < (of_nat n :: u8)" using assms by (auto simp: word_less_nat_alt)
  have m: "x AND 0x3F = take_bit 6 x" for x :: u8 by (simp add: take_bit_eq_mask mask_eq_exp_minus_1)
  show "unat ((of_nat n :: u8) AND 0x3F) = n"
    unfolding m unsigned_take_bit_eq u using assms by (simp add: take_bit_nat_eq_self)
  show "(of_nat n :: u8) AND 0xC0 \<noteq> 0xC0"
  proof
    assume *: "(of_nat n :: u8) AND 0xC0 = 0xC0"
    have "(of_nat n :: u8) AND 0xC0 \<le> of_nat n" by (rule word_and_le2)
    then have "(0xC0 :: u8) \<le> of_nat n" unfolding * .
    then show False using assms u by (simp add: word_le_nat_alt)
  qed
qed

lemma dotted_Cons: "dotted (l # ls) = (if ls = [] then l else l @ CHR ''.'' # dotted ls)"
  by (cases ls) simp_all

lemma put_labels_dotted:
  assumes "qname_ok ls"
  shows "fst (put_labels e (dotted ls) out) = (ls = [] \<or> length out + length (name_bytes ls) < e) \<and>
    (fst (put_labels e (dotted ls) out) \<longrightarrow> snd (put_labels e (dotted ls) out) = out @ name_bytes ls)"
  using assms
proof (induction ls arbitrary: out)
  case (Cons l ls)
  have l: "l \<noteq> []" "length l \<le> 63" "\<forall>x\<in>set l. x \<noteq> CHR ''.''" using Cons.prems by auto
  note n = label_len [of "length l"]
  have d: "takeWhile (\<lambda>x. x \<noteq> CHR ''.'') (dotted (l # ls)) = l"
    "tl (dropWhile (\<lambda>x. x \<noteq> CHR ''.'') (dotted (l # ls))) = dotted ls"
    unfolding dotted_Cons using l(3)
    by (cases "ls = []"; simp add: takeWhile_eq_all_conv [THEN iffD2] dropWhile_eq_Nil_conv [THEN iffD2] takeWhile_tail dropWhile_append2)+
  have "dotted (l # ls) \<noteq> []" unfolding dotted_Cons using l(1) by simp
  then obtain c cs where c: "dotted (l # ls) = c # cs" by (cases "dotted (l # ls)") blast+
  have "put_labels e (dotted (l # ls)) out =
      (if length out + 1 + length l \<ge> e then (False, out) else put_labels e (dotted ls) (out @ of_nat (length l) # map of_char l))"
    using n l(1,2) d unfolding c by (simp add: Let_def)
  then show ?case using Cons.IH [of "out @ of_nat (length l) # map of_char l"] Cons.prems by auto
qed simp

lemma name_end_wire:
  assumes "qname_ok ls" "holds buf off (name_bytes ls @ b # bs)" "off + length (name_bytes ls) < len"
    "b = 0 \<or> b AND 0xC0 = 0xC0"
  shows "dns_name_end buf len off = Some (off + length (name_bytes ls) + (if b = 0 then 1 else 2))"
  using assms
proof (induction ls arbitrary: off)
  case Nil
  then show ?case by (subst dns_name_end.simps) auto
next
  case (Cons l ls)
  note n = label_len [of "length l"]
  have h: "buf off = of_nat (length l)" "holds buf (Suc (off + length l)) (name_bytes ls @ b # bs)"
    using Cons.prems(2) by simp_all
  have "dns_name_end buf len (Suc (off + length l)) =
      Some (Suc (off + length l) + length (name_bytes ls) + (if b = 0 then 1 else 2))"
    by (rule Cons.IH [OF _ h(2)]) (use Cons.prems in simp_all)
  moreover have "dns_name_end buf len off = dns_name_end buf len (Suc (off + length l))"
    using Cons.prems n h(1) by (subst dns_name_end.simps) (simp add: Let_def)
  ultimately show ?case by simp
qed

end
