(* ===== verification/Dns_Answer.thy ===== *)
theory Dns_Answer
  imports Dns_Wire
begin

text \<open>What the resolver sends for a name, and that it takes the first address record of a response.\<close>

section \<open>Big-endian fields\<close>

lemma be16_fld: "be16 p off = net_htons (fld16 p off)"
proof (rule bit_word_eqI)
  fix n assume "n < LENGTH(16)"
  then show "bit (be16 p off) n = bit (net_htons (fld16 p off)) n"
    by (cases "n < 8") (auto simp: be16_def fld16_def net_htons_def bit_simps dest: bit_imp_le_length)
qed

lemma be16_bytes: "holds p off (bytes16 (net_htons v)) \<Longrightarrow> be16 p off = v"
  by (simp add: be16_fld fld16_bytes)

definition be_word :: "u8 list \<Rightarrow> u32" where
  "be_word bs = foldl (\<lambda>a b. push_bit 8 a OR ucast b) 0 bs"

lemma be32_bytes:
  assumes "holds p off bs" "length bs = 4"
  shows "be32 p off = be_word bs"
proof -
  obtain a b c d where "bs = [a, b, c, d]" using assms(2) by (auto simp: eval_nat_numeral length_Suc_conv)
  then show ?thesis using assms(1) by (simp add: be32_def be_word_def push_bit_or push_bit_push_bit numeral_2_eq_2 numeral_3_eq_3 or.assoc)
qed

section \<open>Resource records\<close>

text \<open>A resource record; its owner name is labels that end in the root label or in a pointer.\<close>

record dns_rr =
  rr_labels :: "string list"
  rr_tail :: "u8 list"
  rr_type :: u16
  rr_class :: u16
  rr_ttl :: u32
  rr_data :: "u8 list"

definition rr_bytes :: "dns_rr \<Rightarrow> u8 list" where
  "rr_bytes r = name_bytes (rr_labels r) @ rr_tail r @ bytes16 (net_htons (rr_type r)) @ bytes16 (net_htons (rr_class r)) @
     bytes32 (net_htonl (rr_ttl r)) @ bytes16 (net_htons (of_nat (length (rr_data r)))) @ rr_data r"

definition rr_ok :: "dns_rr \<Rightarrow> bool" where
  "rr_ok r \<longleftrightarrow> qname_ok (rr_labels r) \<and> length (rr_data r) < 65536 \<and>
     (case rr_tail r of [b] \<Rightarrow> b = 0 | [b, c] \<Rightarrow> b AND 0xC0 = 0xC0 | _ \<Rightarrow> False)"

definition is_addr :: "dns_rr \<Rightarrow> bool" where
  "is_addr r \<longleftrightarrow> rr_type r = 1 \<and> length (rr_data r) = 4"

definition answer_of :: "dns_rr list \<Rightarrow> dns_answer" where
  "answer_of rrs = (case find is_addr rrs of None \<Rightarrow> DnsFail | Some r \<Rightarrow> DnsAddr (be_word (rr_data r)))"

lemma rr_name_end:
  assumes "rr_ok r" "holds buf off (rr_bytes r)" "off + length (rr_bytes r) \<le> len"
  shows "dns_name_end buf len off = Some (off + length (name_bytes (rr_labels r)) + length (rr_tail r))"
proof -
  obtain b bs where t: "rr_tail r = b # bs" "b = 0 \<and> bs = [] \<or> b AND 0xC0 = 0xC0 \<and> length bs = 1"
    using assms(1) by (auto simp: rr_ok_def split: list.splits)
  have "dns_name_end buf len off = Some (off + length (name_bytes (rr_labels r)) + (if b = 0 then 1 else 2))"
    by (rule name_end_wire) (use assms t in \<open>auto simp: rr_ok_def rr_bytes_def\<close>)
  then show ?thesis using t by auto
qed

lemma walk_answers_rrs:
  assumes "list_all rr_ok rrs" "holds buf off (concat (map rr_bytes rrs))" "off + length (concat (map rr_bytes rrs)) \<le> len"
  shows "walk_answers buf len (length rrs) off = answer_of rrs"
  using assms
proof (induction rrs arbitrary: off)
  case (Cons r rrs)
  define n where "n = off + length (name_bytes (rr_labels r)) + length (rr_tail r)"
  have e: "dns_name_end buf len off = Some n" unfolding n_def by (rule rr_name_end) (use Cons.prems in simp_all)
  have h: "holds buf n (bytes16 (net_htons (rr_type r)))" "holds buf (n + 8) (bytes16 (net_htons (of_nat (length (rr_data r)))))"
    "holds buf (n + 10) (rr_data r)"
    using Cons.prems(2) by (simp_all add: rr_bytes_def n_def algebra_simps)
  have l2: "off + length (rr_bytes r) = n + 10 + length (rr_data r)" by (simp add: rr_bytes_def n_def)
  then have l: "n + 10 + length (rr_data r) + length (concat (map rr_bytes rrs)) \<le> len" using Cons.prems(3) by simp
  have d: "unat (of_nat (length (rr_data r)) :: u16) = length (rr_data r)"
    using Cons.prems(1) by (simp add: rr_ok_def unat_of_nat take_bit_nat_eq_self)
  then have d4: "(of_nat (length (rr_data r)) :: u16) = 4 \<longleftrightarrow> length (rr_data r) = 4"
    by (auto simp: word_unat_eq_iff)
  have i: "walk_answers buf len (length rrs) (n + 10 + length (rr_data r)) = answer_of rrs"
    by (rule Cons.IH) (use Cons.prems(1,2) l l2 in simp_all)
  show ?case using l i h(3)
    by (simp add: e be16_bytes [OF h(1)] be16_bytes [OF h(2)] Let_def d d4 DNS_TYPE_A_def answer_of_def is_addr_def be32_bytes)
qed (simp add: answer_of_def)

section \<open>Query and response\<close>

definition dns_query :: "u16 \<Rightarrow> string list \<Rightarrow> u8 list" where
  "dns_query txid ls = dns_hdr txid DNS_FLAG_RD 1 0 @ name_bytes ls @ [0, 0, 1, 0, 1]"

lemma dns_hdr_length [simp]: "length (dns_hdr i f q a) = 12" by (simp add: dns_hdr_def)

lemma dns_query_length [simp]: "length (dns_query txid ls) = 17 + length (name_bytes ls)" by (simp add: dns_query_def)

lemma build_query:
  assumes "qname_ok ls" "length (name_bytes ls) + 17 \<le> unat buflen"
  shows "dns_build_query buflen txid (dotted ls) = (of_nat (17 + length (name_bytes ls)), dns_query txid ls)"
  using assms(2) put_labels_dotted [OF assms(1), of "unat buflen - 4" "dns_hdr txid DNS_FLAG_RD 1 0"]
  by (auto simp: dns_build_query_def DNS_HDR_LEN_def Let_def split_beta dns_query_def DNS_TYPE_A_def DNS_CLASS_IN_def)

text \<open>A response to a query: its header, the question echoed, and records.\<close>

definition dns_response :: "u16 \<Rightarrow> u16 \<Rightarrow> string list \<Rightarrow> dns_rr list \<Rightarrow> u8 list" where
  "dns_response txid flags ls rrs =
     dns_hdr txid flags 1 (of_nat (length rrs)) @ name_bytes ls @ [0, 0, 1, 0, 1] @ concat (map rr_bytes rrs)"

lemma hdr_fields:
  assumes "holds buf 0 (dns_hdr i f q a)"
  shows "net_ntohs (fld16 buf 0) = i" "net_ntohs (fld16 buf 2) = f" "net_ntohs (fld16 buf 4) = q" "net_ntohs (fld16 buf 6) = a"
proof -
  have "holds buf 0 (bytes16 (net_htons i))" "holds buf 2 (bytes16 (net_htons f))" "holds buf 4 (bytes16 (net_htons q))"
    "holds buf 6 (bytes16 (net_htons a))"
    using assms by (simp_all add: dns_hdr_def eval_nat_numeral)
  then show "net_ntohs (fld16 buf 0) = i" "net_ntohs (fld16 buf 2) = f" "net_ntohs (fld16 buf 4) = q" "net_ntohs (fld16 buf 6) = a"
    by (simp_all add: fld16_bytes)
qed

lemma buf_mem_holds: "holds (buf_mem bs) 0 bs" by (simp add: holds_def buf_mem_def)

lemma parse_response:
  assumes "qname_ok ls" "list_all rr_ok rrs" "length rrs < 65536" "holds buf 0 (dns_response txid flags ls rrs)"
    "length (dns_response txid flags ls rrs) \<le> unat len" "flags AND DNS_FLAG_QR \<noteq> 0"
  shows "dns_parse_response buf len txid (buf_mem (dns_query txid ls)) (of_nat (17 + length (name_bytes ls))) =
     (if flags AND DNS_FLAG_RCODE \<noteq> 0 then DnsFail else answer_of rrs)"
proof -
  let ?n = "length (name_bytes ls)"
  have h: "holds buf 0 (dns_hdr txid flags 1 (of_nat (length rrs)))" "holds buf 12 (name_bytes ls @ [0, 0, 1, 0, 1])"
    "holds buf (17 + ?n) (concat (map rr_bytes rrs))"
    using assms(4) by (simp_all add: dns_response_def add.commute eval_nat_numeral)
  have b: "17 + ?n + length (concat (map rr_bytes rrs)) \<le> unat len" using assms(5) by (simp add: dns_response_def)
  have "unat len < 2 ^ 16" using unsigned_less [of len] by simp
  then have q: "unat (of_nat (17 + ?n) :: u16) = 17 + ?n" using b by (simp only: unat_of_nat) (simp add: take_bit_nat_eq_self)
  have q12: "(12 :: u16) \<le> of_nat (17 + ?n)" unfolding word_le_nat_alt q by simp
  have a: "unat (of_nat (length rrs) :: u16) = length rrs" using assms(3) by (simp add: unat_of_nat take_bit_nat_eq_self)
  have "holds (buf_mem (dns_query txid ls)) 12 (name_bytes ls @ [0, 0, 1, 0, 1])"
    using buf_mem_holds [of "dns_query txid ls"] by (simp add: dns_query_def)
  from slice_holds [OF this] slice_holds [OF h(2)]
  have e: "slice buf 12 (5 + ?n) = slice (buf_mem (dns_query txid ls)) 12 (5 + ?n)"
    by (simp add: eval_nat_numeral)
  have "dns_name_end buf (unat len) 12 = Some (12 + ?n + 1)"
    using name_end_wire [of ls buf 12 0 "[0, 1, 0, 1]" "unat len"] assms(1) h(2) b by simp
  then have s: "skip_questions buf (unat len) 1 12 = Some (17 + ?n)" using b by simp
  have w: "walk_answers buf (unat len) (length rrs) (17 + ?n) = answer_of rrs"
    using walk_answers_rrs [OF assms(2) h(3) b] .
  have lt: "(len < of_nat (17 + ?n)) = False" unfolding word_less_nat_alt q using b by simp
  have z: "(of_nat (length rrs) = (0 :: u16)) = (rrs = [])" unfolding unat_eq_0 [symmetric] a by simp
  have m: "17 + ?n - 12 = 5 + ?n" "unat (1 :: u16) = 1" "(unat len < 12) = False" using b by simp_all
  show ?thesis
    unfolding dns_parse_response_def Let_def hdr_fields [OF h(1)] DNS_HDR_LEN_def of_nat_numeral question_len [OF q12] q a lt z m s e
    using assms(6) w by (cases "rrs = []") (simp_all add: answer_of_def)
qed

end
