(* ===== verification/Dns_Props.thy ===== *)
theory Dns_Props
  imports Dns_Answer Tcp_Sock Udp_Queue
begin

text \<open>Properties of the resolver: what it accepts, that it returns, and that it gives its socket back.\<close>

section \<open>Ephemeral UDP ports\<close>

definition port_of :: "u16 \<Rightarrow> u16" where "port_of e = (if e \<ge> 65535 then 49152 else e)"

lemma next_port_step:
  "next_port s = (if \<not> port_in_use (port_of (g_ephemeral s)) s then Some (port_of (g_ephemeral s), s\<lparr>g_ephemeral := port_of (g_ephemeral s) + 1\<rparr>)
     else next_port (s\<lparr>g_ephemeral := port_of (g_ephemeral s) + 1\<rparr>))"
  by (subst next_port.simps) (simp add: Let_def port_of_def port_in_use_def)

lemma next_port_stuck:
  assumes "next_port s = None"
  shows "port_in_use (port_of (((\<lambda>e. port_of e + 1) ^^ n) (g_ephemeral s))) s"
  using assms
proof (induction n arbitrary: s)
  case 0
  then show ?case using next_port_step [of s] by (auto split: if_splits)
next
  case (Suc n)
  let ?t = "s\<lparr>g_ephemeral := port_of (g_ephemeral s) + 1\<rparr>"
  have "next_port ?t = None" using Suc.prems next_port_step [of s] by (auto split: if_splits)
  then have "port_in_use (port_of (((\<lambda>e. port_of e + 1) ^^ n) (g_ephemeral ?t))) ?t" by (rule Suc.IH)
  then show ?case by (simp add: port_in_use_def funpow_Suc_right del: funpow.simps)
qed

lemma port_of_bound: "unat (port_of e) \<le> 65534"
  using unsigned_less [of e] by (auto simp: port_of_def word_le_nat_alt)

lemma port_of_next: "unat (port_of (port_of e + 1)) = (if unat (port_of e) < 65534 then unat (port_of e) + 1 else 49152)"
proof -
  have u: "unat (port_of e + 1) = unat (port_of e) + 1"
    using port_of_bound [of e] by (subst unat_add_lem [THEN iffD1]) simp_all
  then show ?thesis using port_of_bound [of e] unfolding port_of_def [of "port_of e + 1"] by (auto simp: word_le_nat_alt)
qed

lemma port_of_iter:
  "n < 9 \<Longrightarrow> unat (port_of (((\<lambda>e. port_of e + 1) ^^ n) e)) =
     (if unat (port_of e) + n \<le> 65534 then unat (port_of e) + n else 49152 + (unat (port_of e) + n - 65535))"
proof (induction n)
  case 0
  then show ?case using port_of_bound [of e] by simp
next
  case (Suc n)
  then show ?case using port_of_bound [of e] by (auto simp: port_of_next)
qed

lemma next_port_returns: "\<exists>r. next_port s = Some r"
proof (rule ccontr)
  assume "\<nexists>r. next_port s = Some r"
  then have n: "next_port s = None" by (cases "next_port s") blast+
  define c where "c k = port_of (((\<lambda>e. port_of e + 1) ^^ k) (g_ephemeral s))" for k
  have "\<exists>j<8. u_local_port (udp_socks s j) = c k" for k
    using next_port_stuck [OF n, of k] by (auto simp: c_def port_in_use_def first_index_None UDP_MAX_SOCKETS_def)
  then have "c ` {..<9} \<subseteq> (\<lambda>i. u_local_port (udp_socks s i)) ` {..<8}" by (metis (no_types, lifting) image_eqI image_subsetI lessThan_iff)
  then have "card (c ` {..<9}) \<le> card ((\<lambda>i. u_local_port (udp_socks s i)) ` {..<8::nat})" by (intro card_mono) simp_all
  also have "\<dots> \<le> 8" using card_image_le [of "{..<8::nat}" "\<lambda>i. u_local_port (udp_socks s i)"] by simp
  finally have "card (c ` {..<9}) \<le> 8" .
  moreover have "inj_on c {..<9}"
  proof (rule inj_onI)
    fix x y assume x: "x \<in> {..<9}" and y: "y \<in> {..<9}" and e: "c x = c y"
    define a where "a = unat (port_of (g_ephemeral s))"
    have "unat (c k) = (if a + k \<le> 65534 then a + k else 49152 + (a + k - 65535))" if "k < 9" for k
      using port_of_iter [OF that] unfolding c_def a_def .
    moreover have "a \<le> 65534" unfolding a_def by (rule port_of_bound)
    ultimately show "x = y" using x y arg_cong [OF e, of unat] by (simp split: if_splits)
  qed
  ultimately show False by (simp add: card_image)
qed

lemma udp_open_returns: "\<exists>r. udp_open draws p s = Some r"
proof -
  have "\<exists>r. alloc_port draws t = Some r" for t
    using next_port_returns [of t] by (auto simp: alloc_port_def split: option.split)
  then show ?thesis by (auto simp: udp_open_def Let_def split: option.split)
qed

section \<open>Open sockets\<close>

definition same_open :: "'a udp_net_scheme \<Rightarrow> 'a udp_net_scheme \<Rightarrow> bool" where
  "same_open s t \<longleftrightarrow> (\<forall>j. u_active (udp_socks t j) = u_active (udp_socks s j))"

lemma same_open_trans: "same_open s t \<Longrightarrow> same_open t u \<Longrightarrow> same_open s u" by (simp add: same_open_def)

lemma udp_send_socks [simp]: "udp_socks (snd (udp_send i d p bs s)) = udp_socks s"
proof -
  have "udp_socks t = udp_socks s" if "net.more t = net.more s" for t :: "'a udp_net_scheme"
    using that by (cases t, cases s) simp
  from this [OF ip_send_more] show ?thesis by (simp add: udp_send_def Let_def)
qed

lemma udp_recv_open: "same_open s (snd (udp_recv i n s))"
  by (auto simp: udp_recv_def same_open_def Let_def split_beta upd_udp_def ring_get_def ring_skip_def)

text \<open>The inner loop, one slice at a time.\<close>

lemma dns_wait_step:
  "dns_wait poll sock server txid qbuf qlen T w e k s =
     (if w < RETRY_MS \<and> e < T
      then let r = udp_recv sock 512 (poll k s)
           in if dns_check server txid qbuf qlen (fst r) = DnsIgnore
              then dns_wait poll sock server txid qbuf qlen T (w + SLICE_MS) (e + SLICE_MS) (k + 1) (snd r)
              else (dns_check server txid qbuf qlen (fst r), e + SLICE_MS, k + 1, snd r)
      else (DnsIgnore, e, k, s))"
  by (subst dns_wait.simps) (simp add: Let_def split_beta)

lemma dns_wait_ind:
  fixes s :: "'a udp_net_scheme"
  assumes "\<And>w e k s. (w < RETRY_MS \<Longrightarrow> P (w + SLICE_MS) (e + SLICE_MS) (Suc k) (snd (udp_recv sock 512 (poll k s)))) \<Longrightarrow> P w e k s"
  shows "P w e k s"
proof (induction "2000 - unat w" arbitrary: w e k s rule: less_induct)
  case (less w e k s)
  have "P (w + SLICE_MS) (e + SLICE_MS) (Suc k) (snd (udp_recv sock 512 (poll k s)))" if "w < RETRY_MS"
  proof -
    have "unat w < 2000" using that by (simp add: RETRY_MS_def word_less_nat_alt)
    moreover from this have "unat (w + 50) = unat w + 50" by (subst unat_add_lem [THEN iffD1]) simp_all
    ultimately show ?thesis by (intro less) (simp add: SLICE_MS_def)
  qed
  then show ?case by (rule assms)
qed

lemma dns_wait_open:
  assumes "\<forall>k s. same_open s (poll k s)"
  shows "same_open s (snd (snd (snd (dns_wait poll sock server txid qbuf qlen T w e k s))))"
proof (induction w e k s rule: dns_wait_ind [where poll = poll and sock = sock])
  case (1 w e k s)
  have t: "same_open s (snd (udp_recv sock 512 (poll k s)))" using assms udp_recv_open same_open_trans by blast
  show ?case using t same_open_trans [OF t 1]
    by (subst dns_wait_step) (simp add: Let_def same_open_def)
qed

lemma dns_wait_time:
  assumes "unat T + 50 \<le> 2 ^ 32"
  shows "e \<le> fst (snd (dns_wait poll sock server txid qbuf qlen T w e k s)) \<and>
    (w < RETRY_MS \<longrightarrow> e < T \<longrightarrow> e < fst (snd (dns_wait poll sock server txid qbuf qlen T w e k s)))"
proof (induction w e k s rule: dns_wait_ind [where poll = poll and sock = sock])
  case (1 w e k s)
  have "e < e + SLICE_MS" if "e < T"
  proof -
    have "unat (e + 50) = unat e + 50"
      using that assms by (subst unat_add_lem [THEN iffD1]) (simp_all add: word_less_nat_alt)
    then show ?thesis by (simp add: SLICE_MS_def word_less_nat_alt)
  qed
  then show ?case using 1
    by (subst (1 2) dns_wait_step) (auto simp: Let_def)
qed

text \<open>The states a look-up passes through between two polls: it sends the query, or polls and reads a
  datagram.\<close>

inductive dns_passes :: "(nat \<Rightarrow> 'a udp_net_scheme \<Rightarrow> 'a udp_net_scheme) \<Rightarrow> int \<Rightarrow> u32 \<Rightarrow> u8 list \<Rightarrow>
    nat \<Rightarrow> 'a udp_net_scheme \<Rightarrow> nat \<Rightarrow> 'a udp_net_scheme \<Rightarrow> bool" for poll sock server q where
  here: "dns_passes poll sock server q k s k s"
| send: "dns_passes poll sock server q k (snd (udp_send sock server DNS_PORT q s)) j t \<Longrightarrow> dns_passes poll sock server q k s j t"
| recv: "dns_passes poll sock server q (Suc k) (snd (udp_recv sock 512 (poll k s))) j t \<Longrightarrow> dns_passes poll sock server q k s j t"

lemma dns_passes_trans:
  "dns_passes poll sock server q k s j t \<Longrightarrow> dns_passes poll sock server q j t i u \<Longrightarrow> dns_passes poll sock server q k s i u"
  by (induction rule: dns_passes.induct) (auto intro: dns_passes.intros)

lemma dns_wait_answer:
  assumes W_def: "W = dns_wait poll sock server txid qbuf qlen T"
  shows "dns_passes poll sock server q k s (fst (snd (snd (W w e k s)))) (snd (snd (snd (W w e k s)))) \<and>
    (fst (W w e k s) \<noteq> DnsIgnore \<longrightarrow> (\<exists>j t. dns_passes poll sock server q k s j t \<and>
      fst (W w e k s) = dns_check server txid qbuf qlen (fst (udp_recv sock 512 (poll j t)))))"
proof (induction w e k s rule: dns_wait_ind [where poll = poll and sock = sock])
  case (1 w e k s)
  have W: "W w e k s = (if w < RETRY_MS \<and> e < T
      then if dns_check server txid qbuf qlen (fst (udp_recv sock 512 (poll k s))) = DnsIgnore
           then W (w + SLICE_MS) (e + SLICE_MS) (Suc k) (snd (udp_recv sock 512 (poll k s)))
           else (dns_check server txid qbuf qlen (fst (udp_recv sock 512 (poll k s))), e + SLICE_MS, Suc k, snd (udp_recv sock 512 (poll k s)))
      else (DnsIgnore, e, k, s))"
    unfolding W_def by (subst dns_wait_step) (simp add: Let_def)
  show ?case unfolding W using 1 by (auto intro: dns_passes.intros)
qed

section \<open>The retry loop\<close>

lemma dns_loop_step:
  "dns_loop poll sock server txid qbuf qlen T e k s =
     (if e < T
      then let r = dns_wait poll sock server txid qbuf qlen T 0 e k (snd (udp_send sock server DNS_PORT (take (unat qlen) qbuf) s))
           in if fst r = DnsIgnore then dns_loop poll sock server txid qbuf qlen T (fst (snd r)) (fst (snd (snd r))) (snd (snd (snd r)))
              else Some (fst r, snd (snd (snd r)))
      else Some (DnsIgnore, s))"
  by (subst dns_loop.simps) (simp add: Let_def split_beta)

lemma dns_loop_spec:
  assumes "unat T + 50 \<le> 2 ^ 32"
  shows "\<exists>a t. dns_loop poll sock server txid qbuf qlen T e k s = Some (a, t) \<and>
    ((\<forall>k s. same_open s (poll k s)) \<longrightarrow> same_open s t)"
proof (induction "unat T - unat e" arbitrary: e k s rule: less_induct)
  case (less e k s)
  let ?u = "snd (udp_send sock server DNS_PORT (take (unat qlen) qbuf) s)"
  let ?r = "dns_wait poll sock server txid qbuf qlen T 0 e k ?u"
  have u: "same_open s ?u" by (simp add: same_open_def)
  have o: "same_open s (snd (snd (snd ?r)))" if "\<forall>k s. same_open s (poll k s)"
    using same_open_trans [OF u dns_wait_open [OF that]] .
  show ?case
  proof (cases "e < T \<and> fst ?r = DnsIgnore")
    case True
    then have "e < fst (snd ?r)" 
      using dns_wait_time [OF assms, where w = 0 and e = e and s = ?u] by (simp add: RETRY_MS_def)
    then have "unat T - unat (fst (snd ?r)) < unat T - unat e" using True by (simp add: word_less_nat_alt diff_less_mono2)
    from less [OF this, of "fst (snd (snd ?r))" "snd (snd (snd ?r))"] show ?thesis
      unfolding dns_loop_step [of poll sock server txid qbuf qlen T e k s] Let_def using True o same_open_trans by (simp, blast)
  next
    case False
    then show ?thesis
      unfolding dns_loop_step [of poll sock server txid qbuf qlen T e k s] Let_def using o by (auto simp: same_open_def)
  qed
qed

lemma dns_loop_answer:
  assumes "dns_loop poll sock server txid qbuf qlen T e k s = Some (a, t)" "a \<noteq> DnsIgnore"
  shows "\<exists>j u. dns_passes poll sock server (take (unat qlen) qbuf) k s j u \<and>
    a = dns_check server txid qbuf qlen (fst (udp_recv sock 512 (poll j u)))"
proof -
  let ?A = "\<lambda>poll sock server txid qbuf qlen (T :: u32) (e :: u32) k s r. fst r \<noteq> DnsIgnore \<longrightarrow>
    (\<exists>j u. dns_passes poll sock server (take (unat qlen) qbuf) k s j u \<and>
      fst r = dns_check server txid qbuf qlen (fst (udp_recv sock 512 (poll j u))))"
  have "?A poll sock server txid qbuf qlen T e k s r" if "dns_loop poll sock server txid qbuf qlen T e k s = Some r" for r
  proof (rule dns_loop.raw_induct [OF _ that, of ?A], goal_cases)
    case (1 f poll sock server txid qbuf qlen T e k s r)
    note IH = 1(1)
    let ?q = "take (unat qlen) qbuf"
    let ?r = "dns_wait poll sock server txid qbuf qlen T 0 e k (snd (udp_send sock server DNS_PORT ?q s))"
    note w = dns_wait_answer [OF refl, where poll = poll and sock = sock and server = server and txid = txid and qbuf = qbuf and
      qlen = qlen and T = T and w = 0 and e = e and k = k and q = ?q and s = "snd (udp_send sock server DNS_PORT ?q s)"]
    have p: "dns_passes poll sock server ?q k s (fst (snd (snd ?r))) (snd (snd (snd ?r)))"
      by (rule dns_passes.send) (use w in blast)
    consider "e < T" "fst ?r = DnsIgnore" "f poll sock server txid qbuf qlen T (fst (snd ?r)) (fst (snd (snd ?r))) (snd (snd (snd ?r))) = Some r"
      | "e < T" "fst ?r \<noteq> DnsIgnore" "fst r = fst ?r" | "fst r = DnsIgnore"
      using 1(2) by (auto simp: Let_def split_beta split: if_splits)
    then show ?case
    proof cases
      case 1
      show ?thesis using IH [OF 1(3)] dns_passes_trans [OF p] by blast
    next
      case 2
      then show ?thesis using w dns_passes.send by metis
    qed simp
  qed
  then show ?thesis using assms by fastforce
qed

section \<open>Lengths\<close>

lemma put_labels_len:
  "length out \<le> length (snd (put_labels e host out)) \<and> length (snd (put_labels e host out)) \<le> length out + length host + 1"
proof (induction e host out rule: put_labels.induct)
  case (2 e c cs out)
  let ?l = "takeWhile (\<lambda>x. x \<noteq> CHR ''.'') (c # cs)" and ?r = "dropWhile (\<lambda>x. x \<noteq> CHR ''.'') (c # cs)"
  let ?n = "of_nat (length ?l) :: u8"
  let ?o = "out @ [?n] @ map of_char ?l"
  have l: "length (c # cs) = length ?l + length ?r" by (metis length_append takeWhile_dropWhile_id)
  show ?case
  proof (cases "(?n = 0 \<or> 63 < ?n) \<or> e \<le> length out + 1 + unat ?n")
    case True
    then have "put_labels e (c # cs) out = (False, out)" unfolding put_labels.simps Let_def by (simp only: split: if_split) blast
    then show ?thesis by simp
  next
    case False
    then have e: "put_labels e (c # cs) out = put_labels e (tl ?r) ?o"
      unfolding put_labels.simps Let_def by (simp only: de_Morgan_disj if_False simp_thms)
    have i: "length ?o \<le> length (snd (put_labels e (tl ?r) ?o)) \<and> length (snd (put_labels e (tl ?r) ?o)) \<le> length ?o + length (tl ?r) + 1"
      by (rule 2 [OF refl refl]) (use False in blast)+
    show ?thesis
    proof (cases ?r)
      case Nil
      then show ?thesis unfolding e using l by simp
    next
      case (Cons d ds)
      then show ?thesis using l i unfolding e by simp
    qed
  qed
qed simp

text \<open>The query for a name of at most 255 characters stays inside the buffer.\<close>

lemma build_query_len:
  assumes "dns_build_query 280 txid host = (qlen, q)" "length host \<le> 255"
  shows "length q \<le> 273" "qlen \<noteq> 0 \<Longrightarrow> unat qlen = length q \<and> 17 \<le> length q"
proof -
  let ?p = "put_labels 276 host (dns_hdr txid DNS_FLAG_RD 1 0)"
  have o: "qlen = 0 \<and> q = snd ?p \<or> q = snd ?p @ [0, 0, 1, 0, 1] \<and> qlen = of_nat (length q)"
    using assms(1) by (auto simp: dns_build_query_def DNS_HDR_LEN_def DNS_TYPE_A_def DNS_CLASS_IN_def Let_def split_beta split: if_splits)
  have p: "12 \<le> length (snd ?p)" "length (snd ?p) \<le> 268"
    using put_labels_len [of "dns_hdr txid DNS_FLAG_RD 1 0" 276 host] assms(2) by simp_all
  then show l: "length q \<le> 273" using o by auto
  have u: "unat (of_nat (length q) :: u16) = length q" using l by (simp only: unat_of_nat) (simp add: take_bit_nat_eq_self)
  show "unat qlen = length q \<and> 17 \<le> length q" if "qlen \<noteq> 0" using o u p that by auto
qed

lemma rbuf_get_len: "length (fst (rbuf_get buf h t sz n)) \<le> n"
  by (induction n arbitrary: h) (simp_all add: split_beta)

lemma udp_recv_len: "fst (udp_recv i n s) = Some (bs, ip, port) \<Longrightarrow> length bs \<le> unat n"
  using rbuf_get_len [of "u_rx_buf (udp_socks s (nat i))"]
  by (auto simp: udp_recv_def Let_def split_beta ring_get_def word_less_nat_alt split: if_splits)
    (meson less_imp_le order_trans | blast)+

lemma slice_mem_of: "off + n \<le> length bs \<Longrightarrow> slice (buf_mem bs) off n = take n (drop off bs)"
  by (rule nth_equalityI) (simp_all add: slice_def buf_mem_def)

lemma udp_open_active:
  assumes "udp_open draws p s = Some (i, t)"
  shows "if i < 0 then t = s else \<not> u_active (udp_socks s (nat i)) \<and> udp_sock_valid i t \<and>
    (\<forall>j. u_active (udp_socks t j) = (j = nat i \<or> u_active (udp_socks s j)))"
  using assms alloc_port_socks
  by (fastforce simp: udp_open_def Let_def first_index_Some udp_sock_valid_def split: option.splits if_splits)

section \<open>A whole look-up\<close>

lemma open_socket:
  assumes "first_index (\<lambda>i. \<not> u_active (udp_socks s i)) UDP_MAX_SOCKETS = Some i"
  shows "\<exists>t. udp_open draws p s = Some (int i, t) \<and> udp_sock_valid (int i) t \<and> udp_rep (udp_socks t i) []"
proof -
  obtain j t where o: "udp_open draws p s = Some (j, t)" using udp_open_returns [of draws p s] by auto
  then have "j = int i" using assms by (auto simp: udp_open_def Let_def split: if_splits)
  then show ?thesis using o udp_open_rep [OF o] by auto
qed

lemma delivered:
  assumes "udp_sock_valid (int i) t" "udp_rep (udp_socks t i) []" "length bs \<le> 512"
  shows "fst (udp_recv (int i) 512 (upd_udp i (queue_dgram ip port bs) t)) = Some (bs, ip, port)"
proof -
  let ?u = "upd_udp i (queue_dgram ip port bs) t"
  have v: "udp_sock_valid (int i) ?u" using assms(1) by (simp add: udp_sock_valid_def)
  have "q_put (ip, port, bs) [] = [(ip, port, bs)]" using assms(3) by (simp add: q_put_def dgram_bytes_def)
  then have "udp_rep (udp_socks ?u (nat (int i))) [(ip, port, bs)]" using queue_dgram_rep [OF assms(2), of bs ip port] assms(3) by simp
  from udp_recv_rep [OF v this, of 512] show ?thesis using assms(3) by simp
qed

lemma resolve_answers:
  assumes "qname_ok ls" "length (name_bytes ls) \<le> 263" "net_str_to_ip (dotted ls) = None" "\<not> dns_is_localhost (dotted ls)"
    and "server \<noteq> 0" "0 < timeout_ms" "first_index (\<lambda>i. \<not> u_active (udp_socks s i)) UDP_MAX_SOCKETS = Some i"
    and "\<forall>t. poll 0 t = upd_udp i (queue_dgram server 53 (dns_response (rnd OR 1) flags ls rrs)) t"
    and "length (dns_response (rnd OR 1) flags ls rrs) \<le> 512" "list_all rr_ok rrs"
    and "flags AND 0x8000 \<noteq> 0" "flags AND 0x000F = 0" "answer_of rrs = DnsAddr ip"
  shows "\<exists>s'. dns_resolve poll draws rnd server (dotted ls) timeout_ms s = Some (Some ip, s')"
proof -
  let ?r = "dns_response (rnd OR 1) flags ls rrs" and ?q = "dns_query (rnd OR 1) ls" 
  define m :: u16 where "m = of_nat (17 + length (name_bytes ls))"
  obtain t where t: "udp_open draws 0 s = Some (int i, t)" "udp_sock_valid (int i) t" "udp_rep (udp_socks t i) []"
    using open_socket [OF assms(7)] by blast
  let ?u = "snd (udp_send (int i) server DNS_PORT (take (unat m) ?q) t)"
  have q: "dns_build_query 280 (rnd OR 1) (dotted ls) = (m, ?q)" unfolding m_def using build_query [OF assms(1), of 280] assms(2) by simp
  have u: "unat m = 17 + length (name_bytes ls)" unfolding m_def using assms(2) by (simp only: unat_of_nat) (simp add: take_bit_nat_eq_self)
  then have nz: "m \<noteq> 0" by auto
  have v: "udp_sock_valid (int i) ?u" "udp_rep (udp_socks ?u i) []" using t(2,3) by (simp_all add: udp_sock_valid_def)
  have r: "fst (udp_recv (int i) 512 (poll 0 ?u)) = Some (?r, server, 53)"
    using delivered [OF v assms(9)] assms(8) by simp
  have rl: "unat (of_nat (length ?r) :: u16) = length ?r" using assms(9) by (simp add: unat_of_nat take_bit_nat_eq_self)
  have rr: "length rrs < 65536"
  proof -
    have "length rrs \<le> length (concat (map rr_bytes rrs))" by (induction rrs) (auto simp: rr_bytes_def)
    then show ?thesis using assms(9) by (simp add: dns_response_def)
  qed
  have "dns_parse_response (buf_mem ?r) (of_nat (length ?r)) (rnd OR 1) (buf_mem ?q) m = DnsAddr ip"
    using parse_response [OF assms(1,10) rr buf_mem_holds, of "rnd OR 1" flags "of_nat (length ?r)"] rl assms(11-13)
    unfolding m_def by (simp add: DNS_FLAG_QR_def DNS_FLAG_RCODE_def)
  moreover have "0 < length ?r" by (simp add: dns_response_def)
  ultimately have c: "dns_check server (rnd OR 1) ?q m (fst (udp_recv (int i) 512 (poll 0 ?u))) = DnsAddr ip"
    unfolding r by (simp add: dns_check_def DNS_PORT_def)
  have w: "dns_wait poll (int i) server (rnd OR 1) ?q m timeout_ms 0 0 0 ?u =
      (DnsAddr ip, SLICE_MS, 1, snd (udp_recv (int i) 512 (poll 0 ?u)))"
    using assms(6) c by (subst dns_wait_step) (simp add: Let_def RETRY_MS_def)
  have "dns_loop poll (int i) server (rnd OR 1) ?q m timeout_ms 0 0 t =
      Some (DnsAddr ip, snd (udp_recv (int i) 512 (poll 0 ?u)))"
    unfolding dns_loop_step [of poll "int i" server "rnd OR 1" ?q m timeout_ms 0 0 t] Let_def w using assms(6) by simp
  then show ?thesis using assms(3-5) nz by (simp add: dns_resolve_def q t(1))
qed

section \<open>Properties\<close>

definition demo_rr :: dns_rr where
  "demo_rr = \<lparr>rr_labels = [], rr_tail = [0xC0, 12], rr_type = 1, rr_class = 1, rr_ttl = 60, rr_data = [10, 0, 0, 7]\<rparr>"

definition demo_cname :: dns_rr where
  "demo_cname = demo_rr\<lparr>rr_type := 5, rr_data := [1, 99, 0]\<rparr>"

definition demo_poll :: "nat \<Rightarrow> udp_net \<Rightarrow> udp_net" where
  "demo_poll k = upd_udp 0 (queue_dgram 9 53 (dns_response 1 0x8180 [''a'', ''b''] [demo_cname, demo_rr]))"

lemma demo_facts:
  "first_index (\<lambda>i. \<not> u_active (udp_socks udp_net_blank i)) UDP_MAX_SOCKETS = Some 0"
  "net_str_to_ip ''a.b'' = None" "\<not> dns_is_localhost ''a.b''"
  "length (dns_response (0 OR 1) 0x8180 [''a'', ''b''] [demo_cname, demo_rr]) \<le> 512"
  "list_all rr_ok [demo_cname, demo_rr]" "find is_addr [demo_cname, demo_rr] = Some demo_rr"
  "qname_ok [''a'', ''b'']" "dotted [''a'', ''b''] = ''a.b''" "length (name_bytes [''a'', ''b'']) \<le> 263"
proof -
  show "first_index (\<lambda>i. \<not> u_active (udp_socks udp_net_blank i)) UDP_MAX_SOCKETS = Some 0"
    by (simp add: first_index_Some udp_net_blank_def udp_blank_def UDP_MAX_SOCKETS_def)
  show "net_str_to_ip ''a.b'' = None"
    unfolding net_str_to_ip_def using read_octets.simps(2) [of 3 "''a.b''" 0] by (simp add: is_digit_def)
  show "\<not> dns_is_localhost ''a.b''" by (simp add: dns_is_localhost_def ascii_lower_def)
qed (simp_all add: dns_response_def rr_bytes_def rr_ok_def demo_cname_def demo_rr_def is_addr_def)

lemma demo_answer:
  "\<exists>s'. dns_resolve demo_poll [] 0 9 ''a.b'' 5000 udp_net_blank = Some (Some 0x0A000007, s')"
proof -
  have "answer_of [demo_cname, demo_rr] = DnsAddr 0x0A000007"
    unfolding answer_of_def demo_facts(6) by (simp add: demo_rr_def be_word_def)
  then show ?thesis using resolve_answers [of "[''a'', ''b'']" 9 5000 udp_net_blank 0 demo_poll 0 "0x8180" "[demo_cname, demo_rr]"] demo_facts
    unfolding demo_poll_def by simp
qed

text \<open>(C28) A look-up returns the address the server gives: for a name of labels of 1 to 63 characters that
  fits the query buffer, when a socket is free and the first poll delivers a response to the query from the
  server (any records, the owner names compressed or not), \<open>dns_resolve\<close> returns the address of the first
  address record among them.\<close>

theorem dns_resolve_answers:
  assumes "qname_ok ls" "length (name_bytes ls) \<le> 263" "net_str_to_ip (dotted ls) = None" "\<not> dns_is_localhost (dotted ls)"
    and "server \<noteq> 0" "0 < timeout_ms" "first_index (\<lambda>i. \<not> u_active (udp_socks s i)) UDP_MAX_SOCKETS = Some i"
    and "\<forall>t. poll 0 t = upd_udp i (queue_dgram server 53 (dns_response (rnd OR 1) flags ls rrs)) t"
    and "length (dns_response (rnd OR 1) flags ls rrs) \<le> 512" "list_all rr_ok rrs"
    and "flags AND 0x8000 \<noteq> 0" "flags AND 0x000F = 0" "find is_addr rrs = Some r"
  shows "\<exists>s'. dns_resolve poll draws rnd server (dotted ls) timeout_ms s = Some (Some (be_word (rr_data r)), s')"
  by (rule resolve_answers [where s = s and poll = poll and i = i and flags = flags and rrs = rrs])
    (use assms in \<open>simp_all add: answer_of_def\<close>)

lemma dns_resolve_answers_witness:
  "\<exists>s'. dns_resolve demo_poll [] 0 9 (dotted [''a'', ''b'']) 5000 udp_net_blank = Some (Some (be_word (rr_data demo_rr)), s')"
  using dns_resolve_answers [of "[''a'', ''b'']" 9 5000 udp_net_blank 0 demo_poll 0 "0x8180" "[demo_cname, demo_rr]"] demo_facts
  unfolding demo_poll_def by simp

text \<open>(C29) An address is never taken from a packet that does not answer the query: when \<open>dns_resolve\<close> returns
  an address for a name of at most 255 characters that is neither an address nor local, then the look-up
  read, at one of its polls and from the socket it opened, a datagram that came from port 53 of the
  configured server, carries the transaction number drawn for this look-up and the response bit, and
  repeats the question sent byte for byte, and the address is the one parsed from it.\<close>

theorem dns_authentic:
  assumes "dns_resolve poll draws rnd server host timeout_ms s = Some (Some ip, s')"
    "net_str_to_ip host = None" "\<not> dns_is_localhost host" "length host \<le> 255"
  shows "\<exists>qlen q sock s1 k t bs. dns_build_query 280 (rnd OR 1) host = (qlen, q) \<and> udp_open draws 0 s = Some (sock, s1) \<and>
    dns_passes poll sock server q 0 s1 k t \<and> fst (udp_recv sock 512 (poll k t)) = Some (bs, server, 53) \<and>
    net_ntohs (fld16 (buf_mem bs) 0) = rnd OR 1 \<and> net_ntohs (fld16 (buf_mem bs) 2) AND 0x8000 \<noteq> 0 \<and>
    length q \<le> length bs \<and> drop 12 (take (length q) bs) = drop 12 q \<and>
    dns_parse_response (buf_mem bs) (of_nat (length bs)) (rnd OR 1) (buf_mem q) qlen = DnsAddr ip"
proof -
  obtain qlen q where q: "dns_build_query 280 (rnd OR 1) host = (qlen, q)" by (cases "dns_build_query 280 (rnd OR 1) host")
  obtain sock t a u where o: "udp_open draws 0 s = Some (sock, t)"
    and l: "qlen \<noteq> 0" "dns_loop poll sock server (rnd OR 1) q qlen timeout_ms 0 0 t = Some (a, u)" "a = DnsAddr ip"
    using assms(1-3) q by (auto simp: dns_resolve_def Let_def split: if_splits bind_splits dns_answer.splits)
  have n: "unat qlen = length q" "17 \<le> length q" using build_query_len(2) [OF q assms(4) l(1)] by auto
  obtain k v where v: "dns_passes poll sock server q 0 t k v"
    and k: "a = dns_check server (rnd OR 1) q qlen (fst (udp_recv sock 512 (poll k v)))"
    using dns_loop_answer [OF l(2)] l(3) n(1) by auto
  from k obtain bs where b: "fst (udp_recv sock 512 (poll k v)) = Some (bs, server, 53)"
    "dns_parse_response (buf_mem bs) (of_nat (length bs)) (rnd OR 1) (buf_mem q) qlen = DnsAddr ip"
    using l(3) by (auto simp: dns_check_def DNS_PORT_def split: option.splits if_splits prod.splits)
  have "length bs \<le> 512" using udp_recv_len [OF b(1)] by simp
  then have c: "unat (of_nat (length bs) :: u16) = length bs" by (simp add: unat_of_nat take_bit_nat_eq_self)
  have q12: "12 \<le> qlen" using n by (simp add: word_le_nat_alt)
  have p: "net_ntohs (fld16 (buf_mem bs) 0) = rnd OR 1" "net_ntohs (fld16 (buf_mem bs) 2) AND 0x8000 \<noteq> 0" "length q \<le> length bs"
    "slice (buf_mem bs) 12 (length q - 12) = slice (buf_mem q) 12 (length q - 12)"
    using b(2) n c unfolding dns_parse_response_def Let_def DNS_HDR_LEN_def of_nat_numeral question_len [OF q12] DNS_FLAG_QR_def
    by (auto simp: word_less_nat_alt split: if_splits)
  have "drop 12 (take (length q) bs) = drop 12 q"
    using p(3,4) n(2) by (simp add: slice_mem_of drop_take)
  then show ?thesis using q o v b p by blast
qed

lemma dns_authentic_witness:
  "\<exists>qlen q sock s1 k t bs. dns_build_query 280 1 ''a.b'' = (qlen, q) \<and>
    dns_passes demo_poll sock 9 q 0 s1 k t \<and> fst (udp_recv sock 512 (demo_poll k t)) = Some (bs, 9, 53) \<and> drop 12 (take (length q) bs) = drop 12 q"
proof -
  obtain s' where "dns_resolve demo_poll [] 0 9 ''a.b'' 5000 udp_net_blank = Some (Some 0x0A000007, s')" using demo_answer by blast
  from dns_authentic [OF this demo_facts(2,3)] show ?thesis by simp blast
qed

text \<open>The resolver returns and leaves no socket open: for a timeout that is at least 50 ms below the wrap
  of the time counter, whatever arrives and whatever the poll hook does to the network state short of opening
  or closing sockets, \<open>dns_resolve\<close> ends, and the same UDP sockets are open after it as before.\<close>

theorem dns_resolve_returns:
  assumes "unat timeout_ms + 50 \<le> 2 ^ 32" "\<forall>k s j. u_active (udp_socks (poll k s) j) = u_active (udp_socks s j)"
  shows "\<exists>r s'. dns_resolve poll draws rnd server host timeout_ms s = Some (r, s') \<and>
    (\<forall>j. u_active (udp_socks s' j) = u_active (udp_socks s j))"
proof -
  obtain qlen q where q: "dns_build_query 280 (rnd OR 1) host = (qlen, q)" by (cases "dns_build_query 280 (rnd OR 1) host")
  obtain i t where o: "udp_open draws 0 s = Some (i, t)" using udp_open_returns [of draws 0 s] by auto
  note a = udp_open_active [OF o]
  obtain c u where l: "dns_loop poll i server (rnd OR 1) q qlen timeout_ms 0 0 t = Some (c, u)" "same_open t u"
    using dns_loop_spec [OF assms(1)] assms(2) unfolding same_open_def by metis
  have "u_active (udp_socks (udp_close i u) j) = u_active (udp_socks s j)" if "\<not> i < 0" for j
    using a l(2) that by (auto simp: udp_close_def udp_sock_valid_def same_open_def)
  then show ?thesis using a l(1) by (auto simp: dns_resolve_def Let_def q o split: option.split)
qed

lemma dns_resolve_returns_witness:
  "\<exists>r s'. dns_resolve demo_poll [] 0 9 ''a.b'' 60000 udp_net_blank = Some (r, s') \<and> \<not> u_active (udp_socks s' 0)"
proof -
  have "\<forall>k s j. u_active (udp_socks (demo_poll k s) j) = u_active (udp_socks s j)" by (simp add: demo_poll_def)
  moreover have "\<not> u_active (udp_socks udp_net_blank 0)" by (simp add: udp_net_blank_def udp_blank_def)
  ultimately show ?thesis using dns_resolve_returns [of 60000 demo_poll "[]" 0 9 "''a.b''" udp_net_blank] by force
qed

text \<open>The parser reads nothing behind the packet: two buffers that agree on the bytes received give the
  same result, whatever lies behind them and whatever the packet says about lengths and counts.\<close>

theorem dns_parse_bounds:
  assumes "\<forall>i<unat len. b1 i = b2 i" "12 \<le> qlen"
  shows "dns_parse_response b1 len txid q qlen = dns_parse_response b2 len txid q qlen"
  using assms by (rule parse_cong)

lemma dns_parse_bounds_witness:
  "dns_parse_response (\<lambda>i. if i < 40 then 0xFF else 0) 40 0xFFFF (\<lambda>_. 0) 17 =
   dns_parse_response (\<lambda>_. 0xFF) 40 0xFFFF (\<lambda>_. 0) 17"
  by (rule dns_parse_bounds) simp_all

text \<open>The query buffer can be overrun: the length of a label is taken modulo 256 before it is compared
  with 63 and with the room left, so for a label of \<open>n\<close> characters with \<open>n mod 256\<close> between 1 and 63 the
  whole label is copied: from 268 characters on, \<open>n + 13\<close> bytes are stored in the buffer of 280 before the
  name is refused.\<close>

theorem dns_label_overflow:
  assumes "0 < n mod 256" "n mod 256 \<le> 63" "268 \<le> n"
  shows "\<exists>q. dns_build_query 280 txid (replicate n CHR ''a'') = (0, q) \<and> length q = n + 13 \<and> 280 < length q"
proof -
  have u: "unat (of_nat n :: u8) = n mod 256" by (simp add: unat_of_nat take_bit_eq_mod)
  obtain m where m: "n = Suc m" using assms(1) by (cases n) simp_all
  have t: "takeWhile (\<lambda>x. x \<noteq> CHR ''.'') (replicate n CHR ''a'') = replicate n CHR ''a''"
    "dropWhile (\<lambda>x. x \<noteq> CHR ''.'') (replicate n CHR ''a'') = []" by (simp_all add: takeWhile_eq_all_conv)
  have nz: "\<not> ((of_nat n :: u8) = 0 \<or> 63 < (of_nat n :: u8))"
    using assms u by (auto simp: word_less_nat_alt)
  have "snd (put_labels 276 (replicate n CHR ''a'') (dns_hdr txid DNS_FLAG_RD 1 0)) =
      dns_hdr txid DNS_FLAG_RD 1 0 @ of_nat n # replicate n 97"
    using t nz u assms unfolding m replicate_Suc by (simp only: put_labels.simps Let_def) (simp add: map_replicate_const)
  then show ?thesis using assms(3) by (simp add: dns_build_query_def DNS_HDR_LEN_def Let_def split_beta)
qed

lemma dns_label_overflow_witness: "\<exists>q. dns_build_query 280 7 (replicate 319 CHR ''a'') = (0, q) \<and> length q = 332"
  using dns_label_overflow [of 319 7] by auto

end
