(* ===== verification/Spec2Isabelle.thy ===== *)
theory Spec2Isabelle
  imports Task_Props RamFS_Props RamFS_Proxy Tcp_Conns Tcp_Stream Net_Text Net_Cksum Net_Arp Dns_Props
begin

text \<open>
  A verification development for the UAOS kernel, whose sources are under \<^verbatim>\<open>src/\<close>.  It models four parts:
  the task scheduler, the RAM file system, the network stack and the DNS resolver.  The definitions are
  executable translations of the C and assembly code: structures are records, pointers into static
  arrays are indices (\<open>None\<close> for NULL), machine integers are words of their width, and the globals of a
  part are one record that its operations return updated.  Theory Prelude holds the word types and the
  lemmas on lists, words and searches that the parts share.

  \<^bold>\<open>The scheduler\<close> (\<^verbatim>\<open>kernel/exec/task.c\<close>, \<^verbatim>\<open>task.h\<close>, \<^verbatim>\<open>task_switch.asm\<close>, parts of \<^verbatim>\<open>exec_task.c\<close>,
  \<^verbatim>\<open>exec_signal.c\<close>, \<^verbatim>\<open>thunk_handler.c\<close>, and the two epilogues of \<^verbatim>\<open>kernel/irq/idt_stubs.asm\<close>).
  \<^item> Task_List: the intrusive circular lists, against Isabelle lists.
  \<^item> Task_Defs: the state \<open>sched\<close> and the operations, under the names they have in the code.  A blocking
    loop is split at the point where the task sleeps (\<open>Wait_iter\<close>, \<open>Task_SleepTicks_iter\<close>,
    \<open>Task_WaitTicks_iter\<close>); the return path of a system call, which runs with interrupts enabled, is one
    step per instruction (\<open>syscall_epilogue\<close> at the position \<open>cpu_sc\<close>).
  \<^item> Task_Queues: 256 ready queues, bitmap and wait queue implement priority queues; the interface is
    the locale \<open>ready_queue\<close>, interpreted on the code's queues.
  \<^item> Task_Inv, Task_Ops, Task_Sched: the invariant and that each operation keeps it.
  \<^item> Task_System: boot and the step relation of tasks and interrupts, and its assumptions.
  \<^item> Task_Props: placement in the queues, no lost wake-up, dispatch of the highest priority, and saved
    stack frames: intact as long as no interrupt returns in a window of two instructions of the
    system-call return path, and misfiled when one does.

  \<^bold>\<open>The RAM file system\<close> (\<^verbatim>\<open>kernel/dos/ramfs.c\<close>, the RAM-backed branches of \<^verbatim>\<open>vfs.c\<close>, \<open>BlockDev_Read\<close>
  of \<^verbatim>\<open>blockdev.c\<close>).
  \<^item> RamFS_Pool, RamFS_Buffers: the data pool, with chunk headers in the bytes they manage, implements an
    allocator on a sequence of chunks; the locale \<open>buffer_pool\<close> is what the file system uses of it.  The
    end of RamFS_Buffers shows what a request does whose size computation wraps.
  \<^item> RamFS_Defs: nodes, volumes, path walks and all operations of \<^verbatim>\<open>ramfs.c\<close>.
  \<^item> RamFS_Tree, RamFS_Paths, RamFS_Files, RamFS_Ops: the tree, the walks over it, the contents of files,
    and each operation on the whole invariant.
  \<^item> RamFS_System: sequences of calls (\<open>fs_run\<close>) and the contract of the callers (\<open>caller_ok\<close>,
    \<open>within_contract\<close>), which the code does not check and which most theorems assume of the calls made.
  \<^item> RamFS_Props: invariant, termination, isolation, write and read, create, delete and resolve, and the
    cycle that a rename below itself closes.
  \<^item> RamFS_Proxy: files on a block device behind a one-block cache: reads return the device's bytes, and
    what the cache does after a failed transfer.

  \<^bold>\<open>The network stack\<close> (\<^verbatim>\<open>kernel/net/net.h\<close>, \<^verbatim>\<open>eth.c\<close>, \<^verbatim>\<open>arp.c\<close>, \<^verbatim>\<open>ip.c\<close>, \<^verbatim>\<open>icmp.c\<close>, \<^verbatim>\<open>udp.c\<close>, \<^verbatim>\<open>tcp.c\<close>,
  \<^verbatim>\<open>tcp.h\<close>, parts of \<^verbatim>\<open>stack.c\<close> and \<^verbatim>\<open>net_device.c\<close>).
  \<^item> Net_Defs, Net_Udp, Tcp_Defs, Net_Rx: the layers from the device up, each record of globals extending
    the one below, and the receive path.
  \<^item> Net_Ring: the byte rings of both transports (locale \<open>byte_queue\<close>, interpreted for each).  Udp_Queue: a
    UDP socket is a bounded queue of datagrams.
  \<^item> Net_Codec, Net_Props: what one host builds is what another parses, and two packets the receive path
    lets through.  Net_Cksum: checksums.  Net_Arp: the ARP cache.  Net_Text: addresses as text.
  \<^item> Tcp_Sock, Tcp_Inv, Tcp_Tick, Tcp_System: operations as updates of the socket table, the socket
    invariant, timers, and the states reachable by operations that do not overlap.
  \<^item> Tcp_Props, Tcp_Conns, Tcp_Stream: unacknowledged data is kept, buffers stay in bounds, half-dead
    connections end, handles of dead connections are refused, the send window is respected, and the
    reader gets the sender's bytes in order.

  \<^bold>\<open>The DNS resolver\<close> (\<^verbatim>\<open>kernel/net/dns.c\<close>) on the UDP sockets: Dns_Defs (definitions), Dns_Wire and
  Dns_Answer (names and records on the wire), Dns_Props (a look-up returns the server's answer, takes
  addresses only from packets that answer its query, returns and closes its socket, reads nothing
  behind a packet, and can overrun its query buffer for very long labels).

  \<^bold>\<open>Bounds.\<close>  No definition uses fuel.  Loops without a bound in the code are \<open>partial_function\<close>s whose
  value \<open>None\<close> means that they never end: pool and pointer walks (they end under the invariant), reading a
  proxy file, the search for a free port, the retry loop of the resolver (it ends for time-outs that are
  50 ms below the wrap of its counter).  The limit of 12000 ticks for closing a connection is the longest
  time-out of \<^verbatim>\<open>tcp.h\<close>; 470 ticks is the sum of all retransmissions with back-off.  Sizes of at most
  \<open>2 ^ 32 - 2 ^ 24\<close> bytes keep the pool's sums below \<open>2 ^ 32\<close> for a pool of 8 MB.

  \<^bold>\<open>Assumptions.\<close>  A call is one step.  The code guarantees it where it masks interrupts;
  theories Task_System and Tcp_System list the calls where it does not.  Task creation is atomic,
  \<open>RemTask\<close> is applied to another task, Idle never waits or exits, and callers of the file system keep
  \<open>caller_ok\<close>.  Code outside the repository or of hardware drivers is an argument: the CPU core's context
  and \<open>m68k_end_timeslice\<close>, the read operation of block devices, the send operation of the network device,
  random numbers, the clock and the resolver's poll hook.

  \<^bold>\<open>Not modelled\<close>: log output, packet capture, counters and diagnostic dumps; the body of the event pump;
  the loader of M68k tasks; the handler-backed branches and path search of \<^verbatim>\<open>vfs.c\<close>; polling and
  configuration in \<^verbatim>\<open>stack.c\<close>; DHCP, NTP, telnet and user sockets; the on-disk file systems; device
  drivers, display, shell, audio, chipset emulation, boot, the emulation glue, and user-space programs.
  They are input and output, register-level code, or clients of the modelled calls.
\<close>

end
